(* ===== verification/Prelude.thy ===== *)
theory Prelude
  imports Main "HOL-Library.Word"
begin

text \<open>
  Shared vocabulary of the development.

  \<^item> Names for the fixed-width integers of the code (\<open>std::uint8_t\<close> and its kin, and
    \<open>std::size_t\<close>, which is 64 bits wide on the supported targets).
  \<^item> Array accesses that can fail: C++ leaves an access out of bounds undefined, so
    \<open>arr_get\<close> and \<open>arr_set\<close> return \<open>None\<close> there, and every operation of the model that indexes
    an array returns an option. Proving that the result is \<open>Some\<close> is proving that the
    access is in bounds.
  \<^item> The power-of-two index arithmetic (\<open>index & mask\<close> on free-running, wrapping
    indices) used by all three rings of the library.
  \<^item> Runs of labelled transition systems, and the locale that lifts a trace invariant
    from single steps to runs.
\<close>

unbundle bit_operations_syntax

type_synonym u8 = "8 word"
type_synonym u16 = "16 word"
type_synonym u32 = "32 word"
type_synonym u64 = "64 word"

named_theorems slot_simps \<open>index arithmetic of the power-of-two rings\<close>
named_theorems defined_simps \<open>accesses known to be in bounds\<close>

section \<open>Arrays with undefined behaviour out of bounds\<close>

definition arr_get :: "'a list \<Rightarrow> u64 \<Rightarrow> 'a option" where
  "arr_get xs i = (if unat i < length xs then Some (xs ! unat i) else None)"

definition arr_set :: "'a list \<Rightarrow> u64 \<Rightarrow> 'a \<Rightarrow> 'a list option" where
  "arr_set xs i v = (if unat i < length xs then Some (xs[unat i := v]) else None)"

text \<open>The \<open>size()\<close> of a vector, as a \<open>std::size_t\<close>.\<close>

definition vec_size :: "'a list \<Rightarrow> u64" where
  "vec_size xs = of_nat (length xs)"

lemma arr_get_Some [defined_simps]: "unat i < length xs \<Longrightarrow> arr_get xs i = Some (xs ! unat i)"
  by (simp add: arr_get_def)

lemma arr_set_Some [defined_simps]: "unat i < length xs \<Longrightarrow> arr_set xs i v = Some (xs[unat i := v])"
  by (simp add: arr_set_def)

lemma arr_get_eq_Some_iff: "arr_get xs i = Some v \<longleftrightarrow> unat i < length xs \<and> v = xs ! unat i"
  by (auto simp: arr_get_def)

lemma unat_vec_size [simp]: "length xs < 2 ^ 64 \<Longrightarrow> unat (vec_size xs) = length xs"
  by (simp add: vec_size_def unat_of_nat take_bit_nat_eq_self)

section \<open>Word arithmetic\<close>

lemma unat_add_of_nat: "unat (r + of_nat i :: u64) = (unat r + i) mod 2 ^ 64"
  by (simp add: unat_word_ariths unat_of_nat mod_add_right_eq)

lemma unat_Suc_less: "(i :: u64) < n \<Longrightarrow> unat (i + 1) = Suc (unat i)"
  by unat_arith

lemma unat_less_iff: "(i :: u64) < n \<longleftrightarrow> unat i < unat n"
  by (rule word_less_nat_alt)

lemma unat_less_size: "unat (w :: u64) < 2 ^ 64"
proof -
  have "unat w < 2 ^ LENGTH(64)" by (rule unsigned_less)
  then show ?thesis by simp
qed

lemma unat_of_nat_small: "n < 2 ^ 64 \<Longrightarrow> unat (of_nat n :: u64) = n"
  by (simp add: unat_of_nat take_bit_nat_eq_self)

text \<open>
  The distance between two free-running counters: a counter that counts modulo
  \<open>2 ^ 64\<close> still measures any distance below \<open>2 ^ 64\<close> exactly.
\<close>

lemma unat_distance [slot_simps]:
  assumes "t \<le> p" and "p - t < 2 ^ 64"
  shows "unat (of_nat p - of_nat t :: u64) = p - t"
proof -
  have "(of_nat p - of_nat t :: u64) = of_nat (p - t)"
    using assms(1) by simp
  then show ?thesis
    using assms(2) by (simp only: unat_of_nat_small)
qed

lemma of_nat_eq_near:
  assumes "(of_nat p :: u64) = of_nat t" and "t \<le> p" and "p - t < 2 ^ 64"
  shows "p = t"
  using unat_distance [OF assms(2,3)] assms(1,2) by simp

lemma of_nat_eq_below:
  "(of_nat p :: u64) = of_nat t \<Longrightarrow> p < 2 ^ 64 \<Longrightarrow> t < 2 ^ 64 \<Longrightarrow> p = t"
  by (metis unat_of_nat_small)

lemma xor_eq_0_iff_eq: "a XOR b = 0 \<longleftrightarrow> a = b" for a b :: "'a::len word"
  by (auto simp: bit_eq_iff bit_xor_iff)

lemma xor_cancel_left: "c XOR a = c XOR b \<longleftrightarrow> a = b" for a b :: "'a::len word"
  by (auto simp: bit_eq_iff bit_xor_iff)

lemma xor_cancel_right: "a XOR c = b XOR c \<longleftrightarrow> a = b" for a b :: "'a::len word"
  by (auto simp: bit_eq_iff bit_xor_iff)

text \<open>The two's complement reading of a word.\<close>

lemma signed_take_bit_wrap:
  fixes k :: int
  assumes "0 \<le> k" and "k < 2 ^ Suc n"
  shows "signed_take_bit n k = (if k < 2 ^ n then k else k - 2 ^ Suc n)"
proof (cases "k < 2 ^ n")
  case True
  then show ?thesis using assms by (simp add: signed_take_bit_int_eq_self_iff)
next
  case False
  have "signed_take_bit n k = signed_take_bit n (k - 2 ^ Suc n)"
    by (simp only: signed_take_bit_eq_iff_take_bit_eq) (simp only: take_bit_eq_mod minus_mod_self2)
  also have "\<dots> = k - 2 ^ Suc n"
    using assms False by (intro signed_take_bit_int_eq_self) auto
  finally show ?thesis using False by simp
qed

lemma sint_of_unat:
  fixes w :: "'a::len word"
  shows "sint w = (if unat w < 2 ^ (LENGTH('a) - 1) then int (unat w) else int (unat w) - 2 ^ LENGTH('a))"
proof -
  obtain n where n: "LENGTH('a) = Suc n" using len_not_eq_0 not0_implies_Suc by blast
  have "sint w = signed_take_bit n (uint w)" by (simp add: sint_uint n)
  also have "\<dots> = (if uint w < 2 ^ n then uint w else uint w - 2 ^ Suc n)"
    using uint_lt2p [of w] by (intro signed_take_bit_wrap) (simp_all only: n unsigned_greater_eq)
  also have "uint w < 2 ^ n \<longleftrightarrow> unat w < 2 ^ n"
    by (simp only: uint_nat of_nat_less_numeral_power_cancel_iff)
  finally show ?thesis by (simp add: n)
qed
section \<open>Powers of two\<close>

text \<open>
  The test \<open>(N != 0) && ((N & (N - 1)) == 0)\<close> of \<open>ring_buffer.hpp\<close>, and what it means.
\<close>

definition is_pow2 :: "u64 \<Rightarrow> bool" where
  "is_pow2 n \<longleftrightarrow> n \<noteq> 0 \<and> n AND (n - 1) = 0"

lemma nat_and_pred_eq_0:
  "0 < n \<Longrightarrow> n AND (n - 1) = 0 \<Longrightarrow> \<exists>k. n = 2 ^ k" for n :: nat
proof (induction n rule: less_induct)
  case (less n)
  have decomp: "(n AND (n - 1)) = of_bool (odd n \<and> odd (n - 1)) + 2 * ((n div 2) AND ((n - 1) div 2))"
    by (subst and_rec) simp
  show ?case
  proof (cases "even n")
    case True
    then obtain m where m: "n = 2 * m" by (rule evenE)
    with less.prems(1) have pos: "0 < m" by simp
    then have "(n - 1) div 2 = m - 1" using m by (cases m) auto
    with decomp less.prems(2) m have "m AND (m - 1) = 0" by simp
    then obtain k where "m = 2 ^ k" using less.IH [of m] m pos by auto
    with m have "n = 2 ^ Suc k" by simp
    then show ?thesis by blast
  next
    case False
    then obtain m where m: "n = 2 * m + 1" by (rule oddE)
    with decomp less.prems(2) have "m AND m = 0" by simp
    then have "m = 0" by (simp only: and.idem)
    with m have "n = 2 ^ 0" by simp
    then show ?thesis by blast
  qed
qed

lemma unat_pow2: "k < 64 \<Longrightarrow> unat (2 ^ k :: u64) = 2 ^ k"
  by (metis (mono_tags) of_nat_numeral of_nat_power power_strict_increasing_iff one_less_numeral_iff semiring_norm(76) unat_of_nat_small)

lemma is_pow2_power: "k < 64 \<Longrightarrow> is_pow2 (2 ^ k)"
proof -
  assume k: "k < 64"
  have "(2 ^ k :: u64) AND (2 ^ k - 1) = take_bit k (2 ^ k)"
    by (simp add: take_bit_eq_mask mask_eq_exp_minus_1)
  also have "\<dots> = 0" by (rule bit_word_eqI) (auto simp: bit_simps)
  finally show ?thesis
    using k by (simp add: is_pow2_def)
qed

lemma is_pow2_iff: "is_pow2 n \<longleftrightarrow> (\<exists>k<64. n = 2 ^ k)"
proof
  assume "is_pow2 n"
  then have nz: "n \<noteq> 0" and land: "n AND (n - 1) = 0"
    by (auto simp: is_pow2_def)
  have "unat (n - 1) = unat n - 1"
    using nz by (simp add: unat_minus_one)
  with land have "unat n AND (unat n - 1) = 0"
    by (metis unsigned_0 unsigned_and_eq)
  then obtain k where k: "unat n = 2 ^ k"
    using nat_and_pred_eq_0 [of "unat n"] nz by (auto simp: unat_gt_0)
  have "unat n < 2 ^ LENGTH(64)" by (rule unsigned_less)
  with k have "(2::nat) ^ k < 2 ^ 64" by simp
  then have "k < 64" by (simp only: power_strict_increasing_iff one_less_numeral_iff semiring_norm)
  moreover have "n = 2 ^ k"
    using k by (metis of_nat_numeral of_nat_power ucast_id of_nat_unat)
  ultimately show "\<exists>k<64. n = 2 ^ k" by blast
qed (auto intro: is_pow2_power)

text \<open>
  \<open>slot i mask\<close> is \<open>i & mask\<close>; with \<open>mask = 2 ^ k - 1\<close> it is the remainder modulo the
  capacity, also after the index has wrapped at \<open>2 ^ 64\<close>.
\<close>

lemma and_pow2_mask: "(i :: u64) AND (2 ^ k - 1) = take_bit k i"
  by (simp add: take_bit_eq_mask mask_eq_exp_minus_1)

lemma unat_slot [slot_simps]:
  assumes "k < 64"
  shows "unat ((i :: u64) AND (2 ^ k - 1)) = unat i mod 2 ^ k"
proof -
  have "unat (i AND (2 ^ k - 1)) = take_bit k (unat i)"
    by (simp only: and_pow2_mask unsigned_take_bit_eq)
  then show ?thesis by (simp only: take_bit_eq_mod)
qed

lemma unat_slot_of_nat [slot_simps]:
  assumes "k < 64"
  shows "unat ((of_nat p :: u64) AND (2 ^ k - 1)) = p mod 2 ^ k"
proof -
  have "(2::nat) ^ k dvd 2 ^ 64" using assms by (intro le_imp_power_dvd) simp
  moreover have "unat (of_nat p :: u64) = p mod 2 ^ 64"
    by (simp add: unat_of_nat take_bit_eq_mod)
  ultimately show ?thesis
    by (simp only: unat_slot [OF assms] mod_mod_cancel)
qed

lemma unat_slot_add [slot_simps]:
  assumes "k < 64"
  shows "unat ((r + of_nat i :: u64) AND (2 ^ k - 1)) = (unat r + i) mod 2 ^ k"
proof -
  have "(r + of_nat i :: u64) = of_nat (unat r + i)" by simp
  then show ?thesis by (simp only: unat_slot_of_nat assms)
qed

text \<open>Two positions less than a capacity apart never share a slot.\<close>

lemma slots_distinct:
  assumes "(i :: nat) mod n = j mod n" and "i \<le> j" and "j - i < n"
  shows "i = j"
proof -
  have "n dvd j - i" using assms(1,2) by (metis mod_eq_dvd_iff_nat)
  with assms(2,3) show ?thesis by (auto dest: dvd_imp_le)
qed

lemma slots_distinct_window:
  assumes "(i :: nat) mod n = j mod n" and "t \<le> i" "i < t + n" and "t \<le> j" "j < t + n"
  shows "i = j"
  using slots_distinct [of i n j] slots_distinct [of j n i] assms by linarith

text \<open>
  The \<open>L\<close> consecutive elements of a ring of capacity \<open>n\<close> from position \<open>r\<close>: storing at
  position \<open>r + L\<close> appends to the window, as long as the window has not wrapped onto itself.
\<close>

definition window :: "nat \<Rightarrow> 'a list \<Rightarrow> nat \<Rightarrow> nat \<Rightarrow> 'a list" where
  "window n b r L = map (\<lambda>i. b ! ((r + i) mod n)) [0 ..< L]"

lemma length_window [simp]: "length (window n b r L) = L"
  by (simp add: window_def)

lemma nth_window [simp]: "i < L \<Longrightarrow> window n b r L ! i = b ! ((r + i) mod n)"
  by (simp add: window_def)

lemma window_0 [simp]: "window n b r 0 = []"
  by (simp add: window_def)

lemma window_Suc: "window n b r (Suc L) = b ! (r mod n) # window n b (Suc r) L"
  by (rule nth_equalityI) (auto simp: nth_Cons split: nat.split)

lemma window_mod: "r mod n = r' mod n \<Longrightarrow> window n b r L = window n b r' L"
  by (rule nth_equalityI) (simp_all, metis mod_add_left_eq)

lemma window_put:
  assumes "L < n" and "length b = n"
  shows "window n (b[(r + L) mod n := x]) r (Suc L) = window n b r L @ [x]"
proof (rule nth_equalityI)
  fix i assume "i < length (window n (b[(r + L) mod n := x]) r (Suc L))"
  then have i: "i < Suc L" by simp
  have "(r + i) mod n = (r + L) mod n \<Longrightarrow> i = L"
    using slots_distinct [of "r + i" n "r + L"] i assms(1) by auto
  moreover have "(r + L) mod n < length b"
    using assms by (simp add: mod_less_divisor)
  ultimately show "window n (b[(r + L) mod n := x]) r (Suc L) ! i = (window n b r L @ [x]) ! i"
    using i by (cases "i = L") (auto simp: nth_append nth_list_update)
qed simp

section \<open>Runs of labelled transition systems\<close>

text \<open>
  A component with threads is a step relation whose steps carry a label (an event). A run
  is a finite sequence of steps; its events are the history the properties speak about.
\<close>

inductive run :: "('s \<Rightarrow> 'e \<Rightarrow> 's \<Rightarrow> bool) \<Rightarrow> 's \<Rightarrow> 'e list \<Rightarrow> 's \<Rightarrow> bool"
  for step where
  run_nil: "run step s [] s"
| run_snoc: "run step s es t \<Longrightarrow> step t e u \<Longrightarrow> run step s (es @ [e]) u"

lemma run_append: "run step t es' u \<Longrightarrow> run step s es t \<Longrightarrow> run step s (es @ es') u"
proof (induction rule: run.induct)
  case (run_snoc s' es' t' e u)
  then have "run step s (es @ es') t'" by blast
  from run.run_snoc [OF this run_snoc.hyps(2)] show ?case by simp
qed simp

lemma run_single: "step s e t \<Longrightarrow> run step s [e] t"
  using run.run_snoc [OF run.run_nil, of step s e t] by simp

lemma run_cons: "step s e t \<Longrightarrow> run step t es u \<Longrightarrow> run step s (e # es) u"
  using run_append [OF _ run_single, of step t es u s e] by simp

lemma run_cut: "run step s es u \<Longrightarrow> es = es1 @ es2 \<Longrightarrow> \<exists>t. run step s es1 t \<and> run step t es2 u"
proof (induction arbitrary: es2 rule: run.induct)
  case (run_snoc s es t e u)
  show ?case
  proof (cases es2 rule: rev_cases)
    case Nil
    with run_snoc show ?thesis by (metis append_Nil2 run.run_nil run.run_snoc)
  next
    case (snoc ys y)
    with run_snoc.prems have "es = es1 @ ys" "y = e" by simp_all
    with run_snoc.IH snoc run_snoc.hyps(2) show ?thesis by (metis run.run_snoc)
  qed
qed (auto intro!: exI run.run_nil)

locale trace_invariant =
  fixes step :: "'s \<Rightarrow> 'e \<Rightarrow> 's \<Rightarrow> bool"
    and start :: "'s \<Rightarrow> bool"
    and inv :: "'e list \<Rightarrow> 's \<Rightarrow> bool"
  assumes inv_start: "start s \<Longrightarrow> inv [] s"
    and inv_step: "inv es s \<Longrightarrow> step s e t \<Longrightarrow> inv (es @ [e]) t"
begin

lemma inv_run: "run step s es t \<Longrightarrow> start s \<Longrightarrow> inv es t"
  by (induction rule: run.induct) (auto intro: inv_start inv_step)

lemma inv_run_prefix:
  assumes "run step s es t" and "start s" and "es = es1 @ es2"
  shows "\<exists>m. run step s es1 m \<and> inv es1 m"
  using run_cut [OF assms(1,3)] inv_run [OF _ assms(2)] by blast

end

section \<open>Operations that refine an abstract specification\<close>

text \<open>
  A component whose operations each run to completion (under its mutex, or single-threaded)
  is a function from states and operations to results and states, \<open>None\<close> for undefined
  behaviour. It refines an abstract machine when every single operation commutes with the
  abstraction; then every sequence of operations does.
\<close>

fun run_ops :: "('s \<Rightarrow> 'o \<Rightarrow> ('r \<times> 's) option) \<Rightarrow> 's \<Rightarrow> 'o list \<Rightarrow> ('r list \<times> 's) option" where
  "run_ops step s [] = Some ([], s)"
| "run_ops step s (a # as) =
     (case step s a of
        None \<Rightarrow> None
      | Some (r, t) \<Rightarrow> (case run_ops step t as of None \<Rightarrow> None | Some (rs, u) \<Rightarrow> Some (r # rs, u)))"

fun run_spec :: "('q \<Rightarrow> 'o \<Rightarrow> 'r \<times> 'q) \<Rightarrow> 'q \<Rightarrow> 'o list \<Rightarrow> 'r list \<times> 'q" where
  "run_spec spec q [] = ([], q)"
| "run_spec spec q (a # as) =
     (case spec q a of (r, q') \<Rightarrow> case run_spec spec q' as of (rs, q'') \<Rightarrow> (r # rs, q''))"

lemma run_spec_Cons:
  "snd (run_spec spec q (a # as)) = snd (run_spec spec (snd (spec q a)) as)"
  by (simp add: case_prod_beta)

lemma run_spec_append:
  "run_spec spec q (as @ bs) = (fst (run_spec spec q as) @ fst (run_spec spec (snd (run_spec spec q as)) bs),
     snd (run_spec spec (snd (run_spec spec q as)) bs))"
  by (induction as arbitrary: q) (simp_all split: prod.splits)

lemma run_opsE:
  assumes "(case r of None \<Rightarrow> False | Some (es, t) \<Rightarrow> P es t)"
  obtains es t where "r = Some (es, t)" and "P es t"
  using assms by (cases r) auto

text \<open>
  The general form allows a resource of the abstract state, its \<open>size\<close>, to grow by at most one
  with each operation; the simulation need only hold below a bound, and the runs are those too
  short to reach it.
\<close>

locale bounded_refinement =
  fixes step :: "'s \<Rightarrow> 'o \<Rightarrow> ('r \<times> 's) option"
    and spec :: "'q \<Rightarrow> 'o \<Rightarrow> 'r \<times> 'q"
    and ok :: "'o \<Rightarrow> bool"
    and inv :: "'s \<Rightarrow> bool"
    and abs :: "'s \<Rightarrow> 'q"
    and size :: "'q \<Rightarrow> nat"
    and bound :: nat
  assumes bounded_simulation: "inv s \<Longrightarrow> ok a \<Longrightarrow> size (abs s) < bound \<Longrightarrow>
      \<exists>t. step s a = Some (fst (spec (abs s) a), t) \<and> inv t \<and> abs t = snd (spec (abs s) a)"
    and size_step: "size (snd (spec q a)) \<le> Suc (size q)"
begin

lemma bounded_run:
  "inv s \<Longrightarrow> list_all ok as \<Longrightarrow> size (abs s) + length as \<le> bound \<Longrightarrow>
     \<exists>t. run_ops step s as = Some (fst (run_spec spec (abs s) as), t)
       \<and> inv t \<and> abs t = snd (run_spec spec (abs s) as)"
proof (induction as arbitrary: s)
  case (Cons a as)
  then obtain t where t: "step s a = Some (fst (spec (abs s) a), t)" "inv t" "abs t = snd (spec (abs s) a)"
    using bounded_simulation [of s a] by auto
  have "size (abs t) + length as \<le> bound" using size_step [of "abs s" a] Cons.prems(3) t(3) by simp
  with Cons t obtain u where "run_ops step t as = Some (fst (run_spec spec (abs t) as), u)"
    and "inv u" and "abs u = snd (run_spec spec (abs t) as)"
    by fastforce
  with t show ?case by (auto split: prod.splits)
qed simp

end

text \<open>Without a bound: every sequence of operations is simulated.\<close>

locale refinement =
  fixes step :: "'s \<Rightarrow> 'o \<Rightarrow> ('r \<times> 's) option"
    and spec :: "'q \<Rightarrow> 'o \<Rightarrow> 'r \<times> 'q"
    and ok :: "'o \<Rightarrow> bool"
    and inv :: "'s \<Rightarrow> bool"
    and abs :: "'s \<Rightarrow> 'q"
  assumes simulation: "inv s \<Longrightarrow> ok a \<Longrightarrow>
    \<exists>t. step s a = Some (fst (spec (abs s) a), t) \<and> inv t \<and> abs t = snd (spec (abs s) a)"
begin

lemma step_defined: "inv s \<Longrightarrow> ok a \<Longrightarrow> step s a \<noteq> None"
  using simulation by fastforce

end

sublocale refinement \<subseteq> within: bounded_refinement step spec ok inv abs "\<lambda>_. 0" n for n
  by unfold_locales (simp_all add: simulation)

context refinement
begin

lemma simulation_run:
  "inv s \<Longrightarrow> list_all ok as \<Longrightarrow>
     \<exists>t. run_ops step s as = Some (fst (run_spec spec (abs s) as), t)
       \<and> inv t \<and> abs t = snd (run_spec spec (abs s) as)"
  by (rule within.bounded_run [where n = "length as"]) simp_all

end

end
