(* ===== verification/Byte_Order.thy ===== *)
theory Byte_Order
  imports Prelude "HOL-Library.Monad_Syntax"
begin

text \<open>
  The endian-aware loads and stores of \<open>serialization/byte_order.hpp\<close>.

  A pointer into a byte buffer is the list of bytes from that pointer to the end of the
  buffer. The code does no bounds checking, so an access past the end is \<open>None\<close>. The
  16-bit loads compute in \<open>int\<close> (32 bits) after integer promotion and cast back; the
  model keeps those conversions.

  The contract the four pairs of routines share is the locale \<open>wire_codec\<close>: a load
  decodes the first bytes and a store replaces exactly those bytes. Round trips,
  overwriting and framing are proved once there.
\<close>

section \<open>Loads\<close>

definition load_be16 :: "u8 list \<Rightarrow> u16 option" where
  "load_be16 p = do {
     p0 \<leftarrow> arr_get p 0;
     p1 \<leftarrow> arr_get p 1;
     Some (ucast (push_bit 8 (ucast (ucast p0 :: u16) :: u32) OR (ucast p1 :: u32)))
   }"

definition load_be32 :: "u8 list \<Rightarrow> u32 option" where
  "load_be32 p = do {
     p0 \<leftarrow> arr_get p 0;
     p1 \<leftarrow> arr_get p 1;
     p2 \<leftarrow> arr_get p 2;
     p3 \<leftarrow> arr_get p 3;
     Some (push_bit 24 (ucast p0 :: u32) OR push_bit 16 (ucast p1 :: u32) OR
           push_bit 8 (ucast p2 :: u32) OR (ucast p3 :: u32))
   }"

definition load_le16 :: "u8 list \<Rightarrow> u16 option" where
  "load_le16 p = do {
     p1 \<leftarrow> arr_get p 1;
     p0 \<leftarrow> arr_get p 0;
     Some (ucast (push_bit 8 (ucast (ucast p1 :: u16) :: u32) OR (ucast p0 :: u32)))
   }"

definition load_le32 :: "u8 list \<Rightarrow> u32 option" where
  "load_le32 p = do {
     p3 \<leftarrow> arr_get p 3;
     p2 \<leftarrow> arr_get p 2;
     p1 \<leftarrow> arr_get p 1;
     p0 \<leftarrow> arr_get p 0;
     Some (push_bit 24 (ucast p3 :: u32) OR push_bit 16 (ucast p2 :: u32) OR
           push_bit 8 (ucast p1 :: u32) OR (ucast p0 :: u32))
   }"

text \<open>The signed variants reinterpret the loaded word as two's complement.\<close>

definition load_be16s :: "u8 list \<Rightarrow> int option" where
  "load_be16s p = map_option sint (load_be16 p)"

definition load_be32s :: "u8 list \<Rightarrow> int option" where
  "load_be32s p = map_option sint (load_be32 p)"

definition load_le16s :: "u8 list \<Rightarrow> int option" where
  "load_le16s p = map_option sint (load_le16 p)"

definition load_le32s :: "u8 list \<Rightarrow> int option" where
  "load_le32s p = map_option sint (load_le32 p)"

section \<open>Stores\<close>

definition store_be16 :: "u8 list \<Rightarrow> u16 \<Rightarrow> u8 list option" where
  "store_be16 p v = do {
     p \<leftarrow> arr_set p 0 (ucast (drop_bit 8 v));
     arr_set p 1 (ucast v)
   }"

definition store_be32 :: "u8 list \<Rightarrow> u32 \<Rightarrow> u8 list option" where
  "store_be32 p v = do {
     p \<leftarrow> arr_set p 0 (ucast (drop_bit 24 v));
     p \<leftarrow> arr_set p 1 (ucast (drop_bit 16 v));
     p \<leftarrow> arr_set p 2 (ucast (drop_bit 8 v));
     arr_set p 3 (ucast v)
   }"

definition store_le16 :: "u8 list \<Rightarrow> u16 \<Rightarrow> u8 list option" where
  "store_le16 p v = do {
     p \<leftarrow> arr_set p 0 (ucast v);
     arr_set p 1 (ucast (drop_bit 8 v))
   }"

definition store_le32 :: "u8 list \<Rightarrow> u32 \<Rightarrow> u8 list option" where
  "store_le32 p v = do {
     p \<leftarrow> arr_set p 0 (ucast v);
     p \<leftarrow> arr_set p 1 (ucast (drop_bit 8 v));
     p \<leftarrow> arr_set p 2 (ucast (drop_bit 16 v));
     arr_set p 3 (ucast (drop_bit 24 v))
   }"

section \<open>The contract of a load/store pair\<close>

locale wire_codec =
  fixes width :: nat
    and load :: "u8 list \<Rightarrow> 'v option"
    and store :: "u8 list \<Rightarrow> 'v \<Rightarrow> u8 list option"
    and bytes :: "'v \<Rightarrow> u8 list"
    and val_of :: "u8 list \<Rightarrow> 'v"
  assumes load_eq: "load p = (if width \<le> length p then Some (val_of (take width p)) else None)"
    and store_eq: "store p v = (if width \<le> length p then Some (bytes v @ drop width p) else None)"
    and length_bytes: "length (bytes v) = width"
    and val_of_bytes: "val_of (bytes v) = v"
    and bytes_val_of: "length bs = width \<Longrightarrow> bytes (val_of bs) = bs"
begin

lemma load_store:
  assumes "width \<le> length p"
  obtains q where "store p v = Some q" and "length q = length p"
    and "load q = Some v" and "drop width q = drop width p"
proof
  show "store p v = Some (bytes v @ drop width p)"
    using assms by (simp add: store_eq)
  show "length (bytes v @ drop width p) = length p"
    using assms by (simp add: length_bytes)
  show "load (bytes v @ drop width p) = Some v"
    by (simp add: load_eq length_bytes val_of_bytes)
  show "drop width (bytes v @ drop width p) = drop width p"
    by (simp add: length_bytes)
qed

lemma store_load: "load p = Some v \<Longrightarrow> store p v = Some p"
  by (auto simp: load_eq store_eq bytes_val_of split: if_splits)

lemma store_store: "store p v = Some q \<Longrightarrow> store q w = store p w"
  by (auto simp: store_eq length_bytes split: if_splits)

lemma store_bind_load: "(store p v \<bind> load) = (if width \<le> length p then Some v else None)"
  by (simp add: store_eq load_eq length_bytes val_of_bytes)

lemma load_bind_store: "(load p \<bind> store p) = (if width \<le> length p then Some p else None)"
  by (simp add: store_eq load_eq bytes_val_of)

lemma store_bind_store: "(store p v \<bind> (\<lambda>q. store q w)) = store p w"
  by (simp add: store_eq length_bytes)

lemma load_None_iff: "load p = None \<longleftrightarrow> length p < width"
  by (auto simp: load_eq)

lemma store_None_iff: "store p v = None \<longleftrightarrow> length p < width"
  by (auto simp: store_eq)

lemma load_prefix: "width \<le> length p \<Longrightarrow> load (p @ r) = load p"
  by (simp add: load_eq)

end

section \<open>The four pairs satisfy the contract\<close>

definition be16_bytes :: "u16 \<Rightarrow> u8 list" where
  "be16_bytes v = [ucast (drop_bit 8 v), ucast v]"

definition be32_bytes :: "u32 \<Rightarrow> u8 list" where
  "be32_bytes v = [ucast (drop_bit 24 v), ucast (drop_bit 16 v), ucast (drop_bit 8 v), ucast v]"

definition be16_val :: "u8 list \<Rightarrow> u16" where
  "be16_val bs = ucast (push_bit 8 (ucast (ucast (bs ! 0) :: u16) :: u32) OR (ucast (bs ! 1) :: u32))"

definition be32_val :: "u8 list \<Rightarrow> u32" where
  "be32_val bs = push_bit 24 (ucast (bs ! 0)) OR push_bit 16 (ucast (bs ! 1)) OR
     push_bit 8 (ucast (bs ! 2)) OR ucast (bs ! 3)"

lemmas codec_defs = be16_bytes_def be32_bytes_def be16_val_def be32_val_def

lemma list2_exhaust: "2 \<le> length p \<Longrightarrow> \<exists>a b r. p = a # b # r"
  by (cases p rule: remdups_adj.cases) auto

lemma list4_exhaust: "4 \<le> length p \<Longrightarrow> \<exists>a b c d r. p = a # b # c # d # r"
  using list2_exhaust [of p] list2_exhaust [of "drop 2 p"] by (auto simp: numeral_eq_Suc)

lemma list2_exact: "length p = 2 \<Longrightarrow> \<exists>a b. p = [a, b]"
  using list2_exhaust [of p] by auto

lemma list4_exact: "length p = 4 \<Longrightarrow> \<exists>a b c d. p = [a, b, c, d]"
  using list4_exhaust [of p] by auto

lemma no_bit_u8: "8 \<le> m \<Longrightarrow> \<not> bit (a :: u8) m"
  by (auto dest: bit_imp_le_length)

lemma bit_u8_less: "bit (a :: u8) m \<Longrightarrow> m < 8"
  by (auto dest: bit_imp_le_length)

lemma be16_split: "be16_val [ucast (drop_bit 8 v), ucast v] = v"
  unfolding be16_val_def by (rule bit_word_eqI) (auto simp: bit_simps)

lemma be16_join: "be16_bytes (be16_val [a, b]) = [a, b]"
  unfolding codec_defs by (auto simp: bit_simps no_bit_u8 intro!: bit_word_eqI)

lemma be32_split: "be32_val [ucast (drop_bit 24 v), ucast (drop_bit 16 v), ucast (drop_bit 8 v), ucast v] = v"
proof (rule bit_word_eqI)
  fix n assume "n < LENGTH(32)"
  then consider "n < 8" | "8 \<le> n" "n < 16" | "16 \<le> n" "n < 24" | "24 \<le> n" "n < 32"
    by fastforce
  then show "bit (be32_val [ucast (drop_bit 24 v), ucast (drop_bit 16 v), ucast (drop_bit 8 v), ucast v]) n = bit v n"
    by cases (auto simp: be32_val_def bit_simps)
qed

lemma be32_join: "be32_bytes (be32_val [a, b, c, d]) = [a, b, c, d]"
  unfolding codec_defs by (auto simp: bit_simps no_bit_u8 intro!: bit_word_eqI)

interpretation be16: wire_codec 2 load_be16 store_be16 be16_bytes be16_val
proof unfold_locales
  fix p v
  show "load_be16 p = (if 2 \<le> length p then Some (be16_val (take 2 p)) else None)"
    using list2_exhaust [of p] by (auto simp: load_be16_def arr_get_def be16_val_def)
  show "store_be16 p v = (if 2 \<le> length p then Some (be16_bytes v @ drop 2 p) else None)"
    using list2_exhaust [of p] by (auto simp: store_be16_def arr_set_def be16_bytes_def)
  show "be16_bytes (be16_val bs) = bs" if "length bs = 2" for bs
    using list2_exact [OF that] be16_join by blast
qed (auto simp: be16_bytes_def be16_split)

interpretation be32: wire_codec 4 load_be32 store_be32 be32_bytes be32_val
proof unfold_locales
  fix p v
  show "load_be32 p = (if 4 \<le> length p then Some (be32_val (take 4 p)) else None)"
    using list4_exhaust [of p] by (auto simp: load_be32_def arr_get_def be32_val_def)
  show "store_be32 p v = (if 4 \<le> length p then Some (be32_bytes v @ drop 4 p) else None)"
    using list4_exhaust [of p] by (auto simp: store_be32_def arr_set_def be32_bytes_def)
  show "be32_bytes (be32_val bs) = bs" if "length bs = 4" for bs
    using list4_exact [OF that] be32_join by blast
qed (auto simp: be32_bytes_def be32_split)

interpretation le16: wire_codec 2 load_le16 store_le16 "\<lambda>v. rev (be16_bytes v)" "\<lambda>bs. be16_val (rev bs)"
proof unfold_locales
  fix p v
  show "load_le16 p = (if 2 \<le> length p then Some (be16_val (rev (take 2 p))) else None)"
    using list2_exhaust [of p] by (auto simp: load_le16_def arr_get_def be16_val_def)
  show "store_le16 p v = (if 2 \<le> length p then Some (rev (be16_bytes v) @ drop 2 p) else None)"
    using list2_exhaust [of p] by (auto simp: store_le16_def arr_set_def be16_bytes_def)
qed (auto simp: be16.length_bytes be16.val_of_bytes be16.bytes_val_of)

interpretation le32: wire_codec 4 load_le32 store_le32 "\<lambda>v. rev (be32_bytes v)" "\<lambda>bs. be32_val (rev bs)"
proof unfold_locales
  fix p v
  show "load_le32 p = (if 4 \<le> length p then Some (be32_val (rev (take 4 p))) else None)"
    using list4_exhaust [of p] by (auto simp: load_le32_def arr_get_def be32_val_def)
  show "store_le32 p v = (if 4 \<le> length p then Some (rev (be32_bytes v) @ drop 4 p) else None)"
    using list4_exhaust [of p] by (auto simp: store_le32_def arr_set_def be32_bytes_def)
qed (auto simp: be32.length_bytes be32.val_of_bytes be32.bytes_val_of)

section \<open>Numeric value of the loaded words\<close>

lemma unat_ucast_u8: "unat (ucast (a :: u8) :: u32) = unat a"
  using unsigned_less [of a, where 'a = nat]
  by (simp only: unsigned_ucast_eq) (simp add: take_bit_nat_eq_self)

lemma unat_shifted_byte:
  assumes "n \<le> 24"
  shows "unat (push_bit n (ucast (a :: u8) :: u32)) = unat a * 2 ^ n"
proof -
  have "unat a < 2 ^ 8" using unsigned_less [of a] by simp
  then have "unat a * 2 ^ n < 2 ^ 8 * 2 ^ n" by simp
  also have "(2::nat) ^ 8 * 2 ^ n \<le> 2 ^ 32"
    using assms by (simp only: power_add [symmetric]) (rule power_increasing, simp_all)
  finally show ?thesis
    by (simp only: unsigned_push_bit_eq unat_ucast_u8) (simp add: push_bit_eq_mult take_bit_nat_eq_self)
qed

lemma unat_or_disjoint: "x AND y = 0 \<Longrightarrow> unat (x OR y) = unat x + unat (y :: u32)"
  by (simp add: unsigned_or_eq disjunctive_add_eq_or flip: unsigned_and_eq)

lemma unat_be32_val:
  "unat (be32_val [a, b, c, d]) = unat a * 2 ^ 24 + unat b * 2 ^ 16 + unat c * 2 ^ 8 + unat d"
proof -
  have "unat (be32_val [a, b, c, d]) =
      unat (push_bit 24 (ucast a :: u32)) + (unat (push_bit 16 (ucast b :: u32)) + 
      (unat (push_bit 8 (ucast c :: u32)) + unat (push_bit 0 (ucast d :: u32))))"
    unfolding be32_val_def
    by (subst unat_or_disjoint; (subst unat_or_disjoint)?; (subst unat_or_disjoint)?; auto intro!: bit_word_eqI simp: bit_simps no_bit_u8)
  then show ?thesis by (simp add: unat_shifted_byte unat_ucast_u8)
qed

lemma unat_be16_val: "unat (be16_val [a, b]) = unat a * 2 ^ 8 + unat b"
proof -
  have zext: "(ucast (be16_val [a, b]) :: u32) = be32_val [0, 0, a, b]"
    unfolding be16_val_def be32_val_def
    by (auto intro!: bit_word_eqI simp: bit_simps) (fastforce dest: bit_u8_less)+
  have "unat (be16_val [a, b]) < 2 ^ LENGTH(16)" by (rule unsigned_less)
  then have "unat (be16_val [a, b]) = unat (ucast (be16_val [a, b]) :: u32)"
    by (simp only: unsigned_ucast_eq) (simp add: take_bit_nat_eq_self)
  then show ?thesis by (simp only: zext unat_be32_val) simp
qed

lemma load_bytes:
  "load_be16 (a # b # r) = Some (be16_val [a, b])"
  "load_le16 (a # b # r) = Some (be16_val [b, a])"
  "load_be32 (a # b # c # d # r) = Some (be32_val [a, b, c, d])"
  "load_le32 (a # b # c # d # r) = Some (be32_val [d, c, b, a])"
  by (simp_all add: be16.load_eq le16.load_eq be32.load_eq le32.load_eq)

lemmas load_signed_defs = load_be16s_def load_le16s_def load_be32s_def load_le32s_def

section \<open>Properties\<close>

text \<open>
  C36. Round trips of all four load/store pairs, in both directions and with the bounds.
  Loading what was stored gives the value back, and storing what was loaded leaves the
  buffer as it was; each composition is defined exactly when the buffer is long enough
  for the width (2 or 4 bytes), and is undefined behaviour otherwise.
\<close>

theorem load_store_roundtrips:
  "(store_be16 p v16 \<bind> load_be16) = (if 2 \<le> length p then Some v16 else None)
   \<and> (store_le16 p v16 \<bind> load_le16) = (if 2 \<le> length p then Some v16 else None)
   \<and> (store_be32 p v32 \<bind> load_be32) = (if 4 \<le> length p then Some v32 else None)
   \<and> (store_le32 p v32 \<bind> load_le32) = (if 4 \<le> length p then Some v32 else None)
   \<and> (load_be16 p \<bind> store_be16 p) = (if 2 \<le> length p then Some p else None)
   \<and> (load_le16 p \<bind> store_le16 p) = (if 2 \<le> length p then Some p else None)
   \<and> (load_be32 p \<bind> store_be32 p) = (if 4 \<le> length p then Some p else None)
   \<and> (load_le32 p \<bind> store_le32 p) = (if 4 \<le> length p then Some p else None)"
  by (simp add: be16.store_bind_load le16.store_bind_load be32.store_bind_load le32.store_bind_load
      be16.load_bind_store le16.load_bind_store be32.load_bind_store le32.load_bind_store)

text \<open>
  A store writes exactly its 2 or 4 bytes: whatever follows them in the buffer, and the
  length of the buffer, are unchanged, and a second store to the same place wins over the
  first one.
\<close>

theorem stores_write_only_their_bytes:
  "map_option (drop 2) (store_be16 (a # b # r) v16) = Some r
   \<and> map_option (drop 2) (store_le16 (a # b # r) v16) = Some r
   \<and> map_option (drop 4) (store_be32 (a # b # c # d # r) v32) = Some r
   \<and> map_option (drop 4) (store_le32 (a # b # c # d # r) v32) = Some r
   \<and> (store_be16 p v16 \<bind> (\<lambda>q. store_be16 q w16)) = store_be16 p w16
   \<and> (store_le16 p v16 \<bind> (\<lambda>q. store_le16 q w16)) = store_le16 p w16
   \<and> (store_be32 p v32 \<bind> (\<lambda>q. store_be32 q w32)) = store_be32 p w32
   \<and> (store_le32 p v32 \<bind> (\<lambda>q. store_le32 q w32)) = store_le32 p w32"
  by (simp add: be16.store_eq le16.store_eq be32.store_eq le32.store_eq be16.length_bytes be32.length_bytes
      be16.store_bind_store le16.store_bind_store be32.store_bind_store le32.store_bind_store)

text \<open>
  The value of a load is positional: big-endian reads the first byte as the most
  significant, little-endian as the least significant, and the signed variants are the
  two's complement reading of the same bytes.
\<close>

theorem load_values:
  "map_option unat (load_be32 (a # b # c # d # r)) =
     Some (unat a * 2 ^ 24 + unat b * 2 ^ 16 + unat c * 2 ^ 8 + unat d)
   \<and> map_option unat (load_le32 (a # b # c # d # r)) =
     Some (unat d * 2 ^ 24 + unat c * 2 ^ 16 + unat b * 2 ^ 8 + unat a)
   \<and> map_option unat (load_be16 (a # b # r)) = Some (unat a * 2 ^ 8 + unat b)
   \<and> map_option unat (load_le16 (a # b # r)) = Some (unat b * 2 ^ 8 + unat a)
   \<and> load_be16s (a # b # r) =
     Some (let n = (unat a * 2 ^ 8 + unat b) in if n < 2 ^ 15 then int n else int n - 2 ^ 16)
   \<and> load_le16s (a # b # r) =
     Some (let n = (unat b * 2 ^ 8 + unat a) in if n < 2 ^ 15 then int n else int n - 2 ^ 16)
   \<and> load_be32s (a # b # c # d # r) =
     Some (let n = (unat a * 2 ^ 24 + unat b * 2 ^ 16 + unat c * 2 ^ 8 + unat d)
           in if n < 2 ^ 31 then int n else int n - 2 ^ 32)
   \<and> load_le32s (a # b # c # d # r) =
     Some (let n = (unat d * 2 ^ 24 + unat c * 2 ^ 16 + unat b * 2 ^ 8 + unat a)
           in if n < 2 ^ 31 then int n else int n - 2 ^ 32)"
  by (intro conjI)
    (simp_all only: load_signed_defs load_bytes Let_def sint_of_unat option.map unat_be16_val unat_be32_val,
      simp_all)

end
