(* ===== verification/Checksum.thy ===== *)
theory Checksum
  imports Byte_Order
begin

text \<open>
  The integrity checks of \<open>serialization/checksum.hpp\<close>: the two bitwise CRCs and the
  inverted byte sum.

  Both CRCs are shift registers over the two-element field: the reflected CRC-8 shifts
  right and takes a byte least significant bit first, the CRC-16 shifts left and takes a
  byte most significant bit first. What they share (linearity, the bit-serial form, the
  detection of error bursts, the division form) is proved once in the locale
  \<open>crc_register\<close>, and the two registers of the code are its interpretations.
\<close>

section \<open>The code\<close>

text \<open>The loop \<open>for (std::size_t i = 0; i < len; ++i) acc = f(acc, data[i])\<close>.\<close>

function byte_loop :: "('w \<Rightarrow> u8 \<Rightarrow> 'w) \<Rightarrow> u8 list \<Rightarrow> u64 \<Rightarrow> u64 \<Rightarrow> 'w \<Rightarrow> 'w option" where
  "byte_loop f data len i acc =
     (if i < len then
        case arr_get data i of
          None \<Rightarrow> None
        | Some d \<Rightarrow> byte_loop f data len (i + 1) (f acc d)
      else Some acc)"
  by pat_completeness auto
termination
  by (relation "measure (\<lambda>(f, data, len, i, acc). unat len - unat i)")
    (auto simp: unat_Suc_less unat_less_iff diff_less_mono2)

declare byte_loop.simps [simp del]

text \<open>One iteration of the inner loop of \<open>crc8_maxim\<close>, and one byte.\<close>

definition crc8_shift :: "u8 \<Rightarrow> u8" where
  "crc8_shift crc = (if crc AND 0x01 \<noteq> 0 then drop_bit 1 crc XOR 0x8C else drop_bit 1 crc)"

definition crc8_byte :: "u8 \<Rightarrow> u8 \<Rightarrow> u8" where
  "crc8_byte crc d = (crc8_shift ^^ 8) (crc XOR d)"

definition crc8_maxim :: "u8 list \<Rightarrow> u64 \<Rightarrow> u8 option" where
  "crc8_maxim data len = byte_loop crc8_byte data len 0 0x00"

text \<open>
  In \<open>crc16_xmodem\<close> the shift happens in \<open>int\<close> after promotion and the cast to
  \<open>std::uint16_t\<close> drops the bit shifted out.
\<close>

definition crc16_shift :: "u16 \<Rightarrow> u16" where
  "crc16_shift crc =
     (if crc AND 0x8000 \<noteq> 0 then ucast (push_bit 1 (ucast crc :: u32) XOR 0x1021)
      else ucast (push_bit 1 (ucast crc :: u32)))"

definition crc16_byte :: "u16 \<Rightarrow> u8 \<Rightarrow> u16" where
  "crc16_byte crc d = (crc16_shift ^^ 8) (crc XOR ucast (push_bit 8 (ucast (ucast d :: u16) :: u32)))"

definition crc16_xmodem :: "u8 list \<Rightarrow> u64 \<Rightarrow> u16 option" where
  "crc16_xmodem data len = byte_loop crc16_byte data len 0 0x0000"

definition checksum_inverted_sum :: "u8 list \<Rightarrow> u64 \<Rightarrow> u8 option" where
  "checksum_inverted_sum data len =
     map_option (\<lambda>sum. NOT sum) (byte_loop (\<lambda>sum d. sum + d) data len 0 0)"

section \<open>The loop\<close>

lemma byte_loop_from:
  "unat len \<le> length data \<Longrightarrow>
     byte_loop f data len i acc = Some (foldl f acc (drop (unat i) (take (unat len) data)))"
proof (induction f data len i acc rule: byte_loop.induct)
  case (1 f data len i acc)
  show ?case
  proof (cases "i < len")
    case True
    then have i: "unat i < unat len" by (simp add: unat_less_iff)
    with 1 have get: "arr_get data i = Some (data ! unat i)"
      by (simp add: defined_simps)
    have "drop (unat i) (take (unat len) data) = data ! unat i # drop (Suc (unat i)) (take (unat len) data)"
      using i 1 by (subst Cons_nth_drop_Suc [symmetric]) auto
    then show ?thesis
      using "1.IH" [OF True get "1.prems"] True get
      by (subst byte_loop.simps) (simp add: unat_Suc_less)
  next
    case False
    then show ?thesis by (subst byte_loop.simps) (simp add: unat_less_iff)
  qed
qed

lemma byte_loop_overrun:
  "length data < unat len \<Longrightarrow> unat i \<le> length data \<Longrightarrow> byte_loop f data len i acc = None"
proof (induction f data len i acc rule: byte_loop.induct)
  case (1 f data len i acc)
  then have lt: "i < len" by (simp add: unat_less_iff)
  show ?case
  proof (cases "arr_get data i")
    case None
    with lt show ?thesis by (subst byte_loop.simps) simp
  next
    case (Some d)
    then have "unat i < length data" by (simp add: arr_get_eq_Some_iff)
    with 1 Some lt show ?thesis by (subst byte_loop.simps) (simp add: unat_Suc_less)
  qed
qed

text \<open>Every routine folds its step over the first \<open>len\<close> bytes, or reads out of bounds.\<close>

lemma byte_loop_fold:
  "byte_loop f data len 0 acc =
     (if unat len \<le> length data then Some (foldl f acc (take (unat len) data)) else None)"
  using byte_loop_from [of len data f 0 acc] byte_loop_overrun [of data len 0 f acc] by simp

lemma byte_loop_all:
  "length data < 2 ^ 64 \<Longrightarrow> byte_loop f data (vec_size data) 0 acc = Some (foldl f acc data)"
  by (simp add: byte_loop_fold)

section \<open>Bit strings as register contents\<close>

fun pack :: "(nat \<Rightarrow> nat) \<Rightarrow> nat \<Rightarrow> bool list \<Rightarrow> 'a::len word" where
  "pack pos n [] = 0"
| "pack pos n (b # u) = (if b then 2 ^ pos n else 0) XOR pack pos (Suc n) u"

lemma pack_snoc: "pack pos n (u @ [b]) = pack pos n u XOR (if b then 2 ^ pos (n + length u) else 0)"
  by (induction u arbitrary: n) (auto simp: ac_simps)

lemma bit_pack:
  assumes "inj_on pos {n ..< n + length u}" and "\<And>i. i < n + length u \<Longrightarrow> pos i < LENGTH('a)" and "i < length u"
  shows "bit (pack pos n u :: 'a::len word) (pos (n + i)) \<longleftrightarrow> u ! i"
  using assms
proof (induction u arbitrary: n i)
  case (Cons b u)
  have unit: "bit (2 ^ pos n :: 'a word) (pos (n + i)) \<longleftrightarrow> i = 0"
    using Cons.prems by (auto simp: bit_simps dest: inj_onD)
  show ?case
  proof (cases i)
    case 0
    have fresh: "\<not> bit (pack pos (Suc n) u :: 'a word) (pos n)"
      using Cons.prems(1) Cons.prems(2)
    proof (induction u arbitrary: b rule: rev_induct)
      case (snoc x xs)
      have "inj_on pos {n ..< n + length (b # xs)}"
        by (rule inj_on_subset [OF snoc.prems(1)]) auto
      moreover have "pos n \<noteq> pos (Suc n + length xs)"
        using snoc.prems(1) by (auto dest: inj_onD)
      ultimately show ?case
        using snoc by (auto simp: pack_snoc bit_simps)
    qed simp
    with 0 unit show ?thesis by (simp add: bit_xor_iff)
  next
    case (Suc j)
    have "inj_on pos {Suc n ..< Suc n + length u}"
      by (rule inj_on_subset [OF Cons.prems(1)]) auto
    then have "bit (pack pos (Suc n) u :: 'a word) (pos (Suc n + j)) \<longleftrightarrow> u ! j"
      using Cons Suc by (intro Cons.IH) auto
    with Suc unit show ?thesis by (simp add: bit_xor_iff)
  qed
qed simp

lemma bit_pack_other:
  "m \<notin> pos ` {n ..< n + length u} \<Longrightarrow> \<not> bit (pack pos n u :: 'a::len word) m"
proof (induction u arbitrary: n)
  case (Cons b u)
  then have "m \<noteq> pos n" and "m \<notin> pos ` {Suc n ..< Suc n + length u}"
    by (auto simp: image_iff)
  with Cons.IH show ?case by (auto simp: bit_simps)
qed simp

section \<open>What the two registers share\<close>

text \<open>
  A register of \<open>W\<close> bits: \<open>shift\<close> is linear and loses nothing, \<open>pos n\<close> is the
  position from which \<open>n\<close> shifts move a bit to the input position \<open>pos 0\<close>, and a byte is
  xored in at the positions \<open>pos 0, \<dots>, pos 7\<close> and shifted eight times.
\<close>

locale crc_register =
  fixes shift :: "'a::len word \<Rightarrow> 'a word"
    and pos :: "nat \<Rightarrow> nat"
    and bits :: "u8 \<Rightarrow> bool list"
    and byte :: "'a word \<Rightarrow> u8 \<Rightarrow> 'a word"
  assumes shift_xor: "shift (a XOR b) = shift a XOR shift b"
    and shift_eq_0: "shift a = 0 \<Longrightarrow> a = 0"
    and pos_less: "n < LENGTH('a) \<Longrightarrow> pos n < LENGTH('a)"
    and pos_inj: "inj_on pos {0 ..< LENGTH('a)}"
    and shift_pos: "n < LENGTH('a) \<Longrightarrow> (shift ^^ n) (2 ^ pos n) = 2 ^ pos 0"
    and length_bits [simp]: "length (bits d) = 8"
    and bits_inj: "bits d = bits e \<Longrightarrow> d = e"
    and wide: "8 \<le> LENGTH('a)"
    and byte_eq: "byte c d = (shift ^^ 8) (c XOR pack pos 0 (bits d))"
begin

lemma shift_0 [simp]: "shift 0 = 0"
  using shift_xor [of 0 0] by simp

lemma funpow_shift_xor: "(shift ^^ n) (a XOR b) = (shift ^^ n) a XOR (shift ^^ n) b"
  by (induction n) (simp_all add: shift_xor)

lemma funpow_shift_0 [simp]: "(shift ^^ n) 0 = 0"
  by (induction n) simp_all

lemma funpow_shift_eq_0: "(shift ^^ n) a = 0 \<Longrightarrow> a = 0"
  by (induction n) (auto dest: shift_eq_0)

lemma funpow_shift_inj: "(shift ^^ n) a = (shift ^^ n) b \<Longrightarrow> a = b"
  using funpow_shift_eq_0 [of n "a XOR b"] by (simp add: funpow_shift_xor xor_eq_0_iff_eq)

abbreviation feed :: "bool \<Rightarrow> 'a word" where
  "feed b \<equiv> if b then 2 ^ pos 0 else 0"

text \<open>The register fed bit by bit, and the same as a polynomial long division.\<close>

abbreviation serial :: "'a word \<Rightarrow> bool \<Rightarrow> 'a word" where
  "serial c b \<equiv> shift (c XOR feed b)"

abbreviation divide_step :: "'a word \<Rightarrow> bool \<Rightarrow> 'a word" where
  "divide_step r b \<equiv> shift r XOR (if b then 2 ^ pos (LENGTH('a) - 1) else 0)"

lemma serial_pack:
  "length u \<le> LENGTH('a) \<Longrightarrow> foldl serial c u = (shift ^^ length u) (c XOR pack pos 0 u)"
proof (induction u rule: rev_induct)
  case (snoc b u)
  then have "feed b = (shift ^^ length u) (if b then 2 ^ pos (length u) else 0)"
    by (simp add: shift_pos)
  with snoc show ?case
    by (simp add: pack_snoc funpow_shift_xor shift_xor ac_simps)
qed simp

lemma byte_serial: "byte c d = foldl serial c (bits d)"
  using wide by (simp add: byte_eq serial_pack)

lemma foldl_byte_serial: "foldl byte c ds = foldl serial c (concat (map bits ds))"
  by (induction ds arbitrary: c) (simp_all add: byte_serial)

lemma pack_inj:
  assumes "length u = length v" and "length u \<le> LENGTH('a)" and "(pack pos 0 u :: 'a word) = pack pos 0 v"
  shows "u = v"
proof (rule nth_equalityI)
  fix i assume i: "i < length u"
  have inj: "inj_on pos {0 ..< 0 + length u}"
    by (rule inj_on_subset [OF pos_inj]) (use assms in auto)
  show "u ! i = v ! i"
    using bit_pack [of pos 0 u i, where 'a = 'a] bit_pack [of pos 0 v i, where 'a = 'a] inj i assms pos_less
    by auto
qed (use assms in simp)

lemma serial_state_inj: "foldl serial c u = foldl serial c' u \<Longrightarrow> c = c'"
proof (induction u arbitrary: c c')
  case (Cons b u)
  from Cons.prems have "foldl serial (serial c b) u = foldl serial (serial c' b) u"
    by (simp only: foldl_Cons)
  then have "serial c b = serial c' b" by (rule Cons.IH)
  then have "(shift ^^ 1) (c XOR feed b) = (shift ^^ 1) (c' XOR feed b)" by simp
  then have "c XOR feed b = c' XOR feed b" by (rule funpow_shift_inj)
  then show ?case by (simp only: xor_cancel_right)
qed simp

text \<open>
  Two bit strings that differ only inside a window of at most \<open>W\<close> bits leave the
  register in different states.
\<close>

lemma burst_detected:
  assumes "foldl serial c (pre @ u @ post) = foldl serial c (pre @ v @ post)"
    and "length u = length v" and "length u \<le> LENGTH('a)"
  shows "u = v"
proof -
  let ?s = "foldl serial c pre"
  have "foldl serial ?s u = foldl serial ?s v"
    using assms(1) by (auto dest: serial_state_inj)
  then have "(shift ^^ length u) (?s XOR pack pos 0 u) = (shift ^^ length u) (?s XOR pack pos 0 v)"
    using assms(2,3) by (simp add: serial_pack)
  then have "?s XOR pack pos 0 u = ?s XOR pack pos 0 v" by (rule funpow_shift_inj)
  then have "(pack pos 0 u :: 'a word) = pack pos 0 v"
    by (simp only: xor_cancel_left)
  with assms(2,3) show ?thesis by (intro pack_inj)
qed

lemma concat_bits_inj: "length ds = length es \<Longrightarrow> concat (map bits ds) = concat (map bits es) \<Longrightarrow> ds = es"
proof (induction ds es rule: list_induct2)
  case (Cons d ds e es)
  then have "bits d = bits e \<and> concat (map bits ds) = concat (map bits es)"
    by (simp add: append_eq_append_conv)
  with Cons show ?case by (blast dest: bits_inj)
qed simp

text \<open>The register after a message is the remainder of a bitwise long division.\<close>

lemma divide_serial:
  "(shift ^^ LENGTH('a)) (foldl divide_step r u) = foldl serial ((shift ^^ LENGTH('a)) r) u"
proof (induction u arbitrary: r)
  case (Cons b u)
  let ?W = "LENGTH('a)"
  have unit: "(shift ^^ (?W - 1)) (if b then 2 ^ pos (?W - 1) else 0) = feed b"
    by (simp add: shift_pos)
  have last: "(shift ^^ ?W) x = shift ((shift ^^ (?W - 1)) x)" for x
    by (metis Suc_diff_1 comp_apply funpow.simps(2) len_gt_0)
  have step: "(shift ^^ ?W) (divide_step r b) = serial ((shift ^^ ?W) r) b"
  proof -
    have "(shift ^^ ?W) (shift r) = shift ((shift ^^ ?W) r)" by (rule funpow_swap1 [symmetric])
    moreover have "(shift ^^ ?W) (if b then 2 ^ pos (?W - 1) else 0) = shift (feed b)"
      by (simp only: last unit)
    ultimately show ?thesis
      by (simp only: funpow_shift_xor shift_xor)
  qed
  show ?case using Cons.IH [of "divide_step r b"] by (simp only: foldl_Cons step)
qed simp

lemma divide_zeros: "foldl divide_step r (replicate n False) = (shift ^^ n) r"
  by (induction n arbitrary: r) (simp_all add: funpow_swap1)

lemma remainder_serial:
  "foldl serial 0 u = foldl divide_step 0 (u @ replicate (LENGTH('a)) False)"
  using divide_serial [of 0 u] by (simp add: divide_zeros)

text \<open>Feeding a register its own contents empties it.\<close>

lemma residue: "length u = LENGTH('a) \<Longrightarrow> pack pos 0 u = c \<Longrightarrow> foldl serial c u = 0"
  by (simp add: serial_pack)

end

section \<open>The CRC-16 register\<close>

definition msb_first :: "u8 \<Rightarrow> bool list" where
  "msb_first d = map (bit d) [7, 6, 5, 4, 3, 2, 1, 0]"

definition lsb_first :: "u8 \<Rightarrow> bool list" where
  "lsb_first d = map (bit d) [0, 1, 2, 3, 4, 5, 6, 7]"

lemma msb_first_nth: "i < 8 \<Longrightarrow> msb_first d ! i = bit d (7 - i)"
  unfolding msb_first_def by (auto simp: less_Suc_eq numeral_eq_Suc)

lemma lsb_first_nth: "i < 8 \<Longrightarrow> lsb_first d ! i = bit d i"
  unfolding lsb_first_def by (auto simp: less_Suc_eq numeral_eq_Suc)

lemma bits_length [simp]: "length (msb_first d) = 8" "length (lsb_first d) = 8"
  by (simp_all add: msb_first_def lsb_first_def)

lemma lsb_first_inj:
  assumes "lsb_first d = lsb_first e"
  shows "d = e"
proof (rule bit_word_eqI)
  fix n assume "n < LENGTH(8)"
  then have "n < 8" by simp
  with assms show "bit d n = bit e n" by (metis lsb_first_nth)
qed

lemma msb_first_rev: "msb_first d = rev (lsb_first d)"
  by (simp add: msb_first_def lsb_first_def)

lemma ucast_shifted: "ucast (push_bit n (ucast c :: u32)) = push_bit n (c :: u16)"
  by (rule bit_word_eqI) (auto simp: bit_simps)

lemma ucast_xor_u16: "(ucast (a XOR b :: u32) :: u16) = ucast a XOR ucast b"
  by (rule bit_word_eqI) (auto simp: bit_simps)

lemma crc16_shift_alt: "crc16_shift c = push_bit 1 c XOR (if bit c 15 then 0x1021 else 0)"
proof -
  have "c AND 0x8000 = 0 \<longleftrightarrow> \<not> bit c 15"
    using and_exp_eq_0_iff_not_bit [of c 15] by simp
  then show ?thesis
    unfolding crc16_shift_def ucast_xor_u16 ucast_shifted by simp
qed

lemma crc8_shift_alt: "crc8_shift c = drop_bit 1 c XOR (if bit c 0 then 0x8C else 0)"
proof -
  have "c AND 0x01 = 0 \<longleftrightarrow> \<not> bit c 0"
    using and_exp_eq_0_iff_not_bit [of c 0] by simp
  then show ?thesis by (auto simp: crc8_shift_def)
qed

lemma feedback_xor:
  "(p XOR q) XOR (if s \<noteq> t then k else 0) = (p XOR (if s then k else 0)) XOR (q XOR (if t then k else 0))"
  for p q k :: "'a::len word"
  by (auto simp: bit_eq_iff bit_xor_iff)

abbreviation crc16_pos :: "nat \<Rightarrow> nat" where
  "crc16_pos n \<equiv> 15 - n"

lemma crc16_pack:
  "ucast (push_bit 8 (ucast (ucast d :: u16) :: u32)) = (pack crc16_pos 0 (msb_first d) :: u16)"
proof (rule bit_word_eqI)
  fix n assume n: "n < LENGTH(16)"
  show "bit (ucast (push_bit 8 (ucast (ucast d :: u16) :: u32)) :: u16) n = bit (pack crc16_pos 0 (msb_first d) :: u16) n"
  proof (cases "8 \<le> n")
    case True
    define i where "i = 15 - n"
    have i: "i < 8" "n = 15 - i" using True n by (auto simp: i_def)
    have "bit (pack crc16_pos 0 (msb_first d) :: u16) (15 - (0 + i)) = msb_first d ! i"
      by (rule bit_pack) (use i in \<open>auto simp: inj_on_def\<close>)
    with i show ?thesis by (auto simp: msb_first_nth bit_simps)
  next
    case False
    then have "n \<notin> crc16_pos ` {0 ..< 0 + length (msb_first d)}" by auto
    then have "\<not> bit (pack crc16_pos 0 (msb_first d) :: u16) n" by (rule bit_pack_other)
    with False show ?thesis by (simp add: bit_simps)
  qed
qed

lemma crc8_pack: "d = pack (\<lambda>n. n) 0 (lsb_first d)"
proof (rule bit_word_eqI)
  fix n assume n: "n < LENGTH(8)"
  have "bit (pack (\<lambda>n. n) 0 (lsb_first d) :: u8) (0 + n) = lsb_first d ! n"
    by (rule bit_pack) (use n in auto)
  with n show "bit d n = bit (pack (\<lambda>n. n) 0 (lsb_first d) :: u8) n"
    by (simp add: lsb_first_nth)
qed

lemma crc16_shift_unit: "n < 16 \<Longrightarrow> (crc16_shift ^^ n) (2 ^ (15 - n)) = 2 ^ 15"
proof (induction n)
  case (Suc n)
  then have e: "Suc (15 - Suc n) = 15 - n" by simp
  have "\<not> bit (2 ^ (15 - Suc n) :: u16) 15" using Suc.prems by (simp add: bit_simps)
  then have "crc16_shift (2 ^ (15 - Suc n)) = push_bit 1 (2 ^ (15 - Suc n))"
    by (simp add: crc16_shift_alt)
  also have "\<dots> = 2 ^ (15 - n)"
    by (simp only: push_bit_eq_mult power_one_right power_Suc [symmetric] mult.commute e)
  finally show ?case using Suc by (simp only: funpow_Suc_right comp_apply)
qed simp

lemma crc8_shift_unit: "n < 8 \<Longrightarrow> (crc8_shift ^^ n) (2 ^ n) = 1"
proof (induction n)
  case (Suc n)
  then have "crc8_shift (2 ^ Suc n) = drop_bit 1 (2 ^ Suc n)"
    by (simp add: crc8_shift_alt bit_simps)
  also have "\<dots> = 2 ^ n"
    by (rule bit_word_eqI) (use Suc.prems in \<open>auto simp: bit_simps\<close>)
  finally show ?case using Suc by (simp only: funpow_Suc_right comp_apply)
qed simp

lemma crc16_shift_0_iff: "crc16_shift c = 0 \<Longrightarrow> c = 0"
proof -
  assume z: "crc16_shift c = 0"
  have "bit (crc16_shift c) 0 \<longleftrightarrow> bit c 15"
    by (simp only: crc16_shift_alt bit_xor_iff bit_push_bit_iff) simp
  with z have no15: "\<not> bit c 15" by simp
  show "c = 0"
  proof (rule bit_word_eqI)
    fix n assume "n < LENGTH(16)"
    then have "n < 15 \<or> n = 15" by auto
    moreover have "bit (crc16_shift c) (Suc n) \<longleftrightarrow> bit c n" if "n < 15"
      using no15 that by (simp only: crc16_shift_alt bit_xor_iff bit_push_bit_iff) simp
    ultimately show "bit c n = bit (0 :: u16) n" using z no15 by auto
  qed
qed

lemma crc8_shift_0_iff: "crc8_shift c = 0 \<Longrightarrow> c = 0"
proof -
  assume z: "crc8_shift c = 0"
  have "bit (crc8_shift c) 7 \<longleftrightarrow> bit c 0"
    by (auto simp: crc8_shift_alt bit_simps no_bit_u8)
  with z have no0: "\<not> bit c 0" by simp
  show "c = 0"
  proof (rule bit_word_eqI)
    fix n assume "n < LENGTH(8)"
    have "bit (crc8_shift c) m \<longleftrightarrow> bit c (Suc m)" for m
      using no0 by (simp add: crc8_shift_alt bit_drop_bit_eq)
    with z no0 show "bit c n = bit (0 :: u8) n" by (cases n) auto
  qed
qed

interpretation crc16: crc_register crc16_shift crc16_pos msb_first crc16_byte
proof unfold_locales
  fix a b :: u16
  show "crc16_shift (a XOR b) = crc16_shift a XOR crc16_shift b"
    unfolding crc16_shift_alt push_bit_xor bit_xor_iff by (rule feedback_xor)
  show "inj_on crc16_pos {0 ..< LENGTH(16)}" by (auto simp: inj_on_def)
  show "d = e" if "msb_first d = msb_first e" for d e
    using that by (simp add: msb_first_rev lsb_first_inj)
  show "(crc16_shift ^^ n) (2 ^ (15 - n)) = 2 ^ (15 - 0)" if "n < LENGTH(16)" for n
    using that crc16_shift_unit [of n] by simp
qed (auto simp: crc16_byte_def crc16_pack intro: crc16_shift_0_iff)

interpretation crc8: crc_register crc8_shift "\<lambda>n. n" lsb_first crc8_byte
proof unfold_locales
  fix a b :: u8
  show "crc8_shift (a XOR b) = crc8_shift a XOR crc8_shift b"
    unfolding crc8_shift_alt drop_bit_xor bit_xor_iff by (rule feedback_xor)
  show "(crc8_shift ^^ n) (2 ^ n) = 2 ^ 0" if "n < LENGTH(8)" for n
    using that crc8_shift_unit [of n] by simp
  show "crc8_byte c d = (crc8_shift ^^ 8) (c XOR pack (\<lambda>n. n) 0 (lsb_first d))" for c d
    by (simp only: crc8_byte_def flip: crc8_pack)
qed (auto intro: crc8_shift_0_iff lsb_first_inj)

lemma crc16_xmodem_fold: "crc16_xmodem data len =
  (if unat len \<le> length data then Some (foldl crc16_byte 0 (take (unat len) data)) else None)"
  by (simp add: crc16_xmodem_def byte_loop_fold)
lemma crc8_maxim_fold: "crc8_maxim data len =
  (if unat len \<le> length data then Some (foldl crc8_byte 0 (take (unat len) data)) else None)"
  by (simp add: crc8_maxim_def byte_loop_fold)


lemma crc16_xmodem_all: "length data < 2 ^ 64 \<Longrightarrow> crc16_xmodem data (vec_size data) = Some (foldl crc16_byte 0 data)"
  by (simp add: crc16_xmodem_def byte_loop_all)

lemma crc8_maxim_all: "length data < 2 ^ 64 \<Longrightarrow> crc8_maxim data (vec_size data) = Some (foldl crc8_byte 0 data)"
  by (simp add: crc8_maxim_def byte_loop_all)

section \<open>Polynomials over the two-element field\<close>

text \<open>
  The reference for the CRC: a bit string is a polynomial (first bit = highest power),
  held as the integer with those binary digits; \<open>clmul q p\<close> is the product of the
  polynomials \<open>q\<close> and \<open>p\<close> (carry-less multiplication) and \<open>XOR\<close> is their sum.
\<close>

fun clmul :: "bool list \<Rightarrow> int \<Rightarrow> int" where
  "clmul [] p = 0"
| "clmul (b # q) p = (if b then push_bit (length q) p else 0) XOR clmul q p"

definition poly_of :: "bool list \<Rightarrow> int" where
  "poly_of u = foldl (\<lambda>n b. 2 * n + of_bool b) 0 u"

lemma double_xor: "2 * (x XOR y) = 2 * x XOR 2 * (y :: int)"
  by (rule bit_eqI) (auto simp: bit_double_iff bit_xor_iff)

lemma clmul_snoc: "clmul (q @ [b]) p = 2 * clmul q p XOR (if b then p else 0)"
  by (induction q) (auto simp: push_bit_Suc push_bit_double double_xor ac_simps)

lemma uint_shift1: "uint (push_bit 1 (r :: u16)) = 2 * uint r XOR (if bit r 15 then 2 ^ 16 else 0)"
proof (rule bit_eqI)
  fix n
  obtain K :: int where K: "K = 2 ^ 16" by blast
  have bK: "bit K m \<longleftrightarrow> m = 16" for m
    unfolding K bit_exp_iff by auto
  have top: "bit r m \<Longrightarrow> m < 16" for m by (auto dest: bit_imp_le_length)
  have d: "bit (2 * uint r) n \<longleftrightarrow> n \<noteq> 0 \<and> bit r (n - 1)"
    using top by (auto simp: bit_double_iff bit_uint_iff) 
  have "bit (uint (push_bit 1 r)) n \<longleftrightarrow> n \<noteq> 0 \<and> n < 16 \<and> bit r (n - 1)"
    by (simp only: bit_uint_iff bit_push_bit_iff) auto
  moreover have "n < 16 \<or> n = 16 \<or> \<not> bit r (n - 1)"
    using top [of "n - 1"] by auto
  ultimately show "bit (uint (push_bit 1 r)) n = bit (2 * uint r XOR (if bit r 15 then 2 ^ 16 else 0)) n"
    unfolding K [symmetric] bit_xor_iff d by (auto simp: bK)
qed

lemma double_plus_bit: "2 * k + of_bool b = 2 * k XOR of_bool b" for k :: int
proof (rule disjunctive_add_eq_xor)
  show "2 * k AND of_bool b = 0"
    by (rule bit_eqI) (auto simp: bit_and_iff bit_double_iff bit_of_bool_iff)
qed

lemma xor_regroup: "((x XOR (if s then A else 0)) XOR (if s then B else 0)) XOR y = (x XOR y) XOR (if s then A XOR B else 0)"
  for x y A B :: int
  by (cases s) (simp_all add: ac_simps)

lemma divide_step_int:
  "uint (crc16_shift r XOR (if b then 2 ^ crc16_pos (LENGTH(16) - 1) else 0)) =
   (2 * uint r + of_bool b) XOR (if bit r 15 then 0x11021 else 0)"
proof -
  have p: "(0x11021::int) = 2 ^ 16 XOR 0x1021" by simp
  have u: "uint (if bit r 15 then 0x1021 else (0::u16)) = (if bit r 15 then 0x1021 else 0)" by simp
  have f: "uint (if b then 2 ^ crc16_pos (LENGTH(16) - 1) else (0::u16)) = of_bool b" by simp
  show ?thesis
    unfolding double_plus_bit p crc16_shift_alt uint_xor uint_shift1 u f by (rule xor_regroup)
qed

lemma long_division:
  "\<exists>q. length q = length u \<and> poly_of u = clmul q 0x11021 XOR uint (foldl crc16.divide_step 0 u)"
proof (induction u rule: rev_induct)
  case Nil
  then show ?case by (simp add: poly_of_def)
next
  case (snoc b u)
  define r where "r = foldl crc16.divide_step 0 u"
  from snoc obtain q where q: "length q = length u" "poly_of u = clmul q 0x11021 XOR uint r"
    by (auto simp: r_def)
  have ob: "2 * (x XOR y) + of_bool b = 2 * x XOR (2 * y + of_bool b)" for x y :: int
    by (metis double_plus_bit double_xor xor.assoc)
  have "poly_of (u @ [b]) = 2 * clmul q 0x11021 XOR (2 * uint r + of_bool b)"
    using q by (simp add: poly_of_def ob)
  also have "\<dots> = clmul (q @ [bit r 15]) 0x11021 XOR uint (crc16.divide_step r b)"
    unfolding clmul_snoc divide_step_int by (simp add: ac_simps)
  finally show ?case
    using q(1) by (intro exI [of _ "q @ [bit r 15]"]) (simp add: r_def)
qed

lemma funpow_8: "(f ^^ 8) x = f (f (f (f (f (f (f (f x)))))))"
  by (simp add: numeral_eq_Suc)

lemma pack_be16: "pack crc16_pos 0 (concat (map msb_first (be16_bytes c))) = c"
proof (rule bit_word_eqI)
  fix n assume "n < LENGTH(16)"
  define i where "i = 15 - n"
  let ?u = "concat (map msb_first (be16_bytes c))"
  have i: "i < 16" "n = 15 - i" using \<open>n < LENGTH(16)\<close> by (auto simp: i_def)
  have "bit (pack crc16_pos 0 ?u :: u16) (15 - (0 + i)) = ?u ! i"
    by (rule bit_pack) (use i in \<open>auto simp: inj_on_def be16_bytes_def\<close>)
  also have "?u ! i = bit c (15 - i)"
    using i by (auto simp: be16_bytes_def nth_append msb_first_nth bit_simps)
  finally show "bit (pack crc16_pos 0 ?u :: u16) n = bit c n" using i by simp
qed

lemma crc16_residue: "foldl crc16_byte c (be16_bytes c) = 0"
proof -
  have "length (concat (map msb_first (be16_bytes c))) = LENGTH(16)"
    by (simp add: be16_bytes_def)
  then show ?thesis
    unfolding crc16.foldl_byte_serial by (rule crc16.residue) (rule pack_be16)
qed

lemma crc8_residue: "crc8_byte c c = 0"
  by (simp add: crc8_byte_def)

lemma same_frame_lengths:
  assumes "length xs = length ys"
    and "concat (map f xs) = pre @ u @ post" and "concat (map f ys) = pre @ v @ post"
    and "\<And>d. length (f d) = n"
  shows "length u = length v"
proof -
  have "length (concat (map f zs)) = n * length zs" for zs
    using assms(4) by (induction zs) auto
  then show ?thesis using assms(1,2,3) by (metis add_left_cancel add_right_cancel length_append)
qed

lemma unat_u8_less: "unat (c :: u8) < 256"
  using unsigned_less [of c, where 'a = nat] by simp

lemma sum_fold: "unat (foldl (\<lambda>sum d. sum + d) c ds) = (unat c + sum_list (map unat ds)) mod 256" for c :: u8
  by (induction ds arbitrary: c) (simp_all add: unat_word_ariths mod_simps ac_simps unat_u8_less)

lemma unat_not_u8: "unat (NOT (w :: u8)) = 255 - unat w"
proof -
  have "NOT w = 255 - w" by (simp add: not_eq_complement)
  moreover have "w \<le> 255" using unat_u8_less [of w] by (simp add: word_le_nat_alt)
  ultimately show ?thesis by (simp add: unat_sub)
qed

section \<open>Properties\<close>

text \<open>
  The catalogue check values of both CRCs: over the nine bytes of the text 123456789,
  CRC-16/XMODEM is 0x31C3 and CRC-8/MAXIM-DOW is 0xA1. A length past the end of the data
  reads out of bounds.
\<close>

theorem crc_check_values:
  "crc16_xmodem [0x31, 0x32, 0x33, 0x34, 0x35, 0x36, 0x37, 0x38, 0x39] 9 = Some 0x31C3
   \<and> crc8_maxim [0x31, 0x32, 0x33, 0x34, 0x35, 0x36, 0x37, 0x38, 0x39] 9 = Some 0xA1
   \<and> (crc16_xmodem data len = None \<longleftrightarrow> length data < unat len)
   \<and> (crc8_maxim data len = None \<longleftrightarrow> length data < unat len)"
  by (simp add: crc16_xmodem_fold crc8_maxim_fold crc16_byte_def crc8_byte_def crc16_shift_def crc8_shift_def
      funpow_8)

text \<open>
  C34. \<open>crc16_xmodem\<close> computes the remainder of a polynomial division: with the message
  read as a polynomial \<open>M(x)\<close>, \<open>M(x) x^16\<close> is a multiple of the generator
  \<open>x^16 + x^12 + x^5 + 1\<close> (0x11021) plus the returned checksum, which has degree below 16.
\<close>

theorem crc16_is_polynomial_remainder:
  assumes "length data < 2 ^ 64"
  shows "\<exists>q crc. crc16_xmodem data (vec_size data) = Some crc
    \<and> poly_of (concat (map msb_first data) @ replicate 16 False) = clmul q 0x11021 XOR uint crc"
proof -
  let ?u = "concat (map msb_first data) @ replicate 16 False"
  have "foldl crc16_byte 0 data = foldl crc16.divide_step 0 ?u"
    unfolding crc16.foldl_byte_serial crc16.remainder_serial by simp
  moreover obtain q where "poly_of ?u = clmul q 0x11021 XOR uint (foldl crc16.divide_step 0 ?u)"
    using long_division by blast
  ultimately show ?thesis
    using crc16_xmodem_all [OF assms] by auto
qed

theorem crc16_is_polynomial_remainder_witness:
  "\<exists>q crc. crc16_xmodem [0x12, 0x34] (vec_size [0x12, 0x34 :: u8]) = Some crc
    \<and> poly_of (concat (map msb_first [0x12, 0x34]) @ replicate 16 False) = clmul q 0x11021 XOR uint crc"
  by (rule crc16_is_polynomial_remainder) simp

text \<open>
  C35. \<open>crc16_xmodem\<close> detects every error burst of at most 16 bits: two messages of the same
  length whose bits (in transmission order) agree outside a window of at most 16 bits have
  the same checksum only if they are equal.
\<close>

theorem crc16_detects_bursts:
  assumes "length xs = length ys" and "length xs < 2 ^ 64"
    and "concat (map msb_first xs) = pre @ u @ post"
    and "concat (map msb_first ys) = pre @ v @ post"
    and "length u \<le> 16"
  shows "crc16_xmodem xs (vec_size xs) = crc16_xmodem ys (vec_size ys) \<longleftrightarrow> xs = ys"
proof
  assume "crc16_xmodem xs (vec_size xs) = crc16_xmodem ys (vec_size ys)"
  then have "foldl crc16_byte 0 xs = foldl crc16_byte 0 ys"
    using assms(1,2) by (simp add: crc16_xmodem_all)
  moreover have "length u = length v"
    using same_frame_lengths [OF assms(1,3,4)] by simp
  ultimately have "u = v"
    unfolding crc16.foldl_byte_serial assms(3,4) using assms(5) by (intro crc16.burst_detected) auto
  with assms show "xs = ys" by (intro crc16.concat_bits_inj) auto
qed simp

theorem crc16_detects_bursts_witness:
  "crc16_xmodem [0x12, 0x34] (vec_size [0x12, 0x34 :: u8]) \<noteq> crc16_xmodem [0x92, 0x35] (vec_size [0x92, 0x35 :: u8])"
  using crc16_detects_bursts [of "[0x12, 0x34]" "[0x92, 0x35]" "[]" "concat (map msb_first [0x12, 0x34])" "[]"
      "concat (map msb_first [0x92, 0x35])"]
  by simp

text \<open>
  \<open>crc8_maxim\<close> detects every error burst of at most 8 bits, in the order in which the
  reflected register takes the bits (least significant bit of each byte first).
\<close>

theorem crc8_detects_bursts:
  assumes "length xs = length ys" and "length xs < 2 ^ 64"
    and "concat (map lsb_first xs) = pre @ u @ post"
    and "concat (map lsb_first ys) = pre @ v @ post"
    and "length u \<le> 8"
  shows "crc8_maxim xs (vec_size xs) = crc8_maxim ys (vec_size ys) \<longleftrightarrow> xs = ys"
proof
  assume "crc8_maxim xs (vec_size xs) = crc8_maxim ys (vec_size ys)"
  then have "foldl crc8_byte 0 xs = foldl crc8_byte 0 ys"
    using assms(1,2) by (simp add: crc8_maxim_all)
  moreover have "length u = length v"
    using same_frame_lengths [OF assms(1,3,4)] by simp
  ultimately have "u = v"
    unfolding crc8.foldl_byte_serial assms(3,4) using assms(5) by (intro crc8.burst_detected) auto
  with assms show "xs = ys" by (intro crc8.concat_bits_inj) auto
qed simp

theorem crc8_detects_bursts_witness:
  "crc8_maxim [0x12, 0x34] (vec_size [0x12, 0x34 :: u8]) \<noteq> crc8_maxim [0x12, 0xB5] (vec_size [0x12, 0xB5 :: u8])"
  using crc8_detects_bursts [of "[0x12, 0x34]" "[0x12, 0xB5]" "lsb_first 0x12" "lsb_first 0x34" "[]" "lsb_first 0xB5"]
  by simp

text \<open>
  A frame that carries its checksum checks to zero: appending the CRC-16 in network
  order, as \<open>store_be16\<close> writes it, makes \<open>crc16_xmodem\<close> of the whole frame 0, and
  appending the CRC-8 byte makes \<open>crc8_maxim\<close> of the frame 0.
\<close>

theorem crc_of_sealed_frame:
  assumes "length data + 2 < 2 ^ 64"
    and "crc16_xmodem data (vec_size data) = Some crcw" and "store_be16 [x, y] crcw = Some trailer"
    and "crc8_maxim data (vec_size data) = Some crcb"
  shows "crc16_xmodem (data @ trailer) (vec_size (data @ trailer)) = Some 0
    \<and> crc8_maxim (data @ [crcb]) (vec_size (data @ [crcb])) = Some 0"
proof -
  have "trailer = be16_bytes crcw" using assms(3) by (simp add: be16.store_eq)
  moreover have "crcw = foldl crc16_byte 0 data" and "crcb = foldl crc8_byte 0 data"
    using assms(1,2,4) by (simp_all add: crc16_xmodem_all crc8_maxim_all)
  ultimately show ?thesis
    using assms(1) by (simp add: crc16_xmodem_all crc8_maxim_all be16.length_bytes crc16_residue crc8_residue)
qed

theorem crc_of_sealed_frame_witness:
  "crc16_xmodem ([0x31] @ [0x26, 0x72]) (vec_size ([0x31] @ [0x26, 0x72 :: u8])) = Some 0
    \<and> crc8_maxim ([0x31] @ [0xe0]) (vec_size ([0x31] @ [0xe0 :: u8])) = Some 0"
  by (rule crc_of_sealed_frame [where x = 1 and y = 1 and crcw = "0x2672"])
    (simp_all add: crc16_xmodem_all crc8_maxim_all crc16_byte_def crc16_shift_def crc8_byte_def crc8_shift_def
      funpow_8 be16.store_eq be16_bytes_def)

text \<open>
  \<open>checksum_inverted_sum\<close> is 255 minus the byte sum modulo 256, so that the bytes of a
  frame and its checksum always add up to 255; the additive loop never overflows into
  anything but the intended wrap-around, and an overlong \<open>len\<close> is an out-of-bounds read.
\<close>

theorem checksum_inverted_sum_value:
  "map_option unat (checksum_inverted_sum data len) =
     (if unat len \<le> length data then Some (255 - sum_list (map unat (take (unat len) data)) mod 256) else None)"
  by (simp add: checksum_inverted_sum_def byte_loop_fold unat_not_u8 sum_fold)

end
