(* ===== verification/Ring_Buffer.thy ===== *)
theory Ring_Buffer
  imports Prelude "HOL-Library.Monad_Syntax"
begin

text \<open>
  The general-purpose ring of \<open>container/ring_buffer.hpp\<close>: \<open>RingBuffer<T, N>\<close>, its
  free-running indices and its two overflow policies.

  Every operation takes the mutex for its whole body, so an operation is one transition of
  the state; \<open>None\<close> is an access outside an array. The element type is the type variable,
  the template parameter \<open>N\<close> an argument where the code uses it. A \<open>std::vector&\<close> that
  an operation fills is passed in and returned.

  \<open>contents\<close> reads the ring as a list, oldest element first. The last section states what
  the class promises as an abstract machine on lists, \<open>queue_spec\<close>, and shows that every
  sequence of operations refines it.
\<close>

section \<open>State and operations\<close>

record 'a ring_buffer =
  buffer :: "'a list"
  size_mask :: u64
  write_index :: u64
  read_index :: u64
  enable_overwrite :: bool

text \<open>
  The constructor. The \<open>static_assert\<close> rejects other sizes at compile time; the elements of
  the array are default-initialised, so their values (\<open>init\<close>) are arbitrary.
\<close>

definition RingBuffer :: "u64 \<Rightarrow> 'a list \<Rightarrow> bool \<Rightarrow> 'a ring_buffer option" where
  "RingBuffer N init overwrite =
     (if is_pow2 N \<and> length init = unat N
      then Some \<lparr>buffer = init, size_mask = N - 1, write_index = 0, read_index = 0,
                 enable_overwrite = overwrite\<rparr>
      else None)"

definition Reset :: "'a ring_buffer \<Rightarrow> 'a ring_buffer" where
  "Reset rb = rb\<lparr>write_index := 0, read_index := 0\<rparr>"

definition IsEmpty :: "'a ring_buffer \<Rightarrow> bool" where
  "IsEmpty rb \<longleftrightarrow> read_index rb = write_index rb"

definition IsFull :: "'a ring_buffer \<Rightarrow> bool" where
  "IsFull rb \<longleftrightarrow> (write_index rb + 1) AND size_mask rb = read_index rb AND size_mask rb"

definition GetFreeSize :: "u64 \<Rightarrow> 'a ring_buffer \<Rightarrow> u64" where
  "GetFreeSize N rb = N - 1 - ((write_index rb - read_index rb) AND size_mask rb)"

definition GetOccupiedSize :: "'a ring_buffer \<Rightarrow> u64" where
  "GetOccupiedSize rb = (write_index rb - read_index rb) AND size_mask rb"

definition GetBuffer :: "'a ring_buffer \<Rightarrow> 'a list" where
  "GetBuffer rb = buffer rb"

text \<open>\<open>data[i] = buffer_[read_index_++ & size_mask_]\<close>\<close>

definition take_slot :: "'a ring_buffer \<Rightarrow> 'a list \<Rightarrow> u64 \<Rightarrow> ('a list \<times> 'a ring_buffer) option" where
  "take_slot rb data i = do {
     x \<leftarrow> arr_get (buffer rb) (read_index rb AND size_mask rb);
     data' \<leftarrow> arr_set data i x;
     Some (data', rb\<lparr>read_index := read_index rb + 1\<rparr>)
   }"

function read_loop :: "'a ring_buffer \<Rightarrow> 'a list \<Rightarrow> u64 \<Rightarrow> u64 \<Rightarrow> (u64 \<times> 'a list \<times> 'a ring_buffer) option" where
  "read_loop rb data btr i =
     (if i < btr then
        if read_index rb = write_index rb then Some (i, data, rb)
        else case take_slot rb data i of
            None \<Rightarrow> None
          | Some (data', rb') \<Rightarrow> read_loop rb' data' btr (i + 1)
      else Some (btr, data, rb))"
  by pat_completeness auto
termination
  by (relation "measure (\<lambda>(rb, data, btr, i). unat btr - unat i)")
    (auto simp: unat_Suc_less unat_less_iff diff_less_mono2)

declare read_loop.simps [simp del]

definition Read_burst :: "'a ring_buffer \<Rightarrow> 'a list \<Rightarrow> u64 \<Rightarrow> (u64 \<times> 'a list \<times> 'a ring_buffer) option" where
  "Read_burst rb data btr =
     (let btr = (if vec_size data < btr then vec_size data else btr) in read_loop rb data btr 0)"

function peek_loop :: "'a ring_buffer \<Rightarrow> 'a list \<Rightarrow> u64 \<Rightarrow> u64 \<Rightarrow> 'a list option" where
  "peek_loop rb data n i =
     (if i < n then
        case arr_get (buffer rb) ((read_index rb + i) AND size_mask rb) of
          None \<Rightarrow> None
        | Some x \<Rightarrow> (case arr_set data i x of
            None \<Rightarrow> None
          | Some data' \<Rightarrow> peek_loop rb data' n (i + 1))
      else Some data)"
  by pat_completeness auto
termination
  by (relation "measure (\<lambda>(rb, data, n, i). unat n - unat i)")
    (auto simp: unat_Suc_less unat_less_iff diff_less_mono2)

declare peek_loop.simps [simp del]

definition Peek :: "'a ring_buffer \<Rightarrow> 'a list \<Rightarrow> u64 \<Rightarrow> (u64 \<times> 'a list) option" where
  "Peek rb data btp =
     (let available = (write_index rb - read_index rb) AND size_mask rb;
          n = min btp (min (vec_size data) available)
      in map_option (\<lambda>data'. (n, data')) (peek_loop rb data n 0))"

text \<open>\<open>buffer_[(write_index_++) & size_mask_] = new_data[i]\<close>\<close>

definition put_slot :: "'a ring_buffer \<Rightarrow> 'a \<Rightarrow> 'a ring_buffer option" where
  "put_slot rb x = do {
     buf \<leftarrow> arr_set (buffer rb) (write_index rb AND size_mask rb) x;
     Some (rb\<lparr>buffer := buf, write_index := write_index rb + 1\<rparr>)
   }"

function write_loop :: "'a ring_buffer \<Rightarrow> 'a list \<Rightarrow> u64 \<Rightarrow> u64 \<Rightarrow> (u64 \<times> 'a ring_buffer) option" where
  "write_loop rb new_data btw i =
     (if i < btw then
        if (write_index rb + 1) AND size_mask rb = read_index rb AND size_mask rb \<and> \<not> enable_overwrite rb
        then Some (i, rb)
        else
          let rb = (if (write_index rb + 1) AND size_mask rb = read_index rb AND size_mask rb
                    then rb\<lparr>read_index := read_index rb + 1\<rparr> else rb)
          in case arr_get new_data i of
               None \<Rightarrow> None
             | Some x \<Rightarrow> (case put_slot rb x of
                 None \<Rightarrow> None
               | Some rb' \<Rightarrow> write_loop rb' new_data btw (i + 1))
      else Some (btw, rb))"
  by pat_completeness auto
termination
  by (relation "measure (\<lambda>(rb, data, n, i). unat n - unat i)")
    (auto simp: unat_Suc_less unat_less_iff diff_less_mono2)

declare write_loop.simps [simp del]

definition Write_burst :: "'a ring_buffer \<Rightarrow> 'a list \<Rightarrow> u64 \<Rightarrow> (u64 \<times> 'a ring_buffer) option" where
  "Write_burst rb new_data btw =
     (let btw = (if vec_size new_data < btw then vec_size new_data else btw) in write_loop rb new_data btw 0)"

definition Read :: "'a ring_buffer \<Rightarrow> 'a \<Rightarrow> (u64 \<times> 'a \<times> 'a ring_buffer) option" where
  "Read rb data =
     (if read_index rb = write_index rb then Some (0, data, rb)
      else do {
        x \<leftarrow> arr_get (buffer rb) (read_index rb AND size_mask rb);
        Some (1, x, rb\<lparr>read_index := read_index rb + 1\<rparr>)
      })"

definition PeekAt :: "'a ring_buffer \<Rightarrow> 'a \<Rightarrow> u64 \<Rightarrow> (u64 \<times> 'a) option" where
  "PeekAt rb data n =
     (if (write_index rb - read_index rb) AND size_mask rb \<le> n then Some (0, data)
      else do {
        x \<leftarrow> arr_get (buffer rb) ((read_index rb + n) AND size_mask rb);
        Some (1, x)
      })"

definition Write :: "'a ring_buffer \<Rightarrow> 'a \<Rightarrow> (u64 \<times> 'a ring_buffer) option" where
  "Write rb x =
     (if (write_index rb + 1) AND size_mask rb = read_index rb AND size_mask rb then
        if \<not> enable_overwrite rb then Some (0, rb)
        else do {
          rb' \<leftarrow> put_slot (rb\<lparr>read_index := read_index rb + 1\<rparr>) x;
          Some (1, rb')
        }
      else do {
        rb' \<leftarrow> put_slot rb x;
        Some (1, rb')
      })"

section \<open>Invariant and abstraction\<close>

text \<open>
  The indices run freely and wrap at \<open>2 ^ 64\<close>; what stays true is that the write index is
  never more than \<open>N - 1\<close> ahead of the read index.
\<close>

definition rb_inv :: "u64 \<Rightarrow> 'a ring_buffer \<Rightarrow> bool" where
  "rb_inv N rb \<longleftrightarrow> is_pow2 N \<and> length (buffer rb) = unat N \<and> size_mask rb = N - 1
     \<and> write_index rb - read_index rb \<le> N - 1"

definition contents :: "'a ring_buffer \<Rightarrow> 'a list" where
  "contents rb = map (\<lambda>i. buffer rb ! unat ((read_index rb + of_nat i) AND size_mask rb))
     [0 ..< unat (write_index rb - read_index rb)]"

text \<open>The same in natural numbers: capacity \<open>2 ^ k\<close>, occupancy \<open>L\<close>.\<close>

definition shape :: "nat \<Rightarrow> nat \<Rightarrow> 'a ring_buffer \<Rightarrow> bool" where
  "shape k L rb \<longleftrightarrow> k < 64 \<and> L < 2 ^ k \<and> length (buffer rb) = 2 ^ k \<and> size_mask rb = 2 ^ k - 1
     \<and> write_index rb = read_index rb + of_nat L"

lemma pow2_le: "k < 64 \<Longrightarrow> (2::nat) ^ k \<le> 2 ^ 63"
  by (rule power_increasing) auto

lemma pow2_nonzero: "k < 64 \<Longrightarrow> (2 ^ k :: u64) \<noteq> 0"
  using unat_pow2 [of k] by (metis power_not_zero unsigned_0 zero_neq_numeral)

lemma small_of_nat: "k < 64 \<Longrightarrow> L < 2 ^ k \<Longrightarrow> unat (of_nat L :: u64) = L"
  using pow2_le [of k] by (intro unat_of_nat_small) simp

lemma shape_inv: "shape k L rb \<Longrightarrow> rb_inv (2 ^ k) rb"
  by (auto simp: shape_def rb_inv_def is_pow2_power unat_pow2 word_le_nat_alt small_of_nat unat_minus_one)

lemma inv_shape:
  assumes "rb_inv N rb"
  obtains k where "N = 2 ^ k" and "shape k (unat (write_index rb - read_index rb)) rb"
proof -
  from assms obtain k where k: "k < 64" "N = 2 ^ k" by (auto simp: rb_inv_def is_pow2_iff)
  then have "unat (N - 1) = 2 ^ k - 1" by (simp add: unat_minus_one unat_pow2)
  with assms have "unat (write_index rb - read_index rb) \<le> 2 ^ k - 1"
    by (simp add: rb_inv_def word_le_nat_alt)
  then have "unat (write_index rb - read_index rb) < 2 ^ k"
    by (metis One_nat_def Suc_pred le_imp_less_Suc zero_less_numeral zero_less_power)
  then have "shape k (unat (write_index rb - read_index rb)) rb"
    using assms k by (auto simp: shape_def rb_inv_def unat_pow2)
  with k that show ?thesis by blast
qed

lemma shape_occupancy: "shape k L rb \<Longrightarrow> unat (write_index rb - read_index rb) = L"
  using small_of_nat by (auto simp: shape_def)

lemma shape_contents:
  assumes "shape k L rb"
  shows "contents rb = window (2 ^ k) (buffer rb) (unat (read_index rb)) L"
  unfolding contents_def window_def shape_occupancy [OF assms]
  by (rule map_cong) (use assms in \<open>auto simp: shape_def unat_slot_add\<close>)

lemma unat_next_mod: "k < 64 \<Longrightarrow> unat (r + 1 :: u64) mod 2 ^ k = Suc (unat r) mod 2 ^ k"
  using unat_slot [of k "r + of_nat 1"] unat_slot_add [of k r 1] by simp

lemma length_contents: "shape k L rb \<Longrightarrow> length (contents rb) = L"
  by (simp add: shape_contents)

section \<open>Single transfers on the window\<close>

lemma shape_occupied [slot_simps]:
  assumes "shape k L rb"
  shows "(write_index rb - read_index rb) AND size_mask rb = of_nat L"
proof -
  have k: "k < 64" and L: "L < 2 ^ k" and m: "size_mask rb = 2 ^ k - 1"
    and d: "write_index rb - read_index rb = of_nat L"
    using assms by (auto simp: shape_def)
  have "unat ((of_nat L :: u64) AND (2 ^ k - 1)) = unat (of_nat L :: u64)"
    using L small_of_nat [OF k L] by (simp only: unat_slot_of_nat [OF k] mod_less)
  then show ?thesis by (simp only: d m word_unat_eq_iff)
qed

lemma shape_empty [slot_simps]:
  assumes "shape k L rb"
  shows "read_index rb = write_index rb \<longleftrightarrow> L = 0"
proof -
  have "unat (write_index rb - read_index rb) = L" by (rule shape_occupancy [OF assms])
  then show ?thesis using assms by (auto simp: shape_def)
qed

lemma shape_full [slot_simps]:
  assumes "shape k L rb"
  shows "(write_index rb + 1) AND size_mask rb = read_index rb AND size_mask rb \<longleftrightarrow> Suc L = 2 ^ k"
proof -
  have k: "k < 64" and L: "L < 2 ^ k" using assms by (auto simp: shape_def)
  have w: "write_index rb + 1 = read_index rb + of_nat (Suc L)"
    using assms by (simp add: shape_def)
  have m: "size_mask rb = 2 ^ k - 1" using assms by (simp add: shape_def)
  have "(write_index rb + 1) AND size_mask rb = read_index rb AND size_mask rb
      \<longleftrightarrow> (unat (read_index rb) + Suc L) mod 2 ^ k = unat (read_index rb) mod 2 ^ k"
    by (simp only: w m word_unat_eq_iff unat_slot_add [OF k] unat_slot [OF k, of "read_index rb"])
  also have "\<dots> \<longleftrightarrow> 2 ^ k dvd Suc L"
    using mod_eq_dvd_iff_nat [of "unat (read_index rb)" "unat (read_index rb) + Suc L" "2 ^ k"]
    by (simp del: add_Suc_right)
  also have "\<dots> \<longleftrightarrow> Suc L = 2 ^ k"
    using L by (auto dest: dvd_imp_le)
  finally show ?thesis .
qed

lemma shape_get:
  assumes "shape k (Suc L) rb"
  shows "arr_get (buffer rb) (read_index rb AND size_mask rb) = Some (hd (contents rb))"
    and "shape k L (rb\<lparr>read_index := read_index rb + 1\<rparr>)"
    and "contents (rb\<lparr>read_index := read_index rb + 1\<rparr>) = tl (contents rb)"
proof -
  have k: "k < 64" using assms by (simp add: shape_def)
  show s: "shape k L (rb\<lparr>read_index := read_index rb + 1\<rparr>)"
    using assms by (auto simp: shape_def)
  have "unat (read_index rb AND size_mask rb) = unat (read_index rb) mod 2 ^ k"
    using assms k by (simp add: shape_def unat_slot)
  then show "arr_get (buffer rb) (read_index rb AND size_mask rb) = Some (hd (contents rb))"
    using assms by (simp add: arr_get_def shape_contents window_Suc) (simp add: shape_def)
  have "contents (rb\<lparr>read_index := read_index rb + 1\<rparr>) = window (2 ^ k) (buffer rb) (unat (read_index rb + 1)) L"
    using shape_contents [OF s] by simp
  also have "\<dots> = window (2 ^ k) (buffer rb) (Suc (unat (read_index rb))) L"
    by (rule window_mod) (rule unat_next_mod [OF k])
  finally show "contents (rb\<lparr>read_index := read_index rb + 1\<rparr>) = tl (contents rb)"
    by (simp add: shape_contents [OF assms] window_Suc)
qed

text \<open>
  A store one past the window. When the ring is full the code first moves the read index,
  which drops the oldest element of the window after the store.
\<close>

lemma shape_put:
  assumes "shape k L rb" and "Suc L < 2 ^ k"
  obtains rb' where "put_slot rb x = Some rb'" and "shape k (Suc L) rb'"
    and "contents rb' = contents rb @ [x]" and "enable_overwrite rb' = enable_overwrite rb"
proof -
  have k: "k < 64" using assms by (simp add: shape_def)
  let ?b = "(buffer rb)[(unat (read_index rb) + L) mod 2 ^ k := x]"
  let ?rb = "rb\<lparr>buffer := ?b, write_index := write_index rb + 1\<rparr>"
  have "unat (write_index rb AND size_mask rb) = (unat (read_index rb) + L) mod 2 ^ k"
    using assms k by (simp add: shape_def unat_slot_add)
  then have put: "put_slot rb x = Some ?rb"
    using assms(1) by (simp add: put_slot_def arr_set_def shape_def)
  have s: "shape k (Suc L) ?rb"
    using assms by (simp add: shape_def)
  have "contents ?rb = contents rb @ [x]"
    unfolding shape_contents [OF s] shape_contents [OF assms(1)]
    using assms by (simp add: window_put shape_def)
  with put s that show ?thesis by simp
qed

lemma shape_put_full:
  assumes "shape k L rb" and "Suc L = 2 ^ k"
  obtains rb' where "put_slot (rb\<lparr>read_index := read_index rb + 1\<rparr>) x = Some rb'" and "shape k L rb'"
    and "contents rb' = tl (contents rb @ [x])" and "enable_overwrite rb' = enable_overwrite rb"
proof -
  have k: "k < 64" using assms by (simp add: shape_def)
  let ?r = "unat (read_index rb)"
  let ?b = "(buffer rb)[(?r + L) mod 2 ^ k := x]"
  let ?rb = "rb\<lparr>read_index := read_index rb + 1, buffer := ?b, write_index := write_index rb + 1\<rparr>"
  have "unat (write_index rb AND size_mask rb) = (?r + L) mod 2 ^ k"
    using assms k by (simp add: shape_def unat_slot_add)
  then have put: "put_slot (rb\<lparr>read_index := read_index rb + 1\<rparr>) x = Some ?rb"
    using assms(1) by (simp add: put_slot_def arr_set_def shape_def)
  have s: "shape k L ?rb"
    using assms by (simp add: shape_def)
  have "contents ?rb = window (2 ^ k) ?b (unat (read_index rb + 1)) L"
    using shape_contents [OF s] by simp
  also have "\<dots> = window (2 ^ k) ?b (Suc ?r) L"
    by (rule window_mod) (rule unat_next_mod [OF k])
  also have "\<dots> = tl (window (2 ^ k) ?b ?r (Suc L))"
    by (simp add: window_Suc)
  also have "\<dots> = tl (contents rb @ [x])"
    unfolding shape_contents [OF assms(1)]
    by (subst window_put) (use assms(1) in \<open>auto simp: shape_def\<close>)
  finally show ?thesis using put s that by simp
qed

section \<open>The abstract queue\<close>

text \<open>
  What the class promises: a queue of at most \<open>cap = N - 1\<close> elements which, when it is
  full, either rejects a new element or drops its oldest one.
\<close>

definition keep_newest :: "nat \<Rightarrow> 'a list \<Rightarrow> 'a list" where
  "keep_newest cap q = drop (length q - cap) q"

definition push :: "nat \<Rightarrow> bool \<Rightarrow> 'a list \<Rightarrow> 'a \<Rightarrow> 'a list" where
  "push cap overwrite q x =
     (if length q < cap then q @ [x] else if overwrite then keep_newest cap (q @ [x]) else q)"

lemma length_push: "length q \<le> cap \<Longrightarrow> length (push cap overwrite q x) \<le> cap"
  by (auto simp: push_def keep_newest_def)

lemma push_overwrite: "length q \<le> cap \<Longrightarrow> push cap True q x = keep_newest cap (q @ [x])"
  by (auto simp: push_def keep_newest_def)

lemma keep_newest_absorb: "keep_newest cap (keep_newest cap a @ b) = keep_newest cap (a @ b)"
proof (cases "length a \<le> cap")
  case False
  define j where "j = length a - cap"
  have "keep_newest cap a @ b = drop j (a @ b)" using False by (simp add: keep_newest_def j_def)
  then have "keep_newest cap (keep_newest cap a @ b) = drop (length (a @ b) - j - cap + j) (a @ b)"
    by (simp only: keep_newest_def length_drop drop_drop)
  also have "length (a @ b) - j - cap + j = length (a @ b) - cap" using False by (simp add: j_def)
  finally show ?thesis by (simp only: keep_newest_def)
qed (simp add: keep_newest_def)

lemma foldl_push_overwrite:
  "length q \<le> cap \<Longrightarrow> foldl (push cap True) q xs = keep_newest cap (q @ xs)"
proof (induction xs arbitrary: q)
  case Nil
  then show ?case by (simp add: keep_newest_def)
next
  case (Cons x xs)
  then have "foldl (push cap True) q (x # xs) = keep_newest cap (push cap True q x @ xs)"
    by (simp add: length_push)
  also have "\<dots> = keep_newest cap (q @ x # xs)"
    using Cons.prems keep_newest_absorb [of cap "q @ [x]" xs] by (simp add: push_overwrite)
  finally show ?case .
qed

lemma foldl_push_reject:
  "length q \<le> cap \<Longrightarrow> foldl (push cap False) q xs = q @ take (cap - length q) xs"
proof (induction xs arbitrary: q)
  case (Cons x xs)
  show ?case
  proof (cases "length q < cap")
    case True
    then obtain n where "cap - length q = Suc n" by (metis Suc_diff_Suc)
    moreover from this have "cap - Suc (length q) = n" by simp
    ultimately show ?thesis using Cons.IH [of "q @ [x]"] True by (simp add: push_def)
  next
    case False
    with Cons show ?thesis by (simp add: push_def)
  qed
qed simp

lemma push_room: "length q < cap \<Longrightarrow> push cap overwrite q x = q @ [x]"
  by (simp add: push_def)

section \<open>Each operation on the abstraction\<close>

text \<open>The invariant as the operations use it: capacity, policy, and some occupancy.\<close>

definition ring_of :: "nat \<Rightarrow> bool \<Rightarrow> 'a ring_buffer \<Rightarrow> bool" where
  "ring_of k overwrite rb \<longleftrightarrow> shape k (length (contents rb)) rb \<and> enable_overwrite rb = overwrite"

lemma ring_ofI: "shape k L rb \<Longrightarrow> enable_overwrite rb = overwrite \<Longrightarrow> ring_of k overwrite rb"
  by (simp add: ring_of_def length_contents)

lemma ring_of_length: "ring_of k overwrite rb \<Longrightarrow> length (contents rb) \<le> 2 ^ k - 1"
  by (auto simp: ring_of_def shape_def)

lemma Write_push:
  assumes "ring_of k overwrite rb"
  shows "\<exists>rb'. Write rb x = Some (if length (contents rb) < 2 ^ k - 1 \<or> overwrite then 1 else 0, rb')
     \<and> ring_of k overwrite rb' \<and> contents rb' = push (2 ^ k - 1) overwrite (contents rb) x"
proof -
  define L where "L = length (contents rb)"
  have s: "shape k L rb" and ow: "enable_overwrite rb = overwrite"
    using assms by (auto simp: ring_of_def L_def)
  have full: "(write_index rb + 1) AND size_mask rb = read_index rb AND size_mask rb \<longleftrightarrow> Suc L = 2 ^ k"
    by (rule shape_full [OF s])
  have "L < 2 ^ k" using s by (simp add: shape_def)
  then consider "Suc L < 2 ^ k" | "Suc L = 2 ^ k" by linarith
  then show ?thesis
  proof cases
    case 1
    from shape_put [OF s 1] obtain rb' where "put_slot rb x = Some rb'" "shape k (Suc L) rb'"
      "contents rb' = contents rb @ [x]" "enable_overwrite rb' = enable_overwrite rb" by metis
    with 1 full ow show ?thesis
      by (auto simp: Write_def push_def L_def intro!: ring_ofI)
  next
    case 2
    from shape_put_full [OF s 2] obtain rb' where "put_slot (rb\<lparr>read_index := read_index rb + 1\<rparr>) x = Some rb'"
      "shape k L rb'" "contents rb' = tl (contents rb @ [x])" "enable_overwrite rb' = enable_overwrite rb" by metis
    moreover have "tl (contents rb @ [x]) = drop (Suc 0) (contents rb @ [x])"
      by (simp only: drop_Suc drop_0)
    ultimately show ?thesis using 2 full ow s
      by (auto simp: Write_def push_def keep_newest_def L_def intro!: ring_ofI)
  qed
qed

lemma Read_contents:
  assumes "ring_of k overwrite rb"
  shows "\<exists>rb'. Read rb d = Some (case contents rb of [] \<Rightarrow> (0, d, rb') | x # _ \<Rightarrow> (1, x, rb'))
     \<and> ring_of k overwrite rb' \<and> contents rb' = tl (contents rb)"
proof (cases "contents rb")
  case Nil
  with assms have "read_index rb = write_index rb" by (auto simp: ring_of_def dest: shape_empty)
  with Nil assms show ?thesis by (simp add: Read_def)
next
  case (Cons x q)
  with assms have s: "shape k (Suc (length q)) rb" by (simp add: ring_of_def)
  from shape_get [OF s] shape_empty [OF s] Cons assms show ?thesis
    by (auto simp: Read_def ring_of_def)
qed

lemma take_slot_contents:
  assumes "ring_of k overwrite rb" and "contents rb = x # q" and "unat i < length data"
  shows "\<exists>rb'. take_slot rb data i = Some (data[unat i := x], rb') \<and> ring_of k overwrite rb' \<and> contents rb' = q"
proof -
  from assms have s: "shape k (Suc (length q)) rb" by (simp add: ring_of_def)
  from shape_get [OF s] assms show ?thesis
    by (auto simp: take_slot_def ring_of_def arr_set_def)
qed

lemma read_loop_contents:
  assumes "ring_of k overwrite rb" and "i \<le> btr" and "unat btr \<le> length data"
  shows "\<exists>m rb'. m = min (unat btr - unat i) (length (contents rb))
     \<and> read_loop rb data btr i =
         Some (of_nat (unat i + m), take (unat i) data @ take m (contents rb) @ drop (unat i + m) data, rb')
     \<and> ring_of k overwrite rb' \<and> contents rb' = drop m (contents rb)"
  using assms
proof (induction rb data btr i rule: read_loop.induct)
  case (1 rb data btr i)
  show ?case
  proof (cases "i < btr")
    case False
    with "1.prems" show ?thesis by (subst read_loop.simps) (simp add: unat_less_iff)
  next
    case lt: True
    show ?thesis
    proof (cases "contents rb")
      case Nil
      with "1.prems" have "read_index rb = write_index rb" by (auto simp: ring_of_def dest: shape_empty)
      with lt Nil "1.prems"(1) show ?thesis by (subst read_loop.simps) simp
    next
      case (Cons x q)
      have i: "unat i < length data" using lt "1.prems"(3) by (simp add: unat_less_iff)
      from take_slot_contents [OF "1.prems"(1) Cons i] obtain rb1 where
        t: "take_slot rb data i = Some (data[unat i := x], rb1)" "ring_of k overwrite rb1" "contents rb1 = q"
        by blast
      have ne: "read_index rb \<noteq> write_index rb"
        using "1.prems"(1) Cons by (auto simp: ring_of_def dest: shape_empty)
      have le: "i + 1 \<le> btr" using lt by (simp add: word_le_nat_alt unat_Suc_less unat_less_iff)
      from "1.IH" [OF lt ne t(1) refl t(2) le] "1.prems"(3) obtain m rb' where
        m: "m = min (unat btr - Suc (unat i)) (length q)"
        and r: "read_loop rb1 (data[unat i := x]) btr (i + 1) =
          Some (of_nat (Suc (unat i) + m), take (Suc (unat i)) (data[unat i := x]) @ take m q
                @ drop (Suc (unat i) + m) (data[unat i := x]), rb')"
        and rb': "ring_of k overwrite rb'" "contents rb' = drop m q"
        using t(3) lt by (auto simp: unat_Suc_less)
      have step: "read_loop rb data btr i = read_loop rb1 (data[unat i := x]) btr (i + 1)"
        using lt ne t(1) by (subst read_loop.simps) simp
      have A: "Suc m = min (unat btr - unat i) (length (contents rb))"
        using lt m Cons by (simp add: unat_less_iff)
      have "take (Suc (unat i)) (data[unat i := x]) = take (unat i) data @ [x]"
        using i by (simp add: take_Suc_conv_app_nth)
      moreover have "drop (Suc (unat i) + m) (data[unat i := x]) = drop (unat i + Suc m) data"
        by (simp add: drop_update_cancel)
      ultimately have B: "read_loop rb data btr i = Some (of_nat (unat i + Suc m),
          take (unat i) data @ take (Suc m) (contents rb) @ drop (unat i + Suc m) data, rb')"
        using r step Cons by simp
      have C: "contents rb' = drop (Suc m) (contents rb)" using rb'(2) Cons by simp
      from A B C rb'(1) show ?thesis by blast
    qed
  qed
qed

lemma peek_slot:
  assumes "ring_of k overwrite rb" and "unat i < length (contents rb)"
  shows "arr_get (buffer rb) ((read_index rb + i) AND size_mask rb) = Some (contents rb ! unat i)"
proof -
  have s: "shape k (length (contents rb)) rb" using assms by (simp add: ring_of_def)
  then have k: "k < 64" and m: "size_mask rb = 2 ^ k - 1" by (simp_all add: shape_def)
  have "unat ((read_index rb + i) AND size_mask rb) = (unat (read_index rb) + unat i) mod 2 ^ k"
    using unat_slot_add [OF k, of "read_index rb" "unat i"] by (simp only: m of_nat_unat ucast_id)
  moreover have "contents rb ! unat i = buffer rb ! ((unat (read_index rb) + unat i) mod 2 ^ k)"
    using assms(2) by (subst shape_contents [OF s]) simp
  ultimately show ?thesis
    using s by (simp add: arr_get_def shape_def)
qed

lemma peek_loop_contents:
  assumes "ring_of k overwrite rb" and "i \<le> n" and "unat n \<le> length data" and "unat n \<le> length (contents rb)"
  shows "peek_loop rb data n i =
     Some (take (unat i) data @ drop (unat i) (take (unat n) (contents rb)) @ drop (unat n) data)"
  using assms
proof (induction rb data n i rule: peek_loop.induct)
  case (1 rb data n i)
  show ?case
  proof (cases "i < n")
    case False
    with "1.prems" have "i = n" by simp
    then show ?thesis by (subst peek_loop.simps) simp
  next
    case lt: True
    let ?x = "contents rb ! unat i"
    have i: "unat i < unat n" using lt by (simp add: unat_less_iff)
    have g: "arr_get (buffer rb) ((read_index rb + i) AND size_mask rb) = Some ?x"
      using peek_slot [OF "1.prems"(1)] i "1.prems"(4) by simp
    have st: "arr_set data i ?x = Some (data[unat i := ?x])"
      using i "1.prems"(3) by (simp add: arr_set_def)
    have le: "i + 1 \<le> n" using i lt by (simp add: word_le_nat_alt unat_Suc_less)
    have "take (Suc (unat i)) (data[unat i := ?x]) = take (unat i) data @ [?x]"
      using i "1.prems"(3) by (simp add: take_Suc_conv_app_nth)
    moreover have "drop (unat i) (take (unat n) (contents rb)) = ?x # drop (Suc (unat i)) (take (unat n) (contents rb))"
      using i "1.prems"(4) by (subst Cons_nth_drop_Suc [symmetric]) auto
    ultimately show ?thesis
      using "1.IH" [OF lt g st "1.prems"(1) le] "1.prems"(3,4) lt g st i
      by (subst peek_loop.simps) (simp add: unat_Suc_less drop_update_cancel)
  qed
qed

lemma write_loop_step:
  assumes "ring_of k overwrite rb" and "i < btw" and "unat i < length xs"
    and "length (contents rb) < 2 ^ k - 1 \<or> overwrite" and "Write rb (xs ! unat i) = Some (r, rb')"
  shows "write_loop rb xs btw i = write_loop rb' xs btw (i + 1)"
proof -
  have "(write_index rb + 1) AND size_mask rb = read_index rb AND size_mask rb \<longrightarrow> enable_overwrite rb"
    using assms(1,4) by (auto simp: ring_of_def dest: shape_full)
  moreover have "arr_get xs i = Some (xs ! unat i)" using assms(3) by (simp add: arr_get_def)
  ultimately show ?thesis
    using assms(2,5) by (subst write_loop.simps) (auto simp: Write_def split: if_splits bind_splits)
qed

lemma write_loop_overwrite:
  assumes "ring_of k True rb" and "i \<le> btw" and "unat btw \<le> length xs"
  shows "\<exists>rb'. write_loop rb xs btw i = Some (btw, rb') \<and> ring_of k True rb'
     \<and> contents rb' = foldl (push (2 ^ k - 1) True) (contents rb) (drop (unat i) (take (unat btw) xs))"
  using assms
proof (induction "unat btw - unat i" arbitrary: rb i)
  case 0
  then have "i = btw" by (simp add: word_le_nat_alt word_unat_eq_iff)
  with "0.prems" show ?case by (subst write_loop.simps) simp
next
  case (Suc n)
  then have i: "unat i < unat btw" "i < btw" by (simp_all add: unat_less_iff)
  obtain rb1 where w: "Write rb (xs ! unat i) = Some (1, rb1)" "ring_of k True rb1"
    "contents rb1 = push (2 ^ k - 1) True (contents rb) (xs ! unat i)"
    using Write_push [OF Suc.prems(1), of "xs ! unat i"] by auto
  have step: "write_loop rb xs btw i = write_loop rb1 xs btw (i + 1)"
    using write_loop_step [OF Suc.prems(1) i(2) _ _ w(1)] i Suc.prems(3) by simp
  have "drop (unat i) (take (unat btw) xs) = xs ! unat i # drop (Suc (unat i)) (take (unat btw) xs)"
    using i Suc.prems(3) by (subst Cons_nth_drop_Suc [symmetric]) auto
  with Suc.hyps(1) [of "i + 1" rb1] w Suc.hyps(2) Suc.prems(3) i step show ?case
    by (simp add: unat_Suc_less word_le_nat_alt)
qed

lemma write_loop_reject:
  assumes "ring_of k False rb" and "i \<le> btw" and "unat btw \<le> length xs"
  shows "\<exists>rb'. write_loop rb xs btw i =
       Some (of_nat (unat i + min (unat btw - unat i) (2 ^ k - 1 - length (contents rb))), rb')
     \<and> ring_of k False rb'
     \<and> contents rb' = foldl (push (2 ^ k - 1) False) (contents rb) (drop (unat i) (take (unat btw) xs))"
  using assms
proof (induction "unat btw - unat i" arbitrary: rb i)
  case 0
  then have "i = btw" by (simp add: word_le_nat_alt word_unat_eq_iff)
  with "0.prems" show ?case by (subst write_loop.simps) simp
next
  case (Suc n)
  then have i: "unat i < unat btw" "i < btw" by (simp_all add: unat_less_iff)
  show ?case
  proof (cases "length (contents rb) < 2 ^ k - 1")
    case False
    then have l: "length (contents rb) = 2 ^ k - 1"
      using ring_of_length [OF Suc.prems(1)] by simp
    then have "(write_index rb + 1) AND size_mask rb = read_index rb AND size_mask rb"
      using Suc.prems(1) by (auto simp: ring_of_def dest: shape_full)
    with l i Suc.prems show ?thesis
      by (subst write_loop.simps) (simp add: ring_of_def foldl_push_reject)
  next
    case True
    obtain rb1 where w: "Write rb (xs ! unat i) = Some (1, rb1)" "ring_of k False rb1"
      "contents rb1 = push (2 ^ k - 1) False (contents rb) (xs ! unat i)"
      using Write_push [OF Suc.prems(1), of "xs ! unat i"] True by auto
    have step: "write_loop rb xs btw i = write_loop rb1 xs btw (i + 1)"
      using write_loop_step [OF Suc.prems(1) i(2) _ _ w(1)] i Suc.prems(3) True by simp
    have d: "drop (unat i) (take (unat btw) xs) = xs ! unat i # drop (Suc (unat i)) (take (unat btw) xs)"
      using i Suc.prems(3) by (subst Cons_nth_drop_Suc [symmetric]) auto
    have n: "Suc (unat i) + min (unat btw - Suc (unat i)) (2 ^ k - 1 - length (contents rb1))
        = unat i + min (unat btw - unat i) (2 ^ k - 1 - length (contents rb))"
      using True i w(3) by (simp add: push_room)
    have ih: "n = unat btw - unat (i + 1)" "i + 1 \<le> btw"
      using Suc.hyps(2) i by (simp_all add: unat_Suc_less word_le_nat_alt)
    have "\<exists>rb'. write_loop rb1 xs btw (i + 1) =
        Some (of_nat (unat (i + 1) + min (unat btw - unat (i + 1)) (2 ^ k - 1 - length (contents rb1))), rb')
      \<and> ring_of k False rb'
      \<and> contents rb' = foldl (push (2 ^ k - 1) False) (contents rb1) (drop (unat (i + 1)) (take (unat btw) xs))"
      by (rule Suc.hyps(1) [OF ih(1) w(2) ih(2) Suc.prems(3)])
    then obtain rb' where "write_loop rb1 xs btw (i + 1) =
        Some (of_nat (unat i + min (unat btw - unat i) (2 ^ k - 1 - length (contents rb))), rb')"
      "ring_of k False rb'"
      "contents rb' = foldl (push (2 ^ k - 1) False) (contents rb1) (drop (Suc (unat i)) (take (unat btw) xs))"
      unfolding unat_Suc_less [OF i(2)] n by blast
    with step d w(3) show ?thesis by simp
  qed
qed

section \<open>The class as an abstract machine\<close>

datatype 'a rb_op =
    Op_Reset | Op_IsEmpty | Op_IsFull | Op_GetFreeSize | Op_GetOccupiedSize
  | Op_Read_burst "'a list" u64 | Op_Peek "'a list" u64 | Op_Write_burst "'a list" u64
  | Op_Read 'a | Op_PeekAt 'a u64 | Op_Write 'a

datatype 'a rb_result = R_Unit | R_Bool bool | R_Size nat | R_Item nat 'a | R_Items nat "'a list"

text \<open>One call of a member function.\<close>

fun rb_step :: "u64 \<Rightarrow> 'a ring_buffer \<Rightarrow> 'a rb_op \<Rightarrow> ('a rb_result \<times> 'a ring_buffer) option" where
  "rb_step N rb Op_Reset = Some (R_Unit, Reset rb)"
| "rb_step N rb Op_IsEmpty = Some (R_Bool (IsEmpty rb), rb)"
| "rb_step N rb Op_IsFull = Some (R_Bool (IsFull rb), rb)"
| "rb_step N rb Op_GetFreeSize = Some (R_Size (unat (GetFreeSize N rb)), rb)"
| "rb_step N rb Op_GetOccupiedSize = Some (R_Size (unat (GetOccupiedSize rb)), rb)"
| "rb_step N rb (Op_Read_burst data btr) =
     map_option (\<lambda>(n, data', rb'). (R_Items (unat n) data', rb')) (Read_burst rb data btr)"
| "rb_step N rb (Op_Peek data btp) =
     map_option (\<lambda>(n, data'). (R_Items (unat n) data', rb)) (Peek rb data btp)"
| "rb_step N rb (Op_Write_burst xs btw) =
     map_option (\<lambda>(n, rb'). (R_Size (unat n), rb')) (Write_burst rb xs btw)"
| "rb_step N rb (Op_Read d) = map_option (\<lambda>(n, x, rb'). (R_Item (unat n) x, rb')) (Read rb d)"
| "rb_step N rb (Op_PeekAt d n) = map_option (\<lambda>(m, x). (R_Item (unat m) x, rb)) (PeekAt rb d n)"
| "rb_step N rb (Op_Write x) = map_option (\<lambda>(n, rb'). (R_Size (unat n), rb')) (Write rb x)"

text \<open>
  The same calls on the queue of elements. A reading call hands back the caller's buffer
  with the elements read in front; what lies behind them is untouched.
\<close>

fun queue_spec :: "nat \<Rightarrow> bool \<Rightarrow> 'a list \<Rightarrow> 'a rb_op \<Rightarrow> 'a rb_result \<times> 'a list" where
  "queue_spec cap ow q Op_Reset = (R_Unit, [])"
| "queue_spec cap ow q Op_IsEmpty = (R_Bool (q = []), q)"
| "queue_spec cap ow q Op_IsFull = (R_Bool (length q = cap), q)"
| "queue_spec cap ow q Op_GetFreeSize = (R_Size (cap - length q), q)"
| "queue_spec cap ow q Op_GetOccupiedSize = (R_Size (length q), q)"
| "queue_spec cap ow q (Op_Read_burst data btr) =
     (let n = min (min (unat btr) (length data)) (length q)
      in (R_Items n (take n q @ drop n data), drop n q))"
| "queue_spec cap ow q (Op_Peek data btp) =
     (let n = min (min (unat btp) (length data)) (length q)
      in (R_Items n (take n q @ drop n data), q))"
| "queue_spec cap ow q (Op_Write_burst xs btw) =
     (let ys = take (unat btw) xs
      in if ow then (R_Size (length ys), keep_newest cap (q @ ys))
         else let ys = take (cap - length q) ys in (R_Size (length ys), q @ ys))"
| "queue_spec cap ow q (Op_Read d) =
     (case q of [] \<Rightarrow> (R_Item 0 d, []) | x # q' \<Rightarrow> (R_Item 1 x, q'))"
| "queue_spec cap ow q (Op_PeekAt d n) =
     (if unat n < length q then (R_Item 1 (q ! unat n), q) else (R_Item 0 d, q))"
| "queue_spec cap ow q (Op_Write x) =
     (if length q < cap then (R_Size 1, q @ [x])
      else if ow then (R_Size 1, keep_newest cap (q @ [x])) else (R_Size 0, q))"

text \<open>Vectors have fewer than \<open>2 ^ 64\<close> elements.\<close>

fun vectors_ok :: "'a rb_op \<Rightarrow> bool" where
  "vectors_ok (Op_Read_burst data n) \<longleftrightarrow> length data < 2 ^ 64"
| "vectors_ok (Op_Peek data n) \<longleftrightarrow> length data < 2 ^ 64"
| "vectors_ok (Op_Write_burst data n) \<longleftrightarrow> length data < 2 ^ 64"
| "vectors_ok _ \<longleftrightarrow> True"

lemma drop_eq_Cons_nth: "drop n xs = y # ys \<Longrightarrow> n < length xs \<and> xs ! n = y"
  by (metis drop_all leI list.distinct(1) hd_drop_conv_nth list.sel(1))

lemma clamp_min: "(if vec_size xs < n then vec_size xs else n) = min n (vec_size xs)"
  by (auto simp: min_def)

lemma unat_min: "unat (min a b :: u64) = min (unat a) (unat b)"
  by (simp add: min_def word_le_nat_alt)

lemma sizes_contents:
  assumes "ring_of k overwrite rb"
  shows "IsEmpty rb \<longleftrightarrow> contents rb = []"
    and "IsFull rb \<longleftrightarrow> length (contents rb) = 2 ^ k - 1"
    and "unat (GetOccupiedSize rb) = length (contents rb)"
    and "unat (GetFreeSize (2 ^ k) rb) = 2 ^ k - 1 - length (contents rb)"
proof -
  let ?L = "length (contents rb)"
  have s: "shape k ?L rb" using assms by (simp add: ring_of_def)
  then have k: "k < 64" and L: "?L < 2 ^ k" by (auto simp: shape_def)
  show "IsEmpty rb \<longleftrightarrow> contents rb = []"
    using shape_empty [OF s] by (simp add: IsEmpty_def)
  show "IsFull rb \<longleftrightarrow> ?L = 2 ^ k - 1"
    using shape_full [OF s] by (auto simp: IsFull_def)
  show occ: "unat (GetOccupiedSize rb) = ?L"
    using shape_occupied [OF s] small_of_nat [OF k L] by (simp add: GetOccupiedSize_def)
  have u: "unat (2 ^ k - 1 :: u64) = 2 ^ k - 1" by (simp only: unat_minus_one [OF pow2_nonzero [OF k]] unat_pow2 [OF k])
  then have "GetOccupiedSize rb \<le> 2 ^ k - 1"
    using occ L by (simp add: word_le_nat_alt)
  then show "unat (GetFreeSize (2 ^ k) rb) = 2 ^ k - 1 - ?L"
    using occ u by (simp add: GetFreeSize_def GetOccupiedSize_def unat_sub)
qed

text \<open>The burst operations, on the abstraction.\<close>

lemma Read_burst_contents:
  assumes "ring_of k overwrite rb" and "length data < 2 ^ 64"
  shows "\<exists>n rb'. Read_burst rb data btr =
       Some (n, take (unat n) (contents rb) @ drop (unat n) data, rb')
     \<and> unat n = min (min (unat btr) (length data)) (length (contents rb))
     \<and> ring_of k overwrite rb' \<and> contents rb' = drop (unat n) (contents rb)"
proof -
  define b where "b = min btr (vec_size data)"
  have ub: "unat b = min (unat btr) (length data)"
    using assms(2) by (simp add: b_def unat_min)
  let ?m = "min (unat b) (length (contents rb))"
  have "?m \<le> unat b" by simp
  then have m: "unat (of_nat ?m :: u64) = ?m"
    using unat_less_size [of b] by (intro unat_of_nat_small) (erule le_less_trans)
  have "unat b \<le> length data" using ub by simp
  from read_loop_contents [OF assms(1) _ this, of 0] obtain rb' where
    r: "read_loop rb data b 0 = Some (of_nat ?m, take ?m (contents rb) @ drop ?m data, rb')"
      "ring_of k overwrite rb'" "contents rb' = drop ?m (contents rb)"
    by auto
  have "Read_burst rb data btr = read_loop rb data b 0"
    by (simp add: Read_burst_def clamp_min b_def)
  with r m ub show ?thesis by (intro exI [of _ "of_nat ?m"] exI [of _ rb']) simp
qed

lemma Peek_contents:
  assumes "ring_of k overwrite rb" and "length data < 2 ^ 64"
  shows "\<exists>n. Peek rb data btp = Some (n, take (unat n) (contents rb) @ drop (unat n) data)
     \<and> unat n = min (min (unat btp) (length data)) (length (contents rb))"
proof -
  have s: "shape k (length (contents rb)) rb" using assms by (simp add: ring_of_def)
  have occ: "(write_index rb - read_index rb) AND size_mask rb = of_nat (length (contents rb))"
    by (rule shape_occupied [OF s])
  have L: "unat (of_nat (length (contents rb)) :: u64) = length (contents rb)"
    using s by (intro small_of_nat [of k]) (auto simp: shape_def)
  define n where "n = min btp (min (vec_size data) (of_nat (length (contents rb))))"
  have un: "unat n = min (min (unat btp) (length data)) (length (contents rb))"
    using assms(2) by (simp only: n_def unat_min L unat_vec_size min.assoc)
  then have "peek_loop rb data n 0 = Some (take (unat n) (contents rb) @ drop (unat n) data)"
    using peek_loop_contents [OF assms(1), of 0 n data] by simp
  then have "Peek rb data btp = Some (n, take (unat n) (contents rb) @ drop (unat n) data)"
    by (simp add: Peek_def occ n_def [symmetric])
  with un show ?thesis by blast
qed

lemma Write_burst_contents:
  assumes "ring_of k overwrite rb" and "length xs < 2 ^ 64"
  shows "\<exists>n rb'. Write_burst rb xs btw = Some (n, rb') \<and> ring_of k overwrite rb'
     \<and> unat n = (if overwrite then min (unat btw) (length xs)
                 else min (min (unat btw) (length xs)) (2 ^ k - 1 - length (contents rb)))
     \<and> contents rb' = foldl (push (2 ^ k - 1) overwrite) (contents rb) (take (unat btw) xs)"
proof -
  define b where "b = min btw (vec_size xs)"
  have ub: "unat b = min (unat btw) (length xs)"
    using assms(2) by (simp add: b_def unat_min)
  have W: "Write_burst rb xs btw = write_loop rb xs b 0"
    by (simp add: Write_burst_def clamp_min b_def)
  have t: "take (unat b) xs = take (unat btw) xs" using ub by (simp add: min_def)
  have b: "0 \<le> b" "unat b \<le> length xs" using ub by simp_all
  show ?thesis
  proof (cases overwrite)
    case True
    with assms(1) have "ring_of k True rb" by simp
    from write_loop_overwrite [OF this b] obtain rb' where
      "write_loop rb xs b 0 = Some (b, rb')" "ring_of k True rb'"
        "contents rb' = foldl (push (2 ^ k - 1) True) (contents rb) (take (unat b) xs)"
      by auto
    with t ub True W show ?thesis by (intro exI [of _ b] exI [of _ rb']) simp
  next
    case False
    let ?m = "min (unat b) (2 ^ k - 1 - length (contents rb))"
    have "?m \<le> unat b" by simp
    then have m: "unat (of_nat ?m :: u64) = ?m"
      using unat_less_size [of b] by (intro unat_of_nat_small) (erule le_less_trans)
    from False assms(1) have "ring_of k False rb" by simp
    from write_loop_reject [OF this b] obtain rb' where
      r: "write_loop rb xs b 0 = Some (of_nat ?m, rb')" "ring_of k False rb'"
        "contents rb' = foldl (push (2 ^ k - 1) False) (contents rb) (take (unat b) xs)"
      by auto
    with m ub t False W show ?thesis by (intro exI [of _ "of_nat ?m"] exI [of _ rb']) simp
  qed
qed

lemma PeekAt_contents:
  assumes "ring_of k overwrite rb"
  shows "PeekAt rb d n = Some (if unat n < length (contents rb) then (1, contents rb ! unat n) else (0, d))"
proof -
  have s: "shape k (length (contents rb)) rb" using assms by (simp add: ring_of_def)
  have L: "unat (of_nat (length (contents rb)) :: u64) = length (contents rb)"
    using s by (intro small_of_nat [of k]) (auto simp: shape_def)
  have "(write_index rb - read_index rb) AND size_mask rb \<le> n \<longleftrightarrow> length (contents rb) \<le> unat n"
    by (simp only: shape_occupied [OF s] word_le_nat_alt L)
  then show ?thesis
    using peek_slot [OF assms, of n] by (auto simp: PeekAt_def)
qed

section \<open>Refinement\<close>

lemma Reset_contents: "ring_of k overwrite rb \<Longrightarrow> ring_of k overwrite (Reset rb) \<and> contents (Reset rb) = []"
  by (auto simp: Reset_def ring_of_def shape_def contents_def)

lemma RingBuffer_contents:
  assumes "k < 64" and "length init = 2 ^ k"
  obtains rb where "RingBuffer (2 ^ k) init overwrite = Some rb" and "ring_of k overwrite rb" and "contents rb = []"
  using assms by (auto simp: RingBuffer_def is_pow2_power unat_pow2 ring_of_def shape_def contents_def)

lemma rb_step_simulates:
  assumes inv: "ring_of k overwrite rb" and ok: "vectors_ok a"
  shows "\<exists>rb'. rb_step (2 ^ k) rb a = Some (fst (queue_spec (2 ^ k - 1) overwrite (contents rb) a), rb')
     \<and> ring_of k overwrite rb' \<and> contents rb' = snd (queue_spec (2 ^ k - 1) overwrite (contents rb) a)"
proof (cases a)
  case Op_Reset
  then show ?thesis using Reset_contents [OF inv] by simp
next
  case (Op_Read_burst data btr)
  then show ?thesis using Read_burst_contents [OF inv, of data btr] ok by (auto simp: Let_def)
next
  case (Op_Peek data btp)
  then show ?thesis using Peek_contents [OF inv, of data btp] ok inv by (auto simp: Let_def)
next
  case (Op_Write_burst xs btw)
  with ok have "length xs < 2 ^ 64" by simp
  from Write_burst_contents [OF inv this, of btw] obtain n rb' where
    w: "Write_burst rb xs btw = Some (n, rb')" "ring_of k overwrite rb'" and
    n: "unat n = (if overwrite then min (unat btw) (length xs)
          else min (min (unat btw) (length xs)) (2 ^ k - 1 - length (contents rb)))" and
    c: "contents rb' = foldl (push (2 ^ k - 1) overwrite) (contents rb) (take (unat btw) xs)"
    by blast
  define cap where "cap = (2::nat) ^ k - 1"
  have l: "length (contents rb) \<le> cap" using ring_of_length [OF inv] by (simp add: cap_def)
  have "queue_spec cap overwrite (contents rb) a = (R_Size (unat n), contents rb')"
    unfolding Op_Write_burst queue_spec.simps Let_def n c cap_def [symmetric]
    by (cases overwrite) (simp_all add: foldl_push_overwrite [OF l] foldl_push_reject [OF l] min.commute min.left_commute)
  with w Op_Write_burst show ?thesis by (simp add: cap_def)
next
  case (Op_Read d)
  then show ?thesis using Read_contents [OF inv, of d] by (auto split: list.splits)
next
  case (Op_PeekAt d n)
  then show ?thesis using PeekAt_contents [OF inv, of d n] inv by auto
next
  case (Op_Write x)
  then show ?thesis using Write_push [OF inv, of x] by (auto simp: push_def)
qed (use inv sizes_contents [OF inv] in auto)

interpretation rb: refinement "rb_step (2 ^ k)" "queue_spec (2 ^ k - 1) overwrite" vectors_ok
    "ring_of k overwrite" contents for k overwrite
  by unfold_locales (rule rb_step_simulates)

lemma inv_ring_of:
  assumes "rb_inv N rb"
  obtains k where "k < 64" and "N = 2 ^ k" and "ring_of k (enable_overwrite rb) rb"
proof -
  from inv_shape [OF assms] obtain k where k: "N = 2 ^ k"
    and s: "shape k (unat (write_index rb - read_index rb)) rb" .
  from s have "k < 64" by (simp add: shape_def)
  moreover have "ring_of k (enable_overwrite rb) rb" by (rule ring_ofI [OF s refl])
  ultimately show ?thesis using k that by blast
qed

lemma ring_of_inv: "ring_of k overwrite rb \<Longrightarrow> rb_inv (2 ^ k) rb"
  by (auto simp: ring_of_def intro: shape_inv)

section \<open>Properties\<close>

text \<open>C20. Every sequence of calls on a fresh ring behaves as the abstract queue of
  capacity \<open>N - 1\<close>: the constructor yields an empty ring, no call leaves the array, every
  result (counts, elements, what the caller's buffers hold) is the one the queue gives, and
  the ring ends with the queue's elements, for both overflow policies and across any number
  of index wrap-arounds.\<close>

theorem ring_buffer_refines_queue:
  assumes "k < 64" and "length init = 2 ^ k" and "list_all vectors_ok ops"
  shows "\<exists>rb rb'. RingBuffer (2 ^ k) init overwrite = Some rb
     \<and> run_ops (rb_step (2 ^ k)) rb ops
         = Some (fst (run_spec (queue_spec (2 ^ k - 1) overwrite) [] ops), rb')
     \<and> contents rb' = snd (run_spec (queue_spec (2 ^ k - 1) overwrite) [] ops)"
proof -
  obtain rb where rb: "RingBuffer (2 ^ k) init overwrite = Some rb"
    "ring_of k overwrite rb" "contents rb = []"
    by (rule RingBuffer_contents [OF assms(1,2)])
  from rb.simulation_run [OF rb(2) assms(3)] rb show ?thesis by auto
qed

theorem ring_buffer_refines_queue_witness:
  "\<exists>rb rb'. RingBuffer (2 ^ 2) [0, 0, 0, 0 :: u8] True = Some rb
     \<and> run_ops (rb_step (2 ^ 2)) rb [Op_Write 1, Op_Write_burst [2, 3, 4] 3, Op_Read 0]
         = Some ([R_Size 1, R_Size 3, R_Item 1 2], rb')
     \<and> contents rb' = [3, 4]"
proof -
  have spec: "run_spec (queue_spec (2 ^ 2 - 1) True) [] [Op_Write (1 :: u8), Op_Write_burst [2, 3, 4] 3, Op_Read 0]
      = ([R_Size 1, R_Size 3, R_Item 1 2], [3, 4])"
    by (simp add: keep_newest_def)
  have "list_all vectors_ok [Op_Write (1 :: u8), Op_Write_burst [2, 3, 4] 3, Op_Read 0]" by simp
  from ring_buffer_refines_queue [of 2 "[0, 0, 0, 0 :: u8]", OF _ _ this, of True] show ?thesis
    unfolding spec fst_conv snd_conv by simp
qed

text \<open>C23. Every call keeps the representation invariant (mask, array size, distance of
  the indices at most \<open>N - 1\<close>) and stays inside its arrays, from any state that satisfies
  it; free and occupied sizes always add up to \<open>N - 1\<close>.\<close>

theorem ring_buffer_invariant_preserved:
  assumes "rb_inv N rb" and "vectors_ok a"
  shows "(\<exists>r rb'. rb_step N rb a = Some (r, rb') \<and> rb_inv N rb' \<and> enable_overwrite rb' = enable_overwrite rb)
     \<and> unat (GetFreeSize N rb) + unat (GetOccupiedSize rb) = unat (N - 1)"
proof -
  obtain k where k: "k < 64" "N = 2 ^ k" and r: "ring_of k (enable_overwrite rb) rb"
    by (rule inv_ring_of [OF assms(1)])
  obtain res rb' where s: "rb_step N rb a = Some (res, rb')" and r': "ring_of k (enable_overwrite rb) rb'"
    using rb.simulation [OF r assms(2)] k(2) by blast
  from r' have "rb_inv N rb'" and "enable_overwrite rb' = enable_overwrite rb"
    using ring_of_inv [OF r'] k(2) by (simp_all add: ring_of_def)
  moreover have "unat (N - 1) = 2 ^ k - 1"
    unfolding k(2) by (simp only: unat_minus_one [OF pow2_nonzero [OF k(1)]] unat_pow2 [OF k(1)])
  ultimately show ?thesis
    using s sizes_contents(3,4) [OF r] ring_of_length [OF r] k(2) by simp
qed

theorem ring_buffer_invariant_preserved_witness:
  "(\<exists>r rb'. rb_step 2 \<lparr>buffer = [7, 8 :: u8], size_mask = 1, write_index = 0, read_index = - 1,
        enable_overwrite = False\<rparr> (Op_Write 9) = Some (r, rb') \<and> rb_inv 2 rb'
        \<and> enable_overwrite rb' = False)"
  using ring_buffer_invariant_preserved [of 2 "\<lparr>buffer = [7, 8 :: u8], size_mask = 1, write_index = 0,
        read_index = - 1, enable_overwrite = False\<rparr>" "Op_Write 9"]
  by (simp add: rb_inv_def is_pow2_def)

text \<open>A burst write with overwriting on takes every element it is given (clamped to the
  vector) and leaves exactly the newest \<open>N - 1\<close> of the old contents followed by the new
  elements, in order; with overwriting off it takes exactly as many as there is room for and
  loses nothing that was stored.\<close>

theorem write_burst_policy:
  assumes "rb_inv N rb" and "length xs < 2 ^ 64"
  shows "\<exists>n rb'. Write_burst rb xs btw = Some (n, rb') \<and>
     (if enable_overwrite rb
      then unat n = min (unat btw) (length xs)
        \<and> contents rb' = keep_newest (unat (N - 1)) (contents rb @ take (unat btw) xs)
      else unat n = min (min (unat btw) (length xs)) (unat (GetFreeSize N rb))
        \<and> contents rb' = contents rb @ take (unat n) xs)"
proof -
  obtain k where k: "k < 64" "N = 2 ^ k" and r: "ring_of k (enable_overwrite rb) rb"
    by (rule inv_ring_of [OF assms(1)])
  define cap where "cap = (2::nat) ^ k - 1"
  have N: "unat (N - 1) = cap"
    unfolding k(2) cap_def by (simp only: unat_minus_one [OF pow2_nonzero [OF k(1)]] unat_pow2 [OF k(1)])
  have l: "length (contents rb) \<le> cap" using ring_of_length [OF r] by (simp add: cap_def)
  have f: "unat (GetFreeSize N rb) = cap - length (contents rb)"
    using sizes_contents(4) [OF r] by (simp add: cap_def k(2))
  from Write_burst_contents [OF r assms(2), of btw, folded cap_def] obtain n rb' where
    w: "Write_burst rb xs btw = Some (n, rb')" and
    n: "unat n = (if enable_overwrite rb then min (unat btw) (length xs)
          else min (min (unat btw) (length xs)) (cap - length (contents rb)))" and
    c: "contents rb' = foldl (push cap (enable_overwrite rb)) (contents rb) (take (unat btw) xs)"
    by blast
  have "take (min (min (unat btw) (length xs)) m) xs = take m (take (unat btw) xs)" for m
    by (simp add: min_def)
  then show ?thesis
    using w n c f N by (simp add: foldl_push_overwrite [OF l] foldl_push_reject [OF l])
qed

theorem write_burst_policy_witness:
  "\<exists>n rb'. Write_burst \<lparr>buffer = [7, 8, 0, 0 :: u8], size_mask = 3, write_index = 1, read_index = - 1,
        enable_overwrite = True\<rparr> [1, 2, 3] 2 = Some (n, rb')
      \<and> unat n = 2 \<and> contents rb' = [7, 1, 2]"
proof -
  let ?rb = "\<lparr>buffer = [7, 8, 0, 0 :: u8], size_mask = 3, write_index = 1, read_index = - 1,
        enable_overwrite = True\<rparr>"
  have inv: "rb_inv 4 ?rb" by (simp add: rb_inv_def is_pow2_def)
  have c: "contents ?rb = [0, 7]" by (simp add: contents_def upt_rec)
  have kept: "keep_newest (unat (4 - 1 :: u64)) ([0, 7] @ take (unat (2 :: u64)) [1, 2, 3 :: u8]) = [7, 1, 2]"
    by (simp add: keep_newest_def)
  from write_burst_policy [OF inv, of "[1, 2, 3]" 2]
  obtain n rb' where "Write_burst ?rb [1, 2, 3] 2 = Some (n, rb')" "unat n = 2" "contents rb' = [7, 1, 2]"
    unfolding c kept by auto
  then show ?thesis by blast
qed

text \<open>C22. Peeking never lies: what \<open>Peek\<close> returns for a caller's buffer is exactly what the
  next \<open>Read\<close> of the same size returns, and \<open>PeekAt\<close> at \<open>n\<close> is the element after \<open>n\<close>
  single reads; reading what was just written with room to spare returns the old contents
  followed by the new elements.\<close>

theorem peek_and_read_agree:
  assumes "rb_inv N rb" and "length data < 2 ^ 64"
  shows "\<exists>n data' rb'. Peek rb data b = Some (n, data') \<and> Read_burst rb data b = Some (n, data', rb')
     \<and> take (unat n) data' = take (unat n) (contents rb) \<and> drop (unat n) data' = drop (unat n) data
     \<and> contents rb = take (unat n) data' @ contents rb'
     \<and> PeekAt rb d n = Read rb' d \<bind> (\<lambda>(m, x, rb''). Some (m, x))"
proof -
  obtain k where k: "N = 2 ^ k" and r: "ring_of k (enable_overwrite rb) rb"
    by (rule inv_ring_of [OF assms(1)])
  from Peek_contents [OF r assms(2), of b] obtain n where
    p: "Peek rb data b = Some (n, take (unat n) (contents rb) @ drop (unat n) data)"
      "unat n = min (min (unat b) (length data)) (length (contents rb))" by blast
  from Read_burst_contents [OF r assms(2), of b] obtain n' rb' where
    q: "Read_burst rb data b = Some (n', take (unat n') (contents rb) @ drop (unat n') data, rb')"
      "unat n' = min (min (unat b) (length data)) (length (contents rb))"
      "ring_of k (enable_overwrite rb) rb'" "contents rb' = drop (unat n') (contents rb)" by blast
  have n: "n' = n" using p(2) q(2) by (simp add: word_unat_eq_iff)
  have le: "unat n \<le> length (contents rb)" using p(2) by simp
  from Read_contents [OF q(3), of d] q(4) n le
  have "PeekAt rb d n = Read rb' d \<bind> (\<lambda>(m, x, rb''). Some (m, x))"
    unfolding PeekAt_contents [OF r]
    by (cases "drop (unat n) (contents rb)") (auto simp: drop_eq_Cons_nth)
  with p q(1) q(4) n le show ?thesis by auto
qed

theorem peek_and_read_agree_witness:
  "\<exists>n data' rb'. Peek \<lparr>buffer = [7, 8 :: u8], size_mask = 1, write_index = 0, read_index = - 1,
        enable_overwrite = False\<rparr> [5, 6] 2 = Some (n, data') \<and> take (unat n) data' = take (unat n) [8]"
proof -
  let ?rb = "\<lparr>buffer = [7, 8 :: u8], size_mask = 1, write_index = 0, read_index = - 1,
        enable_overwrite = False\<rparr>"
  have inv: "rb_inv 2 ?rb" by (simp add: rb_inv_def is_pow2_def)
  have c: "contents ?rb = [8]" by (simp add: contents_def)
  from peek_and_read_agree [OF inv, of "[5, 6]" 2 0] show ?thesis unfolding c by auto
qed

text \<open>The \<open>static_assert\<close> admits exactly the powers of two below \<open>2 ^ 64\<close>, \<open>N = 1\<close>
  among them although its message asks for a positive exponent; a ring of one slot is full
  and empty at once, and with overwriting on it reports every element as written while
  nothing can ever be read back.\<close>

theorem ring_buffer_sizes:
  "(RingBuffer N init overwrite \<noteq> None \<longleftrightarrow> (\<exists>k<64. N = 2 ^ k) \<and> length init = unat N)
   \<and> (\<exists>rb. RingBuffer 1 [x] overwrite = Some rb \<and> IsEmpty rb \<and> IsFull rb)
   \<and> (rb_inv 1 ring \<longrightarrow> (\<exists>ring'. Write ring y = Some (if enable_overwrite ring then 1 else 0, ring')
        \<and> rb_inv 1 ring' \<and> Read ring' d = Some (0, d, ring')))"
proof (intro conjI impI)
  show "RingBuffer N init overwrite \<noteq> None \<longleftrightarrow> (\<exists>k<64. N = 2 ^ k) \<and> length init = unat N"
    by (auto simp: RingBuffer_def is_pow2_iff)
  show "\<exists>rb. RingBuffer 1 [x] overwrite = Some rb \<and> IsEmpty rb \<and> IsFull rb"
    by (simp add: RingBuffer_def is_pow2_def IsEmpty_def IsFull_def)
next
  assume "rb_inv 1 ring"
  then obtain k where "1 = (2 :: u64) ^ k" "k < 64" and r: "ring_of k (enable_overwrite ring) ring"
    by (rule inv_ring_of)
  then have k: "k = 0" by (metis unat_pow2 unsigned_1 power_0 power_inject_exp one_less_numeral_iff semiring_norm(76))
  from Write_push [OF r, of y] obtain ring' where
    w: "Write ring y = Some (if enable_overwrite ring then 1 else 0, ring')"
    "ring_of 0 (enable_overwrite ring) ring'" by (auto simp: k)
  from ring_of_length [OF w(2)] have "contents ring' = []" by simp
  then have "IsEmpty ring'" using sizes_contents(1) [OF w(2)] by simp
  then have "Read ring' d = Some (0, d, ring')" by (simp add: Read_def IsEmpty_def)
  with w ring_of_inv [OF w(2)] show "\<exists>ring'. Write ring y = Some (if enable_overwrite ring then 1 else 0, ring')
        \<and> rb_inv 1 ring' \<and> Read ring' d = Some (0, d, ring')" by auto
qed

theorem ring_buffer_sizes_witness:
  "\<exists>ring'. Write \<lparr>buffer = [7 :: u8], size_mask = 0, write_index = 5, read_index = 5, enable_overwrite = True\<rparr> 9
      = Some (1, ring') \<and> Read ring' 3 = Some (0, 3, ring')"
proof -
  let ?rb = "\<lparr>buffer = [7 :: u8], size_mask = 0, write_index = 5, read_index = 5, enable_overwrite = True\<rparr>"
  have inv: "rb_inv 1 ?rb" by (simp add: rb_inv_def is_pow2_def)
  from ring_buffer_sizes [of 0 "[]" True 0 ?rb 9 3] inv show ?thesis by auto
qed

end
