(* ===== verification/Monitor.thy ===== *)
theory Monitor
  imports Prelude
begin

text \<open>
  Objects guarded by one mutex, used by any number of threads: every member function opens
  with \<open>std::lock_guard<std::mutex> lock(mutex_);\<close> and holds the lock for its whole body.

  A thread is outside, waiting for the lock with the operation it called, inside the body, or
  past the unlock with the result it will return. The body is a sequence of small steps on the
  shared object; nothing but the lock keeps two bodies from interleaving. The step relation is
  generic in the object; the locale \<open>monitor\<close> states what the object's small steps have to
  satisfy, and derives that every execution is linearizable: the results are those of the
  abstract machine run on the operations in the order in which they took the lock.
\<close>

section \<open>Threads, lock and events\<close>

datatype ('o, 'b, 'r) phase = T_Idle | T_Waiting 'o | T_Inside 'b | T_Returning 'r

record ('s, 'o, 'b, 'r) guarded =
  shared :: 's
  owner :: "nat option"
  phase :: "nat \<Rightarrow> ('o, 'b, 'r) phase"

datatype ('o, 'r) guarded_event =
    E_Call nat 'o | E_Lock nat 'o | E_Work nat | E_Unlock nat 'r | E_Return nat 'r

definition guarded_start :: "'s \<Rightarrow> ('s, 'o, 'b, 'r) guarded" where
  "guarded_start x = \<lparr>shared = x, owner = None, phase = (\<lambda>_. T_Idle)\<rparr>"

text \<open>
  \<open>ok\<close> says which arguments exist, \<open>enter\<close> is the state of the body right after the lock is
  taken, \<open>work\<close> one step of it (\<open>None\<close> an undefined access), \<open>result\<close> what a finished body
  returns. \<open>std::mutex\<close> gives the lock to any one waiting thread, in no particular order.
\<close>

inductive guarded_step ::
    "('o \<Rightarrow> bool) \<Rightarrow> ('o \<Rightarrow> 'b) \<Rightarrow> ('s \<Rightarrow> 'b \<Rightarrow> ('s \<times> 'b) option) \<Rightarrow> ('b \<Rightarrow> 'r option)
     \<Rightarrow> ('s, 'o, 'b, 'r) guarded \<Rightarrow> ('o, 'r) guarded_event \<Rightarrow> ('s, 'o, 'b, 'r) guarded \<Rightarrow> bool"
  for ok enter work result where
  call: "phase s t = T_Idle \<Longrightarrow> ok a \<Longrightarrow>
     guarded_step ok enter work result s (E_Call t a) (s\<lparr>phase := (phase s)(t := T_Waiting a)\<rparr>)"
| lock: "phase s t = T_Waiting a \<Longrightarrow> owner s = None \<Longrightarrow>
     guarded_step ok enter work result s (E_Lock t a)
       (s\<lparr>owner := Some t, phase := (phase s)(t := T_Inside (enter a))\<rparr>)"
| work: "phase s t = T_Inside b \<Longrightarrow> work (shared s) b = Some (x, b') \<Longrightarrow>
     guarded_step ok enter work result s (E_Work t)
       (s\<lparr>shared := x, phase := (phase s)(t := T_Inside b')\<rparr>)"
| unlock: "phase s t = T_Inside b \<Longrightarrow> result b = Some r \<Longrightarrow>
     guarded_step ok enter work result s (E_Unlock t r)
       (s\<lparr>owner := None, phase := (phase s)(t := T_Returning r)\<rparr>)"
| return: "phase s t = T_Returning r \<Longrightarrow>
     guarded_step ok enter work result s (E_Return t r) (s\<lparr>phase := (phase s)(t := T_Idle)\<rparr>)"

section \<open>Histories\<close>

text \<open>Who took the lock for what, and who released it with which result, in order.\<close>

definition locked :: "('o, 'r) guarded_event list \<Rightarrow> (nat \<times> 'o) list" where
  "locked es = concat (map (\<lambda>e. case e of E_Lock t a \<Rightarrow> [(t, a)] | _ \<Rightarrow> []) es)"

definition unlocked :: "('o, 'r) guarded_event list \<Rightarrow> (nat \<times> 'r) list" where
  "unlocked es = concat (map (\<lambda>e. case e of E_Unlock t r \<Rightarrow> [(t, r)] | _ \<Rightarrow> []) es)"

definition of_thread :: "nat \<Rightarrow> (nat \<times> 'x) list \<Rightarrow> 'x list" where
  "of_thread t xs = map snd (filter (\<lambda>(u, x). u = t) xs)"

definition calls_of :: "nat \<Rightarrow> ('o, 'r) guarded_event list \<Rightarrow> 'o list" where
  "calls_of t es = concat (map (\<lambda>e. case e of E_Call u a \<Rightarrow> if u = t then [a] else [] | _ \<Rightarrow> []) es)"

definition returned_to :: "nat \<Rightarrow> ('o, 'r) guarded_event list \<Rightarrow> 'r list" where
  "returned_to t es = concat (map (\<lambda>e. case e of E_Return u r \<Rightarrow> if u = t then [r] else [] | _ \<Rightarrow> []) es)"

named_theorems history_simps

lemma history_snoc [history_simps]:
  "locked [] = []" "unlocked [] = []" "calls_of t [] = []" "returned_to t [] = []" "of_thread t [] = []"
  "locked (es @ [e]) = locked es @ (case e of E_Lock u a \<Rightarrow> [(u, a)] | _ \<Rightarrow> [])"
  "unlocked (es @ [e]) = unlocked es @ (case e of E_Unlock u r \<Rightarrow> [(u, r)] | _ \<Rightarrow> [])"
  "calls_of t (es @ [e]) = calls_of t es @ (case e of E_Call u a \<Rightarrow> if u = t then [a] else [] | _ \<Rightarrow> [])"
  "returned_to t (es @ [e]) = returned_to t es @ (case e of E_Return u r \<Rightarrow> if u = t then [r] else [] | _ \<Rightarrow> [])"
  "of_thread t (xs @ [(u, x)]) = of_thread t xs @ (if u = t then [x] else [])"
  by (auto simp: locked_def unlocked_def calls_of_def returned_to_def of_thread_def)

lemma history_append:
  "locked (es @ fs) = locked es @ locked fs" "returned_to t (es @ fs) = returned_to t es @ returned_to t fs"
  "calls_of t (es @ fs) = calls_of t es @ calls_of t fs"
  "locked (e # es) = (case e of E_Lock u a \<Rightarrow> [(u, a)] | _ \<Rightarrow> []) @ locked es"
  "returned_to t (e # es) = (case e of E_Return u r \<Rightarrow> if u = t then [r] else [] | _ \<Rightarrow> []) @ returned_to t es"
  "calls_of t (e # es) = (case e of E_Call u a \<Rightarrow> if u = t then [a] else [] | _ \<Rightarrow> []) @ calls_of t es"
  "locked (replicate n (E_Work u)) = []" "returned_to t (replicate n (E_Work u)) = []"
  "calls_of t (replicate n (E_Work u)) = []" "locked [] = []" "returned_to t [] = []" "calls_of t [] = []"
  by (simp_all add: locked_def returned_to_def calls_of_def)

text \<open>What a thread's phase says of its history: calls, lock acquisitions, releases, returns.\<close>

definition thread_inv :: "nat \<Rightarrow> ('o, 'r) guarded_event list \<Rightarrow> ('o, 'b, 'r) phase \<Rightarrow> bool" where
  "thread_inv t es p \<longleftrightarrow>
     calls_of t es = of_thread t (locked es) @ (case p of T_Waiting a \<Rightarrow> [a] | _ \<Rightarrow> [])
     \<and> length (of_thread t (locked es))
         = length (of_thread t (unlocked es)) + (case p of T_Inside b \<Rightarrow> 1 | _ \<Rightarrow> 0)
     \<and> of_thread t (unlocked es) = returned_to t es @ (case p of T_Returning r \<Rightarrow> [r] | _ \<Rightarrow> [])"

lemma thread_inv_step:
  assumes "guarded_step ok enter work result s e s'" and "thread_inv t es (phase s t)"
  shows "thread_inv t (es @ [e]) (phase s' t)"
  using assms by (cases rule: guarded_step.cases) (auto simp: thread_inv_def history_simps)

lemma threads_inv: "run (guarded_step ok enter work result) s es s' \<Longrightarrow>
    \<forall>t. phase s t = T_Idle \<Longrightarrow> thread_inv t es (phase s' t)"
proof (induction rule: run.induct)
  case (run_nil s)
  then show ?case by (simp add: thread_inv_def history_simps)
next
  case (run_snoc s es s' e u)
  from thread_inv_step [OF run_snoc.hyps(2) run_snoc.IH [OF run_snoc.prems]] show ?case .
qed

text \<open>
  Hence the order in which the lock was taken contains the real-time order: an operation that
  has returned has taken the lock, one that has taken the lock has been called, and every
  prefix of an execution is an execution.
\<close>

lemma real_time:
  assumes "run (guarded_step ok enter work result) (guarded_start x) es s"
  shows "length (returned_to t es) \<le> length (of_thread t (locked es))
    \<and> of_thread t (locked es) = take (length (of_thread t (locked es))) (calls_of t es)"
proof -
  have "thread_inv t es (phase s t)" by (rule threads_inv [OF assms]) (simp add: guarded_start_def)
  then show ?thesis by (auto simp: thread_inv_def)
qed

text \<open>
  Schedules that compute: a thread calls an operation, or goes on with its next step.
\<close>

datatype 'o turn = Call_Op nat 'o | Go nat

fun guarded_do ::
    "('o \<Rightarrow> bool) \<Rightarrow> ('o \<Rightarrow> 'b) \<Rightarrow> ('s \<Rightarrow> 'b \<Rightarrow> ('s \<times> 'b) option) \<Rightarrow> ('b \<Rightarrow> 'r option)
     \<Rightarrow> ('s, 'o, 'b, 'r) guarded \<Rightarrow> 'o turn \<Rightarrow> (('o, 'r) guarded_event \<times> ('s, 'o, 'b, 'r) guarded) option" where
  "guarded_do ok enter work result s (Call_Op t a) =
     (case phase s t of
        T_Idle \<Rightarrow> if ok a then Some (E_Call t a, s\<lparr>phase := (phase s)(t := T_Waiting a)\<rparr>) else None
      | _ \<Rightarrow> None)"
| "guarded_do ok enter work result s (Go t) =
     (case phase s t of
        T_Idle \<Rightarrow> None
      | T_Waiting a \<Rightarrow> if owner s = None
          then Some (E_Lock t a, s\<lparr>owner := Some t, phase := (phase s)(t := T_Inside (enter a))\<rparr>) else None
      | T_Inside b \<Rightarrow> (case result b of
            Some r \<Rightarrow> Some (E_Unlock t r, s\<lparr>owner := None, phase := (phase s)(t := T_Returning r)\<rparr>)
          | None \<Rightarrow> (case work (shared s) b of
              None \<Rightarrow> None
            | Some (x, b') \<Rightarrow> Some (E_Work t, s\<lparr>shared := x, phase := (phase s)(t := T_Inside b')\<rparr>)))
      | T_Returning r \<Rightarrow> Some (E_Return t r, s\<lparr>phase := (phase s)(t := T_Idle)\<rparr>))"

lemma guarded_do_step:
  "guarded_do ok enter work result s a = Some (e, s') \<Longrightarrow> guarded_step ok enter work result s e s'"
  by (cases a) (auto intro: guarded_step.intros split: phase.splits option.splits if_splits)

lemma guarded_do_run:
  "run_ops (guarded_do ok enter work result) s as = Some (es, s') \<Longrightarrow> run (guarded_step ok enter work result) s es s'"
proof (induction as arbitrary: s es)
  case (Cons a as)
  then obtain e u es' where "guarded_do ok enter work result s a = Some (e, u)"
    "run_ops (guarded_do ok enter work result) u as = Some (es', s')" "es = e # es'"
    by (auto split: option.splits prod.splits)
  with Cons.IH guarded_do_step run_cons [where step = "guarded_step ok enter work result"] show ?case by metis
qed (simp add: run_nil)

lemma guarded_replayE:
  assumes "(case run_ops (guarded_do ok enter work result) s as of None \<Rightarrow> False | Some (es, t) \<Rightarrow> P es t)"
  obtains es t where "run (guarded_step ok enter work result) s es t" and "P es t"
  using assms by (rule run_opsE) (blast intro: guarded_do_run)

section \<open>The contract of a guarded object, and linearizability\<close>

lemma run_spec_snoc:
  "run_spec spec q (as @ [a]) =
     (let (rs, q1) = run_spec spec q as; (r, q2) = spec q1 a in (rs @ [r], q2))"
  by (induction as arbitrary: q) (auto split: prod.splits)

lemma length_run_spec: "length (fst (run_spec spec q as)) = length as"
  by (induction as arbitrary: q) (simp_all add: case_prod_beta)

text \<open>
  \<open>rest x b\<close> is what an uninterrupted body in state \<open>b\<close> still returns and leaves behind:
  for a body just entered this is the whole operation, every step keeps it, and the number of
  steps left is bounded by \<open>cost\<close>.
\<close>

locale monitor = refinement step spec ok inv abs
  for step :: "'s \<Rightarrow> 'o \<Rightarrow> ('r \<times> 's) option" and spec :: "'q \<Rightarrow> 'o \<Rightarrow> 'r \<times> 'q"
    and ok :: "'o \<Rightarrow> bool" and inv :: "'s \<Rightarrow> bool" and abs :: "'s \<Rightarrow> 'q" +
  fixes enter :: "'o \<Rightarrow> 'b"
    and work :: "'s \<Rightarrow> 'b \<Rightarrow> ('s \<times> 'b) option"
    and result :: "'b \<Rightarrow> 'r option"
    and rest :: "'s \<Rightarrow> 'b \<Rightarrow> ('r \<times> 's) option"
    and cost :: "'b \<Rightarrow> nat"
  assumes rest_enter: "rest x (enter a) = step x a"
    and rest_result: "result b = Some r \<Longrightarrow> rest x b = Some (r, x)"
    and rest_work: "rest x b = Some z \<Longrightarrow> result b = None \<Longrightarrow>
          \<exists>x' b'. work x b = Some (x', b') \<and> rest x' b' = Some z \<and> cost b' < cost b"
    and work_result: "result b \<noteq> None \<Longrightarrow> work x b = None"
begin

text \<open>
  The state of the lock against the history: free, and the object holds what the abstract
  machine holds; or taken by one thread, whose body will produce exactly the last result.
\<close>

definition seq_inv :: "'q \<Rightarrow> ('o, 'r) guarded_event list \<Rightarrow> ('s, 'o, 'b, 'r) guarded \<Rightarrow> bool" where
  "seq_inv q es s \<longleftrightarrow> (case run_spec spec q (map snd (locked es)) of (rs, q') \<Rightarrow>
     (case owner s of
        None \<Rightarrow> inv (shared s) \<and> abs (shared s) = q' \<and> unlocked es = zip (map fst (locked es)) rs
          \<and> (\<forall>t b. phase s t \<noteq> T_Inside b)
      | Some t \<Rightarrow> (\<exists>b r x as. phase s t = T_Inside b \<and> (\<forall>u b. phase s u = T_Inside b \<longrightarrow> u = t)
          \<and> locked es = as \<and> as \<noteq> [] \<and> fst (last as) = t
          \<and> zip (map fst as) rs = unlocked es @ [(t, r)]
          \<and> cost b \<le> cost (enter (snd (last as)))
          \<and> rest (shared s) b = Some (r, x) \<and> inv x \<and> abs x = q'))
     \<and> (\<forall>t a. phase s t = T_Waiting a \<longrightarrow> ok a))"

lemma seq_inv_start: "inv x \<Longrightarrow> seq_inv (abs x) [] (guarded_start x)"
  by (simp add: seq_inv_def history_simps guarded_start_def)

lemma seq_inv_step:
  assumes inv: "seq_inv q es s" and st: "guarded_step ok enter work result s e s'"
  shows "seq_inv q (es @ [e]) s'"
  using st
proof (cases rule: guarded_step.cases)
  case (call t a)
  with inv show ?thesis by (auto simp: seq_inv_def history_simps split: option.splits) metis
next
  case (lock t a)
  obtain rs q' where rs: "run_spec spec q (map snd (locked es)) = (rs, q')" by force
  obtain r q'' where r: "spec q' a = (r, q'')" by force
  have len: "length rs = length (locked es)"
    using length_run_spec [of spec q "map snd (locked es)"] rs by simp
  from inv lock rs have i: "inv (shared s)" "abs (shared s) = q'" "ok a"
    "unlocked es = zip (map fst (locked es)) rs" "\<forall>t b. phase s t \<noteq> T_Inside b"
    "\<forall>t a. phase s t = T_Waiting a \<longrightarrow> ok a"
    by (auto simp: seq_inv_def)
  from simulation [OF i(1,3)] i(2) r obtain x where
    "step (shared s) a = Some (r, x)" "inv x" "abs x = q''" by auto
  with i lock rs r len show ?thesis
    by (auto simp: seq_inv_def history_simps run_spec_snoc rest_enter)
next
  case (work t b x b')
  from work(3) have o: "owner s = Some t"
    using inv by (auto simp: seq_inv_def split: option.splits prod.splits)
  have nr: "result b = None" using work_result work(4) by fastforce
  with inv o work obtain r y where y: "rest (shared s) b = Some (r, y)"
    by (auto simp: seq_inv_def split: prod.splits)
  from rest_work [OF this nr] work(4) have "rest x b' = Some (r, y)" "cost b' < cost b" by auto
  with inv o work y show ?thesis
    by (auto simp: seq_inv_def history_simps split: prod.splits)
next
  case (unlock t b r)
  from unlock(3) have o: "owner s = Some t"
    using inv by (auto simp: seq_inv_def split: option.splits prod.splits)
  with inv unlock rest_result [OF unlock(4)] show ?thesis
    by (auto simp: seq_inv_def history_simps split: prod.splits)
next
  case (return t r)
  with inv show ?thesis by (auto simp: seq_inv_def history_simps split: option.splits prod.splits) metis
qed

lemma seq_inv_run:
  "run (guarded_step ok enter work result) (guarded_start x) es s \<Longrightarrow> inv x \<Longrightarrow> seq_inv (abs x) es s"
proof (induction "guarded_start x :: ('s, 'o, 'b, 'r) guarded" es s rule: run.induct)
  case run_nil
  then show ?case by (rule seq_inv_start)
next
  case (run_snoc es t e u)
  show ?case by (rule seq_inv_step [OF run_snoc(2) [OF run_snoc.prems] run_snoc(3)])
qed

text \<open>
  Mutual exclusion, and no body ever reaches an access that is undefined: the one thread inside
  can always go on.
\<close>

lemma exclusion:
  assumes "run (guarded_step ok enter work result) (guarded_start x) es s" and "inv x"
    and "phase s t = T_Inside b"
  shows "owner s = Some t \<and> (result b = None \<longrightarrow> work (shared s) b \<noteq> None)"
proof -
  have i: "seq_inv (abs x) es s" by (rule seq_inv_run [OF assms(1,2)])
  with assms(3) have o: "owner s = Some t" by (auto simp: seq_inv_def split: option.splits prod.splits)
  with i assms(3) obtain z where "rest (shared s) b = Some z"
    by (auto simp: seq_inv_def split: prod.splits)
  with o rest_work show ?thesis by fastforce
qed

text \<open>The thread that holds the lock leaves behind what the abstract machine does.\<close>

lemma inside:
  assumes "run (guarded_step ok enter work result) (guarded_start x) es s" and "inv x" and "owner s = Some t"
  shows "\<exists>b r y. phase s t = T_Inside b \<and> locked es \<noteq> [] \<and> rest (shared s) b = Some (r, y)
     \<and> abs y = snd (run_spec spec (abs x) (map snd (locked es)))"
  using seq_inv_run [OF assms(1,2)] assms(3) by (auto simp: seq_inv_def split: prod.splits)

text \<open>
  Linearizability: every thread has been returned the results the abstract machine gives its
  operations, in the order in which the operations took the lock.
\<close>

lemma linearizable:
  assumes "run (guarded_step ok enter work result) (guarded_start x) es s" and "inv x"
    and "run_spec spec (abs x) (map snd (locked es)) = (rs, q)"
  shows "(\<exists>n. returned_to t es = take n (of_thread t (zip (map fst (locked es)) rs)))
    \<and> (owner s = None \<longrightarrow> abs (shared s) = q)"
proof -
  have i: "seq_inv (abs x) es s" by (rule seq_inv_run [OF assms(1,2)])
  then obtain ys where "zip (map fst (locked es)) rs = unlocked es @ ys" and q: "owner s = None \<longrightarrow> abs (shared s) = q"
    using assms(3) by (auto simp: seq_inv_def split: option.splits)
  then have z: "of_thread t (zip (map fst (locked es)) rs) = of_thread t (unlocked es) @ of_thread t ys"
    by (simp add: of_thread_def)
  have "thread_inv t es (phase s t)" by (rule threads_inv [OF assms(1)]) (simp add: guarded_start_def)
  then obtain zs where "of_thread t (unlocked es) = returned_to t es @ zs" by (auto simp: thread_inv_def)
  with z have "returned_to t es = take (length (returned_to t es)) (of_thread t (zip (map fst (locked es)) rs))"
    by simp
  with q show ?thesis by blast
qed

text \<open>
  The lock is always released: the thread that holds it, running on its own, unlocks after at
  most as many steps as the operation it took the lock for costs.
\<close>

lemma body_completes:
  assumes "rest (shared s) b = Some (r, x)" and "phase s t = T_Inside b"
  shows "\<exists>n s'. n \<le> cost b \<and> run (guarded_step ok enter work result) s (replicate n (E_Work t) @ [E_Unlock t r]) s'
     \<and> owner s' = None \<and> shared s' = x \<and> phase s' = (phase s)(t := T_Returning r)"
  using assms
proof (induction "cost b" arbitrary: b s rule: less_induct)
  case less
  show ?case
  proof (cases "result b")
    case (Some r')
    with rest_result [OF this] less.prems have "r' = r" "shared s = x" by auto
    with guarded_step.unlock [where ok = ok and enter = enter and work = work and result = result, OF less.prems(2) Some]
    show ?thesis
      using \<open>r' = r\<close> \<open>shared s = x\<close>
      by (intro exI [of _ 0] exI [of _ "s\<lparr>owner := None, phase := (phase s)(t := T_Returning r)\<rparr>"])
        (auto intro: run_single)
  next
    case None
    from rest_work [OF less.prems(1) None] obtain y b' where
      y: "work (shared s) b = Some (y, b')" "rest y b' = Some (r, x)" "cost b' < cost b" by auto
    let ?s = "s\<lparr>shared := y, phase := (phase s)(t := T_Inside b')\<rparr>"
    have st: "guarded_step ok enter work result s (E_Work t) ?s"
      by (rule guarded_step.work) (use less.prems(2) y(1) in auto)
    from less.hyps [OF y(3), of ?s] y(2) obtain n s' where n: "n \<le> cost b'"
      "run (guarded_step ok enter work result) ?s (replicate n (E_Work t) @ [E_Unlock t r]) s'"
      "owner s' = None" "shared s' = x" "phase s' = (phase s)(t := T_Returning r)" by auto
    with run_cons [where step = "guarded_step ok enter work result", OF st n(2)] y(3) show ?thesis
      by (intro exI [of _ "Suc n"] exI [of _ s']) simp
  qed
qed

text \<open>A waiting thread that finds the lock free can finish its call on its own.\<close>

lemma turn_completes:
  assumes "phase s t = T_Waiting a" and "owner s = None" and "step (shared s) a = Some (r, x)"
  shows "\<exists>n s'. run (guarded_step ok enter work result) s
       (E_Lock t a # replicate n (E_Work t) @ [E_Unlock t r, E_Return t r]) s'
     \<and> owner s' = None \<and> shared s' = x \<and> phase s' = (phase s)(t := T_Idle)"
proof -
  let ?s = "s\<lparr>owner := Some t, phase := (phase s)(t := T_Inside (enter a))\<rparr>"
  have l: "guarded_step ok enter work result s (E_Lock t a) ?s" by (rule guarded_step.lock [OF assms(1,2)])
  from body_completes [of ?s "enter a" r x t] assms(3) obtain n u where
    "run (guarded_step ok enter work result) ?s (replicate n (E_Work t) @ [E_Unlock t r]) u"
    "owner u = None" "shared u = x" "phase u = (phase s)(t := T_Returning r)" by (auto simp: rest_enter)
  note u = this
  have "guarded_step ok enter work result u (E_Return t r) (u\<lparr>phase := (phase u)(t := T_Idle)\<rparr>)"
    by (rule guarded_step.return) (simp add: u)
  with u(1) have "run (guarded_step ok enter work result) ?s ((replicate n (E_Work t) @ [E_Unlock t r]) @ [E_Return t r])
      (u\<lparr>phase := (phase u)(t := T_Idle)\<rparr>)"
    by (rule run_snoc)
  from run_cons [where step = "guarded_step ok enter work result", OF l this] show ?thesis
    using u(2-)
    by (intro exI [of _ n] exI [of _ "u\<lparr>phase := (phase u)(t := T_Idle)\<rparr>"]) simp
qed

lemma lock_released:
  assumes "run (guarded_step ok enter work result) (guarded_start x) es s" and "inv x" and "owner s = Some t"
  shows "\<exists>a n r s'. last (locked es) = (t, a) \<and> n \<le> cost (enter a)
     \<and> run (guarded_step ok enter work result) s (replicate n (E_Work t) @ [E_Unlock t r]) s' \<and> owner s' = None"
proof -
  from seq_inv_run [OF assms(1,2)] assms(3) obtain b r y a where
    "phase s t = T_Inside b" "rest (shared s) b = Some (r, y)" "last (locked es) = (t, a)" "cost b \<le> cost (enter a)"
    by (auto simp: seq_inv_def split: prod.splits) (metis prod.collapse)
  with body_completes [of s b r y t] show ?thesis by (meson le_trans)
qed

end

end
