(* ===== verification/Ring_Buffer_Threads.thy ===== *)
theory Ring_Buffer_Threads
  imports Ring_Buffer Monitor
begin

text \<open>
  \<open>RingBuffer<T, N>\<close> used by several threads (\<open>container/ring_buffer.hpp\<close>: "Thread-safe for
  concurrent producer/consumer use via an internal mutex").

  Here a member function is not one transition but the sequence of its statements between the
  \<open>lock_guard\<close> and the return: \<open>rb_work\<close> does one of them (one iteration's test, one store,
  one load), \<open>rb_rest\<close> is what is left to do, in terms of the whole operations of
  \<open>Ring_Buffer\<close>. The interpretation of \<open>monitor\<close> then gives what the comment claims:
  executions are linearizable to the abstract queue, in the order in which the lock is taken.
\<close>

section \<open>The bodies, statement by statement\<close>

datatype 'a rb_body =
    B_Enter "'a rb_op"
  | B_Reset
  | B_Read "'a list" u64 u64
  | B_Peek "'a list" u64 u64
  | B_Write "'a list" u64 u64
  | B_Store "'a list" u64 u64
  | B_Store1 'a
  | B_Result "'a rb_result"

definition clamp :: "'a list \<Rightarrow> u64 \<Rightarrow> u64" where
  "clamp data n = (if vec_size data < n then vec_size data else n)"

text \<open>The test of a write: is a slot free, or to be freed by dropping the oldest element?\<close>

definition make_room :: "'a ring_buffer \<Rightarrow> 'a ring_buffer option" where
  "make_room rb =
     (if (write_index rb + 1) AND size_mask rb = read_index rb AND size_mask rb
      then if \<not> enable_overwrite rb then None else Some (rb\<lparr>read_index := read_index rb + 1\<rparr>)
      else Some rb)"

fun rb_work :: "u64 \<Rightarrow> 'a ring_buffer \<Rightarrow> 'a rb_body \<Rightarrow> ('a ring_buffer \<times> 'a rb_body) option" where
  "rb_work N rb (B_Enter Op_Reset) = Some (rb\<lparr>write_index := 0\<rparr>, B_Reset)"
| "rb_work N rb B_Reset = Some (rb\<lparr>read_index := 0\<rparr>, B_Result R_Unit)"
| "rb_work N rb (B_Enter Op_IsEmpty) = Some (rb, B_Result (R_Bool (IsEmpty rb)))"
| "rb_work N rb (B_Enter Op_IsFull) = Some (rb, B_Result (R_Bool (IsFull rb)))"
| "rb_work N rb (B_Enter Op_GetFreeSize) = Some (rb, B_Result (R_Size (unat (GetFreeSize N rb))))"
| "rb_work N rb (B_Enter Op_GetOccupiedSize) = Some (rb, B_Result (R_Size (unat (GetOccupiedSize rb))))"
| "rb_work N rb (B_Enter (Op_Read_burst data btr)) = Some (rb, B_Read data (clamp data btr) 0)"
| "rb_work N rb (B_Read data btr i) =
     (if i < btr then
        if read_index rb = write_index rb then Some (rb, B_Result (R_Items (unat i) data))
        else map_option (\<lambda>(data', rb'). (rb', B_Read data' btr (i + 1))) (take_slot rb data i)
      else Some (rb, B_Result (R_Items (unat btr) data)))"
| "rb_work N rb (B_Enter (Op_Peek data btp)) =
     Some (rb, B_Peek data (min btp (min (vec_size data) ((write_index rb - read_index rb) AND size_mask rb))) 0)"
| "rb_work N rb (B_Peek data n i) =
     (if i < n then
        case arr_get (buffer rb) ((read_index rb + i) AND size_mask rb) of
          None \<Rightarrow> None
        | Some x \<Rightarrow> map_option (\<lambda>data'. (rb, B_Peek data' n (i + 1))) (arr_set data i x)
      else Some (rb, B_Result (R_Items (unat n) data)))"
| "rb_work N rb (B_Enter (Op_Write_burst xs btw)) = Some (rb, B_Write xs (clamp xs btw) 0)"
| "rb_work N rb (B_Write xs btw i) =
     (if i < btw then
        case make_room rb of
          None \<Rightarrow> Some (rb, B_Result (R_Size (unat i)))
        | Some rb' \<Rightarrow> Some (rb', B_Store xs btw i)
      else Some (rb, B_Result (R_Size (unat btw))))"
| "rb_work N rb (B_Store xs btw i) =
     (case arr_get xs i of
        None \<Rightarrow> None
      | Some x \<Rightarrow> map_option (\<lambda>rb'. (rb', B_Write xs btw (i + 1))) (put_slot rb x))"
| "rb_work N rb (B_Enter (Op_Read d)) =
     map_option (\<lambda>(n, x, rb'). (rb', B_Result (R_Item (unat n) x))) (Read rb d)"
| "rb_work N rb (B_Enter (Op_PeekAt d n)) =
     map_option (\<lambda>(m, x). (rb, B_Result (R_Item (unat m) x))) (PeekAt rb d n)"
| "rb_work N rb (B_Enter (Op_Write x)) =
     (case make_room rb of
        None \<Rightarrow> Some (rb, B_Result (R_Size 0))
      | Some rb' \<Rightarrow> Some (rb', B_Store1 x))"
| "rb_work N rb (B_Store1 x) = map_option (\<lambda>rb'. (rb', B_Result (R_Size 1))) (put_slot rb x)"
| "rb_work N rb (B_Result r) = None"

fun rb_result_of :: "'a rb_body \<Rightarrow> 'a rb_result option" where
  "rb_result_of (B_Result r) = Some r"
| "rb_result_of _ = None"

text \<open>What an uninterrupted body still does.\<close>

fun rb_rest :: "u64 \<Rightarrow> 'a ring_buffer \<Rightarrow> 'a rb_body \<Rightarrow> ('a rb_result \<times> 'a ring_buffer) option" where
  "rb_rest N rb (B_Enter a) = rb_step N rb a"
| "rb_rest N rb B_Reset = Some (R_Unit, rb\<lparr>read_index := 0\<rparr>)"
| "rb_rest N rb (B_Read data btr i) =
     map_option (\<lambda>(n, data', rb'). (R_Items (unat n) data', rb')) (read_loop rb data btr i)"
| "rb_rest N rb (B_Peek data n i) = map_option (\<lambda>data'. (R_Items (unat n) data', rb)) (peek_loop rb data n i)"
| "rb_rest N rb (B_Write xs btw i) =
     map_option (\<lambda>(n, rb'). (R_Size (unat n), rb')) (write_loop rb xs btw i)"
| "rb_rest N rb (B_Store xs btw i) =
     (if i < btw then
        case arr_get xs i of
          None \<Rightarrow> None
        | Some x \<Rightarrow> (case put_slot rb x of
            None \<Rightarrow> None
          | Some rb' \<Rightarrow> map_option (\<lambda>(n, rb'). (R_Size (unat n), rb')) (write_loop rb' xs btw (i + 1)))
      else None)"
| "rb_rest N rb (B_Store1 x) = map_option (\<lambda>rb'. (R_Size 1, rb')) (put_slot rb x)"
| "rb_rest N rb (B_Result r) = Some (r, rb)"

text \<open>The number of statements left.\<close>

fun rb_cost :: "'a rb_body \<Rightarrow> nat" where
  "rb_cost (B_Enter (Op_Read_burst data btr)) = unat (clamp data btr) + 2"
| "rb_cost (B_Enter (Op_Peek data btp)) = unat (clamp data btp) + 2"
| "rb_cost (B_Enter (Op_Write_burst xs btw)) = 2 * unat (clamp xs btw) + 2"
| "rb_cost (B_Enter _) = 2"
| "rb_cost B_Reset = 1"
| "rb_cost (B_Read data btr i) = unat btr - unat i + 1"
| "rb_cost (B_Peek data n i) = unat n - unat i + 1"
| "rb_cost (B_Write xs btw i) = 2 * (unat btw - unat i) + 1"
| "rb_cost (B_Store xs btw i) = 2 * (unat btw - unat i)"
| "rb_cost (B_Store1 x) = 1"
| "rb_cost (B_Result r) = 0"

section \<open>The bodies satisfy the contract of a guarded object\<close>

lemma min_clamp: "min btp (min (vec_size data) m) \<le> clamp data btp"
  by (auto simp: clamp_def min_def)

lemma Write_make_room:
  "Write rb x = (case make_room rb of
     None \<Rightarrow> Some (0, rb)
   | Some rb' \<Rightarrow> map_option (\<lambda>rb''. (1, rb'')) (put_slot rb' x))"
  by (auto simp: Write_def make_room_def split: option.splits bind_splits)

lemma write_loop_make_room:
  "write_loop rb xs btw i =
     (if i < btw then
        case make_room rb of
          None \<Rightarrow> Some (i, rb)
        | Some rb' \<Rightarrow> (case arr_get xs i of
            None \<Rightarrow> None
          | Some x \<Rightarrow> (case put_slot rb' x of
              None \<Rightarrow> None
            | Some rb'' \<Rightarrow> write_loop rb'' xs btw (i + 1)))
      else Some (btw, rb))"
  by (subst write_loop.simps) (simp add: make_room_def Let_def)

lemma next_cost: "i < (n :: u64) \<Longrightarrow> unat n - unat (i + 1) < unat n - unat i"
  by (simp add: unat_Suc_less unat_less_iff diff_less_mono2)

lemma next_cost2: "i < (n :: u64) \<Longrightarrow> 2 * (unat n - unat (i + 1)) + 1 < 2 * (unat n - unat i)"
  using next_cost [of i n] by simp

lemma rb_rest_enter:
  assumes "rb_rest N rb (B_Enter a) = Some z"
  shows "\<exists>rb' b'. rb_work N rb (B_Enter a) = Some (rb', b') \<and> rb_rest N rb' b' = Some z
     \<and> rb_cost b' < rb_cost (B_Enter a)"
proof (cases a)
  case (Op_Peek data btp)
  with assms min_clamp [of btp data] show ?thesis
    by (auto simp: Peek_def Let_def word_le_nat_alt le_imp_less_Suc)
next
  case (Op_Write x)
  with assms show ?thesis by (auto simp: Write_make_room split: option.splits)
qed (use assms in \<open>auto simp: Reset_def Read_burst_def Write_burst_def clamp_def Let_def\<close>)

lemma rb_rest_work:
  assumes "rb_rest N rb b = Some z" and "rb_result_of b = None"
  shows "\<exists>rb' b'. rb_work N rb b = Some (rb', b') \<and> rb_rest N rb' b' = Some z \<and> rb_cost b' < rb_cost b"
proof (cases b)
  case (B_Enter a)
  with assms rb_rest_enter show ?thesis by blast
next
  case (B_Read data btr i)
  with assms next_cost [of i btr] show ?thesis
    by (auto simp: read_loop.simps [of rb data btr i] split: if_splits option.splits)
next
  case (B_Peek data n i)
  with assms next_cost [of i n] show ?thesis
    by (auto simp: peek_loop.simps [of rb data n i] split: if_splits option.splits)
next
  case (B_Write xs btw i)
  with assms show ?thesis
    by (auto simp: write_loop_make_room [of rb xs btw i] split: if_splits option.splits)
next
  case (B_Store xs btw i)
  with assms next_cost2 [of i btw] show ?thesis by (auto split: if_splits option.splits)
qed (use assms in auto)

interpretation rb_threads: monitor "rb_step (2 ^ k)" "queue_spec (2 ^ k - 1) overwrite" vectors_ok
    "ring_of k overwrite" contents B_Enter "rb_work (2 ^ k)" rb_result_of "rb_rest (2 ^ k)" rb_cost
  for k overwrite
proof unfold_locales
  show "rb_result_of b = Some r \<Longrightarrow> rb_rest (2 ^ k) x b = Some (r, x)" for b :: "'a rb_body" and r x
    by (cases b) auto
  show "rb_result_of b \<noteq> None \<Longrightarrow> rb_work (2 ^ k) x b = None" for b :: "'a rb_body" and x
    by (cases b) auto
qed (auto intro: rb_rest_work)

section \<open>Properties\<close>

definition rb_threads_step ::
    "u64 \<Rightarrow> ('a ring_buffer, 'a rb_op, 'a rb_body, 'a rb_result) guarded \<Rightarrow> ('a rb_op, 'a rb_result) guarded_event
     \<Rightarrow> ('a ring_buffer, 'a rb_op, 'a rb_body, 'a rb_result) guarded \<Rightarrow> bool" where
  "rb_threads_step N = guarded_step vectors_ok B_Enter (rb_work N) rb_result_of"

lemma new_ring:
  assumes "k < 64" and "length init = 2 ^ k" and "RingBuffer (2 ^ k) init overwrite = Some rb"
  shows "ring_of k overwrite rb" and "contents rb = []"
  using RingBuffer_contents [OF assms(1,2), of overwrite] assms(3) by auto

text \<open>C21. Thread safety: any number of threads calling any operations on one ring, interleaved
  statement by statement, is linearizable. The results returned to each thread are, in order,
  those the abstract queue gives when the operations are run one after the other in the order
  in which they took the lock; whenever the lock is free the ring holds the queue's elements;
  and that order respects real time: at every moment a thread's returned calls have taken the
  lock, and those that have taken it are the first of its calls.\<close>

theorem ring_buffer_linearizable:
  assumes "k < 64" and "length init = 2 ^ k" and "RingBuffer (2 ^ k) init overwrite = Some rb"
    and "run (rb_threads_step (2 ^ k)) (guarded_start rb) (es1 @ es2) s"
    and "run_spec (queue_spec (2 ^ k - 1) overwrite) [] (map snd (locked (es1 @ es2))) = (rs, q)"
  shows "(owner s = None \<longrightarrow> contents (shared s) = q)
    \<and> (\<exists>n. returned_to t (es1 @ es2) = take n (of_thread t (zip (map fst (locked (es1 @ es2))) rs)))
    \<and> length (returned_to t es1) \<le> length (of_thread t (locked es1))
    \<and> of_thread t (locked es1) = take (length (of_thread t (locked es1))) (calls_of t es1)"
proof -
  note r = assms(4) [unfolded rb_threads_step_def] and new = new_ring [OF assms(1-3)]
  from run_cut [OF r refl] obtain m where
    m: "run (guarded_step vectors_ok B_Enter (rb_work (2 ^ k)) rb_result_of) (guarded_start rb) es1 m" by blast
  show ?thesis
    using rb_threads.linearizable [OF r new(1)] new(2) assms(5) real_time [OF m] by auto
qed

theorem ring_buffer_linearizable_witness:
  "\<exists>rb es s. RingBuffer (2 ^ 2) [0, 0, 0, 0 :: u8] False = Some rb
     \<and> run (rb_threads_step (2 ^ 2)) (guarded_start rb) es s
     \<and> locked es = [(0, Op_Write 5), (1, Op_Read 9)] \<and> returned_to 1 es = [R_Item 1 5]
     \<and> contents (shared s) = []"
proof -
  let ?rb = "\<lparr>buffer = [0, 0, 0, 0 :: u8], size_mask = 3, write_index = 0, read_index = 0, enable_overwrite = False\<rparr>"
  let ?turns = "[Call_Op 0 (Op_Write 5), Go 0, Call_Op 1 (Op_Read 9), Go 0, Go 0, Go 0,
    Go 1, Go 1, Go 1, Go 1, Go 0]"
  have "case run_ops (guarded_do vectors_ok B_Enter (rb_work (2 ^ 2)) rb_result_of) (guarded_start ?rb) ?turns of
      None \<Rightarrow> False
    | Some (es, s) \<Rightarrow> locked es = [(0, Op_Write 5), (1, Op_Read 9)] \<and> owner s = None
        \<and> returned_to 1 es = [R_Item 1 5]"
    by code_simp
  then obtain es s where "run (rb_threads_step (2 ^ 2)) (guarded_start ?rb) es s"
    and es: "locked es = [(0, Op_Write 5), (1, Op_Read 9)]" "owner s = None" "returned_to 1 es = [R_Item 1 5]"
    unfolding rb_threads_step_def by (rule guarded_replayE) blast
  then have r: "run (rb_threads_step (2 ^ 2)) (guarded_start ?rb) (es @ []) s" by simp
  have rb: "RingBuffer (2 ^ 2) [0, 0, 0, 0 :: u8] False = Some ?rb"
    by (simp add: RingBuffer_def is_pow2_def)
  have "run_spec (queue_spec (2 ^ 2 - 1) False) [] (map snd (locked (es @ []))) = ([R_Size 1, R_Item 1 5], [])"
    by (simp add: es)
  from ring_buffer_linearizable [OF _ _ rb r this, of 1] es rb r show ?thesis by auto
qed

text \<open>The lock does its work: two threads are never inside the ring at once, the one inside
  never meets an access outside an array, and running on its own it gives the lock back after
  at most as many statements as its operation costs (two per element of the caller's vector,
  and two), so no waiting thread is blocked for ever by the ring itself.\<close>

theorem ring_buffer_mutual_exclusion:
  assumes "k < 64" and "length init = 2 ^ k" and "RingBuffer (2 ^ k) init overwrite = Some rb"
    and "run (rb_threads_step (2 ^ k)) (guarded_start rb) es s" and "phase s t = T_Inside b"
  shows "(\<forall>u b'. phase s u = T_Inside b' \<longrightarrow> u = t)
    \<and> (rb_result_of b = None \<longrightarrow> rb_work (2 ^ k) (shared s) b \<noteq> None)
    \<and> (\<exists>a n r s'. last (locked es) = (t, a) \<and> n \<le> rb_cost (B_Enter a)
         \<and> run (rb_threads_step (2 ^ k)) s (replicate n (E_Work t) @ [E_Unlock t r]) s' \<and> owner s' = None)"
proof -
  note r = assms(4) [unfolded rb_threads_step_def] and new = new_ring [OF assms(1-3)]
  note ex = rb_threads.exclusion [OF r new(1)]
  from ex [OF assms(5)] have "owner s = Some t" by simp
  with ex ex [OF assms(5)] rb_threads.lock_released [OF r new(1), of t] show ?thesis
    unfolding rb_threads_step_def by auto
qed

theorem ring_buffer_mutual_exclusion_witness:
  "\<exists>rb es s. run (rb_threads_step (2 ^ 2)) (guarded_start rb) es s
     \<and> calls_of 1 es = [Op_Read (9 :: u8)] \<and> phase s 0 = T_Inside (B_Store1 5)
     \<and> (\<forall>u b'. phase s u = T_Inside b' \<longrightarrow> u = 0)"
proof -
  let ?rb = "\<lparr>buffer = [0, 0, 0, 0 :: u8], size_mask = 3, write_index = 0, read_index = 0, enable_overwrite = False\<rparr>"
  let ?turns = "[Call_Op 0 (Op_Write 5), Go 0, Call_Op 1 (Op_Read 9), Go 0]"
  have "case run_ops (guarded_do vectors_ok B_Enter (rb_work (2 ^ 2)) rb_result_of) (guarded_start ?rb) ?turns of
      None \<Rightarrow> False
    | Some (es, s) \<Rightarrow> calls_of 1 es = [Op_Read 9] \<and> phase s 0 = T_Inside (B_Store1 5)"
    by code_simp
  then obtain es s where r: "run (rb_threads_step (2 ^ 2)) (guarded_start ?rb) es s"
    and es: "calls_of 1 es = [Op_Read 9]" "phase s 0 = T_Inside (B_Store1 5)"
    unfolding rb_threads_step_def by (rule guarded_replayE) blast
  have rb: "RingBuffer (2 ^ 2) [0, 0, 0, 0 :: u8] False = Some ?rb"
    by (simp add: RingBuffer_def is_pow2_def)
  from ring_buffer_mutual_exclusion [OF _ _ rb r es(2)] es r show ?thesis by auto
qed

end
