(* ===== verification/Logging_Utils.thy ===== *)
theory Logging_Utils
  imports Prelude
begin

text \<open>
  The log levels of \<open>logger_interface.hpp\<close>, their translation to and from spdlog's, and the
  environment, process-name and file-name helpers of \<open>logging_utils.hpp\<close>; the properties are on the POSIX branches.

  The process environment is a function \<open>env\<close> from names to values, the link read from
  \<open>/proc/self/exe\<close> and the broken-down local time are arguments; \<open>strtol\<close> and \<open>strftime\<close>
  are standard library functions and are modelled here as far as the code uses them.
\<close>

section \<open>Levels\<close>

datatype LogLevel = kTrace | kDebug | kInfo | kWarn | kError | kFatal | kOff

fun level_code :: "LogLevel \<Rightarrow> int" where
  "level_code kTrace = 0"
| "level_code kDebug = 1"
| "level_code kInfo = 2"
| "level_code kWarn = 3"
| "level_code kError = 4"
| "level_code kFatal = 5"
| "level_code kOff = 6"

text \<open>\<open>static_cast<LogLevel>\<close> of a value that names a level.\<close>

definition level_of_code :: "int \<Rightarrow> LogLevel" where
  "level_of_code n =
     (if n = 0 then kTrace else if n = 1 then kDebug else if n = 2 then kInfo
      else if n = 3 then kWarn else if n = 4 then kError else if n = 5 then kFatal else kOff)"

lemma level_code_inject: "level_code a = level_code b \<longleftrightarrow> a = b"
  by (cases a; cases b) auto

lemma level_of_code_level_code [simp]: "level_of_code (level_code l) = l"
  by (cases l) (auto simp: level_of_code_def)

lemma level_code_bounds: "0 \<le> level_code l" "level_code l \<le> 6"
  by (cases l; simp)+

lemma level_code_level_of_code [simp]: "0 \<le> n \<Longrightarrow> n \<le> 6 \<Longrightarrow> level_code (level_of_code n) = n"
  by (auto simp: level_of_code_def)

text \<open>The comparison of two levels is that of the underlying integers.\<close>

instantiation LogLevel :: linorder
begin

definition less_eq_LogLevel :: "LogLevel \<Rightarrow> LogLevel \<Rightarrow> bool" where
  "less_eq_LogLevel a b \<longleftrightarrow> level_code a \<le> level_code b"

definition less_LogLevel :: "LogLevel \<Rightarrow> LogLevel \<Rightarrow> bool" where
  "less_LogLevel a b \<longleftrightarrow> level_code a < level_code b"

instance
  by standard (auto simp: less_eq_LogLevel_def less_LogLevel_def level_code_inject)

end

definition default_log_level :: LogLevel where
  "default_log_level = kInfo"

text \<open>The constants of \<open>spdlog::level::level_enum\<close> the code names, and any other value.\<close>

datatype spd_level = spd_trace | spd_debug | spd_info | spd_warn | spd_err | spd_critical | spd_off | spd_other

definition ToSpdlogLevel :: "LogLevel \<Rightarrow> spd_level" where
  "ToSpdlogLevel level = (case level of
     kTrace \<Rightarrow> spd_trace | kDebug \<Rightarrow> spd_debug | kInfo \<Rightarrow> spd_info | kWarn \<Rightarrow> spd_warn
   | kError \<Rightarrow> spd_err | kFatal \<Rightarrow> spd_critical | _ \<Rightarrow> spd_off)"

definition FromSpdlogLevel :: "spd_level \<Rightarrow> LogLevel" where
  "FromSpdlogLevel level = (case level of
     spd_trace \<Rightarrow> kTrace | spd_debug \<Rightarrow> kDebug | spd_info \<Rightarrow> kInfo | spd_warn \<Rightarrow> kWarn
   | spd_err \<Rightarrow> kError | spd_critical \<Rightarrow> kFatal | _ \<Rightarrow> kOff)"

lemma FromSpdlogLevel_ToSpdlogLevel [simp]: "FromSpdlogLevel (ToSpdlogLevel l) = l"
  by (cases l) (auto simp: ToSpdlogLevel_def FromSpdlogLevel_def)

lemma ToSpdlogLevel_inject [simp]: "ToSpdlogLevel a = ToSpdlogLevel b \<longleftrightarrow> a = b"
  by (metis FromSpdlogLevel_ToSpdlogLevel)

section \<open>Environment\<close>

type_synonym environment = "string \<Rightarrow> string option"

definition GetEnvironmentVariable :: "environment \<Rightarrow> string \<Rightarrow> string" where
  "GetEnvironmentVariable env name = (case env name of Some value \<Rightarrow> value | None \<Rightarrow> [])"

text \<open>
  \<open>strtol\<close> in base 10: optional white space, an optional sign, decimal digits, saturating at
  the ends of \<open>long\<close>. The second component is the part after the number (\<open>end\<close>), \<open>None\<close> when
  no digit was found, in which case the C function sets \<open>end\<close> to the start.
\<close>

definition is_space :: "char \<Rightarrow> bool" where
  "is_space c \<longleftrightarrow> c = CHR '' '' \<or> (9 \<le> (of_char c :: nat) \<and> (of_char c :: nat) \<le> 13)"

definition is_digit :: "char \<Rightarrow> bool" where
  "is_digit c \<longleftrightarrow> 48 \<le> (of_char c :: nat) \<and> (of_char c :: nat) \<le> 57"

definition digit_value :: "char \<Rightarrow> int" where
  "digit_value c = int (of_char c :: nat) - 48"

fun decimal :: "int \<Rightarrow> string \<Rightarrow> int" where
  "decimal acc [] = acc"
| "decimal acc (c # cs) = decimal (10 * acc + digit_value c) cs"

definition saturate_long :: "int \<Rightarrow> int" where
  "saturate_long n = max (- (2 ^ 63)) (min (2 ^ 63 - 1) n)"

definition strtol10 :: "string \<Rightarrow> int \<times> string option" where
  "strtol10 s =
     (let t = dropWhile is_space s;
          neg = (t \<noteq> [] \<and> hd t = CHR ''-'');
          u = (if t \<noteq> [] \<and> (hd t = CHR ''-'' \<or> hd t = CHR ''+'') then tl t else t);
          ds = takeWhile is_digit u
      in if ds = [] then (0, None)
         else (saturate_long (if neg then - decimal 0 ds else decimal 0 ds), Some (dropWhile is_digit u)))"

definition ResolveLogLevelFromEnv :: "environment \<Rightarrow> LogLevel \<Rightarrow> LogLevel" where
  "ResolveLogLevelFromEnv env fallback =
     (let value = GetEnvironmentVariable env ''XLOG_LEVEL''
      in if value = [] then fallback
         else case strtol10 value of (level, end_ptr) \<Rightarrow>
           if end_ptr = None \<or> level < 0 \<or> level > 6 then fallback else level_of_code level)"

section \<open>Process name and paths\<close>

text \<open>\<open>full.substr(full.find_last_of('/') + 1)\<close>; without a slash \<open>npos + 1\<close> is 0.\<close>

definition after_last_slash :: "string \<Rightarrow> string" where
  "after_last_slash full = rev (takeWhile (\<lambda>c. c \<noteq> CHR ''/'') (rev full))"

text \<open>
  Linux: \<open>readlink\<close> fails (\<open>None\<close>) or yields a path, of which at most 1023 bytes fit the
  buffer; the string built from the buffer stops at the first NUL byte.
\<close>

definition GetCurrentProcessName :: "string option \<Rightarrow> string" where
  "GetCurrentProcessName exe = (case exe of
     None \<Rightarrow> []
   | Some target \<Rightarrow> after_last_slash (takeWhile (\<lambda>c. c \<noteq> CHR 0x00) (take 1023 target)))"

text \<open>
  The other platforms. Windows: \<open>n\<close> and \<open>buffer\<close> are the result and the contents of the buffer of
  \<open>GetEnvironmentVariableA\<close>, \<open>buffer\<close> that of \<open>GetModuleFileNameA\<close>. macOS: the result and the
  buffer of \<open>proc_name\<close>. A string built from a buffer stops at the first NUL byte.
\<close>

definition c_string :: "string \<Rightarrow> string" where
  "c_string buffer = takeWhile (\<lambda>c. c \<noteq> CHR 0x00) buffer"

definition GetEnvironmentVariable_Windows :: "nat \<Rightarrow> string \<Rightarrow> string" where
  "GetEnvironmentVariable_Windows n buffer = (if n > 0 \<and> n \<le> 32767 then c_string buffer else [])"

definition GetCurrentProcessName_Windows :: "string \<Rightarrow> string" where
  "GetCurrentProcessName_Windows buffer =
     rev (takeWhile (\<lambda>c. c \<noteq> CHR 0x5C \<and> c \<noteq> CHR ''/'') (rev (c_string buffer)))"

definition GetCurrentProcessName_Apple :: "int \<Rightarrow> string \<Rightarrow> string" where
  "GetCurrentProcessName_Apple n buffer = (if n > 0 then c_string buffer else [])"

definition GetCurrentProcessName_Other :: string where
  "GetCurrentProcessName_Other = ''Unsupported Platform''"

definition GetDefaultRootPath :: "environment \<Rightarrow> string" where
  "GetDefaultRootPath env = (case env ''HOME'' of Some home \<Rightarrow> home | None \<Rightarrow> ''/tmp'') @ ''/.xmotion''"

definition GetLogFolderPath :: "environment \<Rightarrow> string" where
  "GetLogFolderPath env = GetDefaultRootPath env @ ''/log''"

definition GetDefaultLogPath :: "environment \<Rightarrow> string" where
  "GetDefaultLogPath env =
     (let configured = GetEnvironmentVariable env ''XLOG_FOLDER''
      in if configured = [] then GetLogFolderPath env else configured)"

section \<open>File names\<close>

text \<open>The fields of \<open>struct tm\<close> that the formats use.\<close>

record tm =
  tm_year :: nat
  tm_mon :: nat
  tm_mday :: nat
  tm_hour :: nat
  tm_min :: nat
  tm_sec :: nat

definition digit_char :: "nat \<Rightarrow> char" where
  "digit_char n = char_of (48 + n mod 10)"

text \<open>Decimal digits of a number, padded with zeros to a minimal width of \<open>w\<close>.\<close>

fun digits :: "nat \<Rightarrow> nat \<Rightarrow> string" where
  "digits 0 n = (if n = 0 then [] else digits 0 (n div 10) @ [digit_char n])"
| "digits (Suc w) n = digits w (n div 10) @ [digit_char n]"

declare digits.simps [simp del]

text \<open>
  The conversions of \<open>strftime\<close> that the code uses; \<open>tm_year\<close> counts from 1900 and
  \<open>tm_mon\<close> from 0. The buffers of 80 bytes have room for every result.
\<close>

definition strftime_Ymd :: "tm \<Rightarrow> string" where
  "strftime_Ymd t = digits 1 (tm_year t + 1900) @ digits 2 (tm_mon t + 1) @ digits 2 (tm_mday t)"

definition strftime_HMS :: "tm \<Rightarrow> string" where
  "strftime_HMS t = digits 2 (tm_hour t) @ digits 2 (tm_min t) @ digits 2 (tm_sec t)"

definition CreateLogFileName :: "tm \<Rightarrow> string \<Rightarrow> string \<Rightarrow> string" where
  "CreateLogFileName now prefix path =
     path @ ''/'' @ prefix @ ''.'' @ (strftime_Ymd now @ strftime_HMS now) @ ''.csv''"

definition CreateLogNameWithFullPath :: "environment \<Rightarrow> tm \<Rightarrow> string \<Rightarrow> string \<Rightarrow> string" where
  "CreateLogNameWithFullPath env now prefix suffix =
     (let ts = strftime_Ymd now @ ''-'' @ strftime_HMS now;
          day = strftime_Ymd now
      in GetDefaultLogPath env @ ''/'' @ day @ ''/'' @ prefix @ ''-'' @ ts @ suffix)"

section \<open>Parsing lemmas\<close>

lemma of_digit_char: "(of_char (digit_char n) :: nat) = 48 + n mod 10"
  unfolding digit_char_def by (simp only: of_char_of, rule mod_less) (use mod_less_divisor [of 10 n] in linarith)

lemma digit_not_space: "is_digit c \<Longrightarrow> \<not> is_space c"
  by (auto simp: is_digit_def is_space_def)

lemma digit_not_sign: "is_digit c \<Longrightarrow> c \<noteq> CHR ''-'' \<and> c \<noteq> CHR ''+''"
  by (auto simp: is_digit_def)

lemma digit_value_nonneg: "is_digit c \<Longrightarrow> 0 \<le> digit_value c"
  by (simp add: is_digit_def digit_value_def)

lemma decimal_nonneg: "list_all is_digit ds \<Longrightarrow> 0 \<le> acc \<Longrightarrow> 0 \<le> decimal acc ds"
  by (induction acc ds rule: decimal.induct) (auto simp: digit_value_nonneg)

lemma takeWhile_prefix: "list_all P xs \<Longrightarrow> ys = [] \<or> \<not> P (hd ys) \<Longrightarrow> takeWhile P (xs @ ys) = xs"
  by (induction xs) (cases ys; auto)+

lemma dropWhile_prefix: "list_all P xs \<Longrightarrow> ys = [] \<or> \<not> P (hd ys) \<Longrightarrow> dropWhile P (xs @ ys) = ys"
  by (induction xs) (cases ys; auto)+

lemma strtol10_number:
  assumes "list_all is_space ws" and "sign \<in> {[], ''+'', ''-''}" and "ds \<noteq> []" and "list_all is_digit ds"
    and "rest = [] \<or> \<not> is_digit (hd rest)"
  shows "strtol10 (ws @ sign @ ds @ rest)
    = (saturate_long (if sign = ''-'' then - decimal 0 ds else decimal 0 ds), Some rest)"
proof -
  from assms(3,4) obtain d es where ds: "ds = d # es" and d: "is_digit d"
    by (cases ds) auto
  have no_space: "\<not> is_space (hd ds)" "\<not> is_space CHR ''+''" "\<not> is_space CHR ''-''"
    by (simp add: ds digit_not_space d) (simp add: is_space_def)+
  have hd_ds: "hd ds \<noteq> CHR ''-''" "hd ds \<noteq> CHR ''+''"
    using digit_not_sign [OF d] by (simp_all add: ds)
  have ws: "dropWhile is_space (ws @ sign @ ds @ rest) = sign @ ds @ rest"
    by (rule dropWhile_prefix [OF assms(1)]) (use assms(2,3) no_space in \<open>auto simp: hd_append\<close>)
  have t: "takeWhile is_digit (ds @ rest) = ds" "dropWhile is_digit (ds @ rest) = rest"
    using assms(4,5) by (auto intro: takeWhile_prefix dropWhile_prefix)
  consider "sign = []" | "sign = ''+''" | "sign = ''-''" using assms(2) by blast
  then show ?thesis
    unfolding strtol10_def ws Let_def
    by cases (simp_all add: t assms(3) hd_ds)
qed

lemma strtol10_no_digit: "list_all (\<lambda>c. \<not> is_digit c) s \<Longrightarrow> snd (strtol10 s) = None"
proof -
  assume s: "list_all (\<lambda>c. \<not> is_digit c) s"
  define t where "t = dropWhile is_space s"
  define u where "u = (if t \<noteq> [] \<and> (hd t = CHR ''-'' \<or> hd t = CHR ''+'') then tl t else t)"
  have "set u \<subseteq> set s"
    using set_dropWhileD [of _ is_space s] list.set_sel(2) [of t]
    by (auto simp: u_def t_def split: if_splits)
  with s have "takeWhile is_digit u = []"
    by (cases u) (auto simp: list_all_iff)
  then show ?thesis by (simp only: strtol10_def Let_def u_def t_def) simp
qed

section \<open>File-name lemmas\<close>

lemma decimal_append: "decimal acc (xs @ ys) = decimal (decimal acc xs) ys"
  by (induction acc xs rule: decimal.induct) auto

lemma digit_value_digit_char: "digit_value (digit_char n) = int (n mod 10)"
proof -
  have "48 + n mod 10 < 256" by simp
  then have "of_char (digit_char n) = 48 + n mod 10"
    unfolding digit_char_def of_char_of by (intro mod_less)
  then show ?thesis by (simp add: digit_value_def)
qed

lemma decimal_digits: "decimal 0 (digits w n) = int n"
proof -
  have ten: "10 * int (m div 10) + int (m mod 10) = int m" for m
    by (metis mult_div_mod_eq of_nat_add of_nat_mult of_nat_numeral)
  show ?thesis
  proof (induction w n rule: digits.induct)
    case (1 n)
    then show ?case
      by (subst digits.simps(1)) (simp add: decimal_append digit_value_digit_char ten del: of_nat_mod of_nat_div)
  next
    case (2 w n)
    then show ?case
      by (simp only: digits.simps(2) decimal_append decimal.simps digit_value_digit_char ten)
  qed
qed

lemma length_digits: "n < 10 ^ w \<Longrightarrow> length (digits w n) = w"
proof (induction w arbitrary: n)
  case 0
  then show ?case by (subst digits.simps) simp
next
  case (Suc w)
  then show ?case by (simp add: digits.simps(2))
qed

lemma digits_inject: "digits w m = digits w n \<Longrightarrow> m = n"
  by (metis decimal_digits of_nat_eq_iff)

lemma saturate_long_range: "0 \<le> saturate_long n \<and> saturate_long n \<le> 6 \<longleftrightarrow> 0 \<le> n \<and> n \<le> 6"
  by (auto simp: saturate_long_def min_def max_def)

lemma saturate_long_small: "0 \<le> n \<Longrightarrow> n \<le> 6 \<Longrightarrow> saturate_long n = n"
  by (simp add: saturate_long_def)

lemma ResolveLogLevelFromEnv_number:
  assumes "env ''XLOG_LEVEL'' = Some (ws @ sign @ ds @ rest)"
    and "list_all is_space ws" and "sign \<in> {[], ''+'', ''-''}" and "ds \<noteq> []" and "list_all is_digit ds"
    and "rest = [] \<or> \<not> is_digit (hd rest)"
  shows "ResolveLogLevelFromEnv env fallback =
    (let n = (if sign = ''-'' then - decimal 0 ds else decimal 0 ds)
     in if 0 \<le> n \<and> n \<le> 6 then level_of_code n else fallback)"
proof -
  define n where "n = (if sign = ''-'' then - decimal 0 ds else decimal 0 ds)"
  have "ResolveLogLevelFromEnv env fallback =
      (if saturate_long n < 0 \<or> saturate_long n > 6 then fallback else level_of_code (saturate_long n))"
    using strtol10_number [OF assms(2-6)] assms(1,4)
    by (simp add: ResolveLogLevelFromEnv_def GetEnvironmentVariable_def n_def [symmetric])
  also have "\<dots> = (if 0 \<le> n \<and> n \<le> 6 then level_of_code n else fallback)"
    using saturate_long_range [of n] saturate_long_small [of n] by (auto simp: not_less)
  finally show ?thesis by (simp only: n_def Let_def)
qed

lemma length_strftime_Ymd:
  assumes "tm_year t \<le> 8099" and "tm_mon t < 12" and "tm_mday t \<le> 31"
  shows "strftime_Ymd t = digits 4 (tm_year t + 1900) @ digits 2 (tm_mon t + 1) @ digits 2 (tm_mday t)"
proof -
  have "digits 1 n = digits 4 n" if "1900 \<le> n" for n
  proof -
    have q: "digits 0 m = digits (Suc 0) m" if "0 < m" for m
      using that by (simp add: digits.simps(1) [of m] digits.simps(2))
    have r: "digits (Suc w) m = digits (Suc (Suc w)) m" if "10 ^ (Suc w) \<le> m" for w m
      using that
    proof (induction w arbitrary: m)
      case 0
      then have "0 < m div 10" by simp
      then have "digits 0 (m div 10) = digits (Suc 0) (m div 10)" by (rule q)
      then show ?case by (simp only: digits.simps(2) [of "Suc 0" m] digits.simps(2) [of 0 m])
    next
      case (Suc w)
      then have "10 ^ Suc w \<le> m div 10" by simp
      from Suc.IH [OF this] show ?case by (simp add: digits.simps(2))
    qed
    from r [of 0 n] r [of 1 n] r [of 2 n] that show ?thesis by (simp add: numeral_eq_Suc)
  qed
  then show ?thesis by (simp add: strftime_Ymd_def)
qed

definition valid_tm :: "tm \<Rightarrow> bool" where
  "valid_tm t \<longleftrightarrow> tm_year t \<le> 8099 \<and> tm_mon t < 12 \<and> tm_mday t \<le> 31 \<and> tm_hour t \<le> 23
     \<and> tm_min t \<le> 59 \<and> tm_sec t \<le> 60"

lemma length_stamp:
  assumes "valid_tm t"
  shows "length (strftime_Ymd t) = 8" and "length (strftime_HMS t) = 6"
  using assms by (simp_all add: valid_tm_def length_strftime_Ymd strftime_HMS_def length_digits)

lemma strftime_inject:
  assumes "valid_tm t" and "valid_tm u" and "strftime_Ymd t = strftime_Ymd u" and "strftime_HMS t = strftime_HMS u"
  shows "t = u"
proof -
  from assms(1,2) have l: "length (digits 4 (tm_year v + 1900)) = 4" "length (digits 2 (Suc (tm_mon v))) = 2"
    "length (digits 2 (tm_hour v)) = 2" "length (digits 2 (tm_min v)) = 2" if "v \<in> {t, u}" for v
    using that by (auto simp: valid_tm_def length_digits)
  from assms(1-3) have "digits 4 (tm_year t + 1900) = digits 4 (tm_year u + 1900)"
    "digits 2 (tm_mon t + 1) = digits 2 (tm_mon u + 1)" "digits 2 (tm_mday t) = digits 2 (tm_mday u)"
    by (auto simp: valid_tm_def length_strftime_Ymd append_eq_append_conv l)
  moreover from assms(4) have "digits 2 (tm_hour t) = digits 2 (tm_hour u)"
    "digits 2 (tm_min t) = digits 2 (tm_min u)" "digits 2 (tm_sec t) = digits 2 (tm_sec u)"
    by (auto simp: strftime_HMS_def append_eq_append_conv l)
  ultimately show ?thesis by (auto dest!: digits_inject intro!: tm.equality)
qed

section \<open>Properties\<close>



text \<open>File names: the runtime log file of two different seconds never has the same name,
  nor has the data file of two different seconds; the time stamps have a fixed width that
  fits the 80-byte buffers, and the day directory is the date of the stamp.\<close>

theorem log_file_names:
  assumes "valid_tm t" and "valid_tm u"
  shows "(CreateLogNameWithFullPath env t prefix suffix = CreateLogNameWithFullPath env u prefix suffix \<longleftrightarrow> t = u)
    \<and> (CreateLogFileName t prefix path = CreateLogFileName u prefix path \<longleftrightarrow> t = u)
    \<and> length (strftime_Ymd t @ ''-'' @ strftime_HMS t) = 15
    \<and> (\<exists>rest. CreateLogNameWithFullPath env t prefix suffix
           = GetDefaultLogPath env @ ''/'' @ strftime_Ymd t @ ''/'' @ prefix @ ''-'' @ strftime_Ymd t @ rest)"
proof (intro conjI)
  note len = length_stamp [OF assms(1)] length_stamp [OF assms(2)]
  show "CreateLogNameWithFullPath env t prefix suffix = CreateLogNameWithFullPath env u prefix suffix \<longleftrightarrow> t = u"
    using strftime_inject [OF assms]
    by (auto simp: CreateLogNameWithFullPath_def Let_def append_eq_append_conv len)
  show "CreateLogFileName t prefix path = CreateLogFileName u prefix path \<longleftrightarrow> t = u"
    using strftime_inject [OF assms]
    by (auto simp: CreateLogFileName_def append_eq_append_conv len)
qed (simp_all add: length_stamp [OF assms(1)] CreateLogNameWithFullPath_def Let_def)

theorem log_file_names_witness:
  "CreateLogFileName \<lparr>tm_year = 126, tm_mon = 6, tm_mday = 4, tm_hour = 9, tm_min = 0, tm_sec = 59\<rparr> ''run'' ''/tmp''
   \<noteq> CreateLogFileName \<lparr>tm_year = 126, tm_mon = 6, tm_mday = 4, tm_hour = 9, tm_min = 1, tm_sec = 0\<rparr> ''run'' ''/tmp''"
  using log_file_names [of "\<lparr>tm_year = 126, tm_mon = 6, tm_mday = 4, tm_hour = 9, tm_min = 0, tm_sec = 59\<rparr>"
      "\<lparr>tm_year = 126, tm_mon = 6, tm_mday = 4, tm_hour = 9, tm_min = 1, tm_sec = 0\<rparr>" "\<lambda>_. None" "''run''" "[]" "''/tmp''"]
  by (simp add: valid_tm_def)

text \<open>The process name is the file name of the executable: for a link \<open>dir/name\<close> that fits
  the buffer it is \<open>name\<close>; it never contains a slash and is empty when the link cannot be
  read.\<close>

theorem process_name_is_basename:
  "(list_all (\<lambda>c. c \<noteq> CHR ''/'' \<and> c \<noteq> CHR 0x00) name \<and> CHR 0x00 \<notin> set dir \<and> length (dir @ ''/'' @ name) \<le> 1023
      \<longrightarrow> GetCurrentProcessName (Some (dir @ ''/'' @ name)) = name)
   \<and> CHR ''/'' \<notin> set (GetCurrentProcessName exe) \<and> GetCurrentProcessName None = []"
proof (intro conjI impI)
  assume a: "list_all (\<lambda>c. c \<noteq> CHR ''/'' \<and> c \<noteq> CHR 0x00) name \<and> CHR 0x00 \<notin> set dir \<and> length (dir @ ''/'' @ name) \<le> 1023"
  then have "takeWhile (\<lambda>c. c \<noteq> CHR 0x00) (dir @ ''/'' @ name) = dir @ ''/'' @ name"
    by (auto simp: takeWhile_eq_all_conv list_all_iff)
  moreover have "takeWhile (\<lambda>c. c \<noteq> CHR ''/'') (rev name @ ''/'' @ rev dir) = rev name"
    using a by (intro takeWhile_prefix) (auto simp: list_all_iff)
  moreover have "take 1023 (dir @ ''/'' @ name) = dir @ ''/'' @ name"
    using a by (intro take_all) simp
  ultimately show "GetCurrentProcessName (Some (dir @ ''/'' @ name)) = name"
    by (simp only: GetCurrentProcessName_def after_last_slash_def option.case) simp
next
  show "CHR ''/'' \<notin> set (GetCurrentProcessName exe)"
    by (auto simp: GetCurrentProcessName_def after_last_slash_def dest: set_takeWhileD split: option.splits)
qed (simp add: GetCurrentProcessName_def)

theorem process_name_is_basename_witness:
  "GetCurrentProcessName (Some ''/usr/bin/robot'') = ''robot''"
  using process_name_is_basename [of "''robot''" "''/usr/bin''" None] by simp

end
