(* ===== verification/Rt_Common.thy ===== *)
theory Rt_Common
  imports Logging_Utils
begin

text \<open>
  What the two hard real-time loggers share: \<open>rt_detail::FormatInto\<close>, the rounding of the
  ring capacity in both constructors, and the record a log call leaves for the drain thread.

  Formatting itself is done by the fmt library, which is not part of the repository. Its
  documented behaviour enters as a value of \<open>fmt_outcome\<close>: either the full text, of which
  \<open>format_to_n\<close> stores at most \<open>cap\<close> characters while it reports the length of all of it,
  or an exception after some characters have been stored.
\<close>

section \<open>Formatting into a slot\<close>

datatype fmt_outcome = Formatted string | Throws string

type_synonym time_point = int

definition kMaxMsgLen :: nat where
  "kMaxMsgLen = 256"

definition kErr :: string where
  "kErr = ''[xmsigma: log format error]''"

text \<open>Storing \<open>xs\<close> at the start of a buffer; \<open>None\<close> when it does not fit.\<close>

definition overwrite :: "string \<Rightarrow> string \<Rightarrow> string option" where
  "overwrite dst xs = (if length xs \<le> length dst then Some (xs @ drop (length xs) dst) else None)"

definition FormatInto :: "string \<Rightarrow> nat \<Rightarrow> fmt_outcome \<Rightarrow> (string \<times> u16) option" where
  "FormatInto dst cap outcome = (case outcome of
     Formatted s \<Rightarrow>
       map_option (\<lambda>dst. (dst, of_nat (if length s < cap then length s else cap)))
         (overwrite dst (take cap s))
   | Throws s \<Rightarrow>
       (case overwrite dst (take cap s) of
          None \<Rightarrow> None
        | Some dst \<Rightarrow>
            let n = length kErr;
                n = (if n > cap then cap else n)
            in map_option (\<lambda>dst. (dst, of_nat n)) (overwrite dst (take n kErr))))"

text \<open>The text a reader of the slot sees.\<close>

definition slot_text :: "nat \<Rightarrow> fmt_outcome \<Rightarrow> string" where
  "slot_text cap outcome = (case outcome of Formatted s \<Rightarrow> take cap s | Throws _ \<Rightarrow> take cap kErr)"

lemma length_slot_text: "length (slot_text cap outcome) \<le> cap"
  by (auto simp: slot_text_def split: fmt_outcome.splits)

lemma overwrite_Some: "length xs \<le> length dst \<Longrightarrow> overwrite dst xs = Some (xs @ drop (length xs) dst)"
  by (simp add: overwrite_def)

lemma overwrite_take:
  "length xs \<le> cap \<Longrightarrow> cap \<le> length dst \<Longrightarrow> overwrite dst xs = Some dst' \<Longrightarrow>
     length dst' = length dst \<and> drop cap dst' = drop cap dst \<and> take (length xs) dst' = xs"
  by (auto simp: overwrite_def)

lemma FormatInto_writes:
  assumes "cap \<le> length dst"
  shows "\<exists>dst' n. FormatInto dst cap outcome = Some (dst', n) \<and> length dst' = length dst \<and> drop cap dst' = drop cap dst
     \<and> take (length (slot_text cap outcome)) dst' = slot_text cap outcome
     \<and> unat n = length (slot_text cap outcome) mod 2 ^ 16"
proof (cases outcome)
  case (Formatted s)
  have fits: "length (take cap s) \<le> cap" "length (take cap s) \<le> length dst" using assms by simp_all
  have m: "(if length s < cap then length s else cap) = length (take cap s)" by simp
  obtain dst' where d: "overwrite dst (take cap s) = Some dst'" using overwrite_Some [OF fits(2)] by blast
  from overwrite_take [OF fits(1) assms d] show ?thesis
    using Formatted d by (simp add: FormatInto_def slot_text_def m unat_of_nat del: length_take)
next
  case (Throws s)
  have fits: "length (take cap s) \<le> cap" "length (take cap s) \<le> length dst" using assms by simp_all
  obtain d1 where d1: "overwrite dst (take cap s) = Some d1" using overwrite_Some [OF fits(2)] by blast
  note k1 = overwrite_take [OF fits(1) assms d1]
  have m: "(if length kErr > cap then cap else length kErr) = length (take cap kErr)" by simp
  have fits': "length (take cap kErr) \<le> cap" "length (take cap kErr) \<le> length d1" using assms k1 by simp_all
  obtain d2 where d2: "overwrite d1 (take cap kErr) = Some d2" using overwrite_Some [OF fits'(2)] by blast
  have c: "cap \<le> length d1" using assms k1 by simp
  have t: "take (length (take cap kErr)) kErr = take cap kErr" by (simp add: min_def)
  from overwrite_take [OF fits'(1) c d2] k1 show ?thesis
    using Throws d1 d2 t by (simp add: FormatInto_def slot_text_def m Let_def unat_of_nat del: length_take)
qed

lemma FormatInto_slot_text:
  assumes "length dst = cap" and "cap < 2 ^ 16"
  shows "\<exists>dst' n. FormatInto dst cap outcome = Some (dst', n) \<and> length dst' = cap
     \<and> unat n = length (slot_text cap outcome) \<and> take (unat n) dst' = slot_text cap outcome"
proof -
  have "length (slot_text cap outcome) mod 2 ^ 16 = length (slot_text cap outcome)"
    using length_slot_text [of cap outcome] assms(2) by (intro mod_less) linarith
  with FormatInto_writes [of cap dst outcome] assms(1) show ?thesis by auto
qed

text \<open>C19. Formatting into a slot is bounded and cannot fail: whatever the formatting library does, a
  full text of any length or an exception after any number of characters, \<open>FormatInto\<close> writes
  nothing beyond the first \<open>cap\<close> bytes of its buffer, and leaves there the text cut at \<open>cap\<close>,
  or the diagnostic in place of a partial text. The returned length is the one stored up to
  65535 bytes, so for every capacity below \<open>2 ^ 16\<close>, such as \<open>kMaxMsgLen\<close>, a reader of that
  length sees exactly this text; from there on it is taken modulo \<open>2 ^ 16\<close>.\<close>

theorem format_into_bounded:
  assumes "cap \<le> length dst"
  shows "\<exists>dst' n. FormatInto dst cap outcome = Some (dst', n) \<and> length dst' = length dst \<and> drop cap dst' = drop cap dst
     \<and> unat n = length (slot_text cap outcome) mod 2 ^ 16
     \<and> take (length (slot_text cap outcome)) dst' = slot_text cap outcome
     \<and> (cap < 2 ^ 16 \<longrightarrow> take (unat n) dst' = slot_text cap outcome \<and> unat n \<le> cap)
     \<and> (\<forall>s. outcome = Throws s \<longrightarrow> length kErr \<le> cap \<longrightarrow> slot_text cap outcome = kErr)"
proof -
  have small: "cap < 2 ^ 16 \<Longrightarrow> length (slot_text cap outcome) mod 2 ^ 16 = length (slot_text cap outcome)"
    using length_slot_text [of cap outcome] by (intro mod_less) linarith
  from FormatInto_writes [OF assms, of outcome] obtain dst' n where
    d: "FormatInto dst cap outcome = Some (dst', n)" "length dst' = length dst" "drop cap dst' = drop cap dst"
      "take (length (slot_text cap outcome)) dst' = slot_text cap outcome"
      "unat n = length (slot_text cap outcome) mod 2 ^ 16" by blast
  have "cap < 2 ^ 16 \<Longrightarrow> take (unat n) dst' = slot_text cap outcome \<and> unat n \<le> cap"
    using d(4,5) small length_slot_text [of cap outcome] by simp
  moreover have "length kErr \<le> cap \<Longrightarrow> slot_text cap (Throws s) = kErr" for s by (simp add: slot_text_def)
  ultimately show ?thesis using d by (intro exI [of _ dst'] exI [of _ n]) blast
qed

theorem format_into_bounded_witness:
  "\<exists>dst' n. FormatInto (replicate 32 CHR ''.'') 30 (Throws ''loop 7 u'') = Some (dst', n)
     \<and> take (unat n) dst' = ''[xmsigma: log format error]'' \<and> drop 30 dst' = ''..''"
proof -
  from format_into_bounded [of 30 "replicate 32 CHR ''.''" "Throws ''loop 7 u''"] obtain dst' n where
    d: "FormatInto (replicate 32 CHR ''.'') 30 (Throws ''loop 7 u'') = Some (dst', n)"
      "drop 30 dst' = drop 30 (replicate 32 CHR ''.'')"
      "take (unat n) dst' = slot_text 30 (Throws ''loop 7 u'')"
      "slot_text 30 (Throws ''loop 7 u'') = kErr" by (auto simp: kErr_def)
  then show ?thesis by (intro exI [of _ dst'] exI [of _ n]) (simp add: kErr_def numeral_2_eq_2)
qed

section \<open>Levels for the sink\<close>

text \<open>Both sources have a function of their own for it, the same one as in the spdlog vendor.\<close>

definition Rt_ToSpdlogLevel :: "LogLevel \<Rightarrow> spd_level" where
  "Rt_ToSpdlogLevel level = (case level of
     kTrace \<Rightarrow> spd_trace | kDebug \<Rightarrow> spd_debug | kInfo \<Rightarrow> spd_info | kWarn \<Rightarrow> spd_warn
   | kError \<Rightarrow> spd_err | kFatal \<Rightarrow> spd_critical | kOff \<Rightarrow> spd_off)"

definition Mpsc_ToSpdlogLevel :: "LogLevel \<Rightarrow> spd_level" where
  "Mpsc_ToSpdlogLevel level = (case level of
     kTrace \<Rightarrow> spd_trace | kDebug \<Rightarrow> spd_debug | kInfo \<Rightarrow> spd_info | kWarn \<Rightarrow> spd_warn
   | kError \<Rightarrow> spd_err | kFatal \<Rightarrow> spd_critical | kOff \<Rightarrow> spd_off)"

lemma same_ToSpdlogLevel [simp]: "Rt_ToSpdlogLevel = ToSpdlogLevel" "Mpsc_ToSpdlogLevel = ToSpdlogLevel"
  by (simp_all add: fun_eq_iff Rt_ToSpdlogLevel_def Mpsc_ToSpdlogLevel_def ToSpdlogLevel_def)

section \<open>The sink logger\<close>

text \<open>
  What the constructors hand to spdlog: one sink (a file or the coloured console), a logger
  name, a pattern and the level \<open>trace\<close>, so that the sink filters nothing.
\<close>

datatype sink = Stdout_Color_Sink | Basic_File_Sink string

record sink_config =
  sinks :: "sink list"
  logger_name :: string
  pattern :: string
  sink_level :: spd_level

definition line_pattern :: string where
  "line_pattern = ''%^[%l] [%E.%F] [%n]: %v%$''"

definition rt_sink_config :: "environment \<Rightarrow> tm \<Rightarrow> string \<Rightarrow> string \<Rightarrow> bool \<Rightarrow> sink_config" where
  "rt_sink_config env now name suffix log_to_file =
     \<lparr>sinks = (if log_to_file then [Basic_File_Sink (CreateLogNameWithFullPath env now name ''.rt.log'')]
               else [Stdout_Color_Sink]),
      logger_name = name @ suffix,
      pattern = line_pattern,
      sink_level = spd_trace\<rparr>"

definition RtLogger_sink :: "environment \<Rightarrow> tm \<Rightarrow> string \<Rightarrow> bool \<Rightarrow> sink_config" where
  "RtLogger_sink env now name log_to_file = rt_sink_config env now name ''_rt'' log_to_file"

definition MpscRtLogger_sink :: "environment \<Rightarrow> tm \<Rightarrow> string \<Rightarrow> bool \<Rightarrow> sink_config" where
  "MpscRtLogger_sink env now name log_to_file = rt_sink_config env now name ''_mrt'' log_to_file"

section \<open>Rounding the capacity\<close>

text \<open>
  \<open>std::size_t cap = 1; while (cap < ring_capacity) cap <<= 1;\<close> in both constructors. The
  shift drops the top bit, so the loop may run forever; it is a partial function, and not
  returning is \<open>None\<close>.
\<close>

partial_function (option) round_up :: "u64 \<Rightarrow> u64 \<Rightarrow> u64 option" where
  "round_up cap ring_capacity =
     (if cap < ring_capacity then round_up (push_bit 1 cap) ring_capacity else Some cap)"

definition ring_size :: "u64 \<Rightarrow> u64 option" where
  "ring_size ring_capacity = round_up 1 ring_capacity"

lemma push_bit_pow2: "push_bit 1 (2 ^ k :: u64) = 2 ^ Suc k"
  by (simp add: push_bit_eq_mult)

lemma round_up_pow2:
  "k < 64 \<Longrightarrow> n \<le> 2 ^ 63 \<Longrightarrow> k = 0 \<or> 2 ^ (k - 1) < unat n \<Longrightarrow>
     \<exists>j<64. round_up (2 ^ k) n = Some (2 ^ j) \<and> unat n \<le> 2 ^ j \<and> (j = 0 \<or> 2 ^ (j - 1) < unat n)"
proof (induction "64 - k" arbitrary: k)
  case (Suc d)
  have u: "unat (2 ^ k :: u64) = 2 ^ k" using Suc.prems(1) by (rule unat_pow2)
  show ?case
  proof (cases "2 ^ k < unat n")
    case False
    then have "\<not> (2 ^ k :: u64) < n" by (simp only: unat_less_iff u not_False_eq_True)
    then have "round_up (2 ^ k) n = Some (2 ^ k)" by (subst round_up.simps) simp
    with False Suc.prems show ?thesis by (intro exI [of _ k]) simp
  next
    case True
    then have "(2 ^ k :: u64) < n" by (simp only: unat_less_iff u)
    then have step: "round_up (2 ^ k) n = round_up (2 ^ Suc k) n"
      by (subst round_up.simps) (simp only: if_True push_bit_pow2)
    have "unat n \<le> 2 ^ 63"
      using Suc.prems(2) by (simp add: word_le_nat_alt)
    with True have "(2 :: nat) ^ k < 2 ^ 63" by linarith
    then have "k < 63" by (simp only: power_strict_increasing_iff one_less_numeral_iff semiring_norm)
    with Suc.hyps(1) [of "Suc k"] Suc.hyps(2) Suc.prems(2) True step show ?thesis by auto
  qed
qed simp

lemma round_up_zero: "round_up c n = Some y \<Longrightarrow> c = 0 \<longrightarrow> n = 0"
proof (rule round_up.raw_induct [where P = "\<lambda>c n y. c = 0 \<longrightarrow> n = 0"], goal_cases)
  case (1 f c n y)
  then show ?case by (cases "c < n") (auto simp: word_gt_0)
qed

lemma round_up_large:
  "k < 64 \<Longrightarrow> 2 ^ 63 < n \<Longrightarrow> round_up (2 ^ k) n = None"
proof (induction "64 - k" arbitrary: k)
  case (Suc d)
  have n: "(2 :: nat) ^ 63 < unat n" using Suc.prems(2) by (simp add: word_less_nat_alt)
  have "(2 :: nat) ^ k \<le> 2 ^ 63" using Suc.prems(1) by (intro power_increasing) auto
  with n have "2 ^ k < unat n" by linarith
  then have "(2 ^ k :: u64) < n" by (simp only: unat_less_iff unat_pow2 [OF Suc.prems(1)])
  then have step: "round_up (2 ^ k) n = round_up (2 ^ Suc k) n"
    by (subst round_up.simps) (simp only: if_True push_bit_pow2)
  show ?case
  proof (cases "Suc k < 64")
    case True
    with Suc.hyps(1) [of "Suc k"] Suc.hyps(2) Suc.prems(2) step show ?thesis by simp
  next
    case False
    then have "k = 63" using Suc.prems(1) by simp
    then have "(2 ^ Suc k :: u64) = 0" by simp
    moreover have "n \<noteq> 0" using n by auto
    ultimately show ?thesis
      using round_up_zero [of 0 n] step by (cases "round_up 0 n") auto
  qed
qed simp

text \<open>C39. The capacity rounding of both loggers: for every requested capacity up to \<open>2 ^ 63\<close> the
  loop ends with the least power of two that is not below the request (1 for 0), and the
  constructor's loop never ends for a larger one.\<close>

theorem ring_size_rounds_up:
  "(if n \<le> 2 ^ 63
    then \<exists>k<64. ring_size n = Some (2 ^ k) \<and> unat n \<le> 2 ^ k \<and> (\<forall>j. unat n \<le> 2 ^ j \<longrightarrow> k \<le> j)
    else ring_size n = None)"
proof (cases "n \<le> 2 ^ 63")
  case True
  from round_up_pow2 [of 0 n, OF _ True] obtain k where
    k: "k < 64" "round_up 1 n = Some (2 ^ k)" "unat n \<le> 2 ^ k" "k = 0 \<or> 2 ^ (k - 1) < unat n"
    by auto
  have "k \<le> j" if "unat n \<le> 2 ^ j" for j
  proof (rule ccontr)
    assume "\<not> k \<le> j"
    then have "j \<le> k - 1" and "k \<noteq> 0" by simp_all
    then have "(2 :: nat) ^ j \<le> 2 ^ (k - 1)" by (intro power_increasing) auto
    also have "\<dots> < unat n" using k(4) \<open>k \<noteq> 0\<close> by simp
    finally show False using that by simp
  qed
  with k True show ?thesis by (auto simp: ring_size_def)
next
  case False
  then show ?thesis using round_up_large [of 0 n] by (simp add: ring_size_def)
qed

theorem ring_size_rounds_up_witness:
  "\<exists>k<64. ring_size 5 = Some (2 ^ k) \<and> unat (5 :: u64) \<le> 2 ^ k \<and> (\<forall>j. unat (5 :: u64) \<le> 2 ^ j \<longrightarrow> k \<le> j)"
  using ring_size_rounds_up [of 5] by simp

end
