(* ===== verification/Rt_Logger.thy ===== *)
theory Rt_Logger
  imports Rt_Common
begin

text \<open>
  The single-producer hard real-time logger \<open>RtLogger\<close> (\<open>rt_logger.hpp\<close>, \<open>rt_logger.cpp\<close>).

  Four threads touch the object: the producer that calls \<open>Log\<close>, the drain thread, a thread
  that calls \<open>Flush\<close>, and the owner that destroys the object (any thread may set the level).
  Each is a program counter whose constructor names the next access to shared memory and
  carries the local variables still needed; one transition is one atomic access or one
  field of the record, so every interleaving of the code's accesses is a run.

  The indices are read with C++ acquire loads, which may return an old value as long as a
  thread never goes back behind what it has seen. The model keeps, per thread, the last value
  seen of the other thread's index (its view) and lets a load return any value between the
  view and the current one. The plain fields of a record are read as they are in memory;
  that no two threads ever touch the same record at the same time is one of the properties.

  The sink (spdlog) is outside the repository: its \<open>log\<close> and \<open>flush\<close> calls are events of the
  run. Events are the history the properties speak about.
\<close>

section \<open>State\<close>

record rt_record =
  rec_time :: time_point
  rec_level :: LogLevel
  rec_len :: u16
  rec_msg :: string

datatype producer_pc =
    P_Idle
  | P_Filter LogLevel fmt_outcome
  | P_Head LogLevel fmt_outcome
  | P_Tail LogLevel fmt_outcome u64
  | P_Drop
  | P_Level LogLevel fmt_outcome u64
  | P_Time LogLevel fmt_outcome u64
  | P_Format LogLevel fmt_outcome u64 time_point
  | P_Len LogLevel fmt_outcome u64 time_point u16
  | P_Publish LogLevel fmt_outcome u64 time_point

datatype drain_pc =
    D_Tail
  | D_Head u64
  | D_Running
  | D_Sleep
  | D_Time u64
  | D_Level u64 time_point
  | D_Len u64 time_point LogLevel
  | D_Msg u64 time_point LogLevel u16
  | D_Free u64
  | D_Flush
  | D_Done

datatype flush_pc = F_Idle | F_Tail | F_Head u64 | F_Sleep | F_Sink u64

datatype owner_pc = O_Alive | O_Joining | O_Destroyed

record rt_logger =
  capacity :: u64
  index_mask :: u64
  ring :: "rt_record list"
  min_level :: LogLevel
  stale_levels :: "LogLevel list"
  head :: u64
  tail :: u64
  dropped :: u64
  running :: bool
  producer :: producer_pc
  producer_view :: u64
  drain :: drain_pc
  drain_view :: u64
  flusher :: flush_pc
  flush_tail_view :: u64
  flush_head_view :: u64
  owner :: owner_pc

text \<open>A published line: the clock reading, the level and the text of one \<open>Log\<close> call.\<close>

type_synonym line = "time_point \<times> LogLevel \<times> string"

datatype rt_event =
    Log_Call LogLevel fmt_outcome
  | Log_Step
  | Filtered
  | Dropped
  | Published time_point LogLevel string
  | Drain_Step
  | Sink_Log time_point spd_level string
  | Sink_Flush
  | Flush_Call u64
  | Flush_Step
  | Flush_Return
  | Level_Set LogLevel
  | Level_Known
  | Stop
  | Joined
  | Undefined

section \<open>Constructor\<close>

text \<open>
  \<open>new Record[cap]\<close> runs the member initialisers and leaves the message bytes as they are in
  memory (\<open>garbage\<close>). A capacity for which the rounding loop does not end gives no logger.
\<close>

definition new_record :: "string \<Rightarrow> rt_record" where
  "new_record bytes = \<lparr>rec_time = 0, rec_level = kInfo, rec_len = 0, rec_msg = bytes\<rparr>"

definition RtLogger :: "environment \<Rightarrow> u64 \<Rightarrow> string list \<Rightarrow> rt_logger option" where
  "RtLogger env ring_capacity garbage = (case ring_size ring_capacity of
     None \<Rightarrow> None
   | Some cap \<Rightarrow>
       if length garbage = unat cap \<and> list_all (\<lambda>m. length m = kMaxMsgLen) garbage
       then Some \<lparr>capacity = cap, index_mask = cap - 1, ring = map new_record garbage,
              min_level = ResolveLogLevelFromEnv env default_log_level, stale_levels = [],
              head = 0, tail = 0, dropped = 0, running = True,
              producer = P_Idle, producer_view = 0, drain = D_Tail, drain_view = 0,
              flusher = F_Idle, flush_tail_view = 0, flush_head_view = 0, owner = O_Alive\<rparr>
       else None)"

section \<open>Steps\<close>

text \<open>A load that may return any value from the last one seen to the current one.\<close>

definition may_load :: "u64 \<Rightarrow> u64 \<Rightarrow> u64 \<Rightarrow> bool" where
  "may_load view current v \<longleftrightarrow> v - view \<le> current - view"

text \<open>
  The level is loaded relaxed: the producer may see any value that was stored after the one it
  saw last. \<open>stale_levels\<close> holds the replaced values it may still see, newest first; loading
  the \<open>n\<close>-th rules out the older ones, and so does any other synchronisation with the thread
  that set the level.
\<close>

definition visible_levels :: "rt_logger \<Rightarrow> LogLevel list" where
  "visible_levels s = min_level s # stale_levels s"

definition know_level :: "nat \<Rightarrow> rt_logger \<Rightarrow> rt_logger" where
  "know_level n s = (if n < length (stale_levels s) then s\<lparr>stale_levels := take n (stale_levels s)\<rparr> else s)"

lemma know_level_frame [simp]:
  "ring (know_level n s) = ring s" "capacity (know_level n s) = capacity s" "index_mask (know_level n s) = index_mask s"
  "min_level (know_level n s) = min_level s" "head (know_level n s) = head s" "tail (know_level n s) = tail s"
  "dropped (know_level n s) = dropped s" "running (know_level n s) = running s" "producer (know_level n s) = producer s"
  "producer_view (know_level n s) = producer_view s" "drain (know_level n s) = drain s"
  "drain_view (know_level n s) = drain_view s" "flusher (know_level n s) = flusher s"
  "flush_tail_view (know_level n s) = flush_tail_view s" "flush_head_view (know_level n s) = flush_head_view s"
  "owner (know_level n s) = owner s"
  by (simp_all add: know_level_def)

lemma know_current [simp]: "stale_levels s = [] \<Longrightarrow> know_level n s = s"
  by (simp add: know_level_def)

lemma visible_known: "set (visible_levels (know_level n s)) \<subseteq> set (visible_levels s)"
  using set_take_subset [of n "stale_levels s"] by (auto simp: know_level_def visible_levels_def)

lemma visible_levels_cong: "min_level t = min_level s \<Longrightarrow> stale_levels t = stale_levels s \<Longrightarrow> visible_levels t = visible_levels s"
  by (simp add: visible_levels_def)

lemma visible_current [simp]: "visible_levels s ! 0 = min_level s" "visible_levels s \<noteq> []"
  by (simp_all add: visible_levels_def)

definition slot_of :: "rt_logger \<Rightarrow> u64 \<Rightarrow> u64" where
  "slot_of s i = i AND index_mask s"

text \<open>Writing one field of \<open>ring_[head & mask_]\<close>.\<close>

definition with_slot :: "rt_logger \<Rightarrow> u64 \<Rightarrow> (rt_record \<Rightarrow> rt_record) \<Rightarrow> producer_pc \<Rightarrow> rt_event \<times> rt_logger" where
  "with_slot s i f pc = (case arr_get (ring s) (slot_of s i) of
     None \<Rightarrow> (Undefined, s)
   | Some r \<Rightarrow> (case arr_set (ring s) (slot_of s i) (f r) of
       None \<Rightarrow> (Undefined, s)
     | Some rs \<Rightarrow> (Log_Step, s\<lparr>ring := rs, producer := pc\<rparr>)))"

definition format_slot :: "rt_logger \<Rightarrow> LogLevel \<Rightarrow> fmt_outcome \<Rightarrow> u64 \<Rightarrow> time_point \<Rightarrow> rt_event \<times> rt_logger" where
  "format_slot s level out h now = (case arr_get (ring s) (slot_of s h) of
     None \<Rightarrow> (Undefined, s)
   | Some r \<Rightarrow> (case FormatInto (rec_msg r) kMaxMsgLen out of
       None \<Rightarrow> (Undefined, s)
     | Some (msg, len) \<Rightarrow>
         with_slot s h (\<lambda>r. r\<lparr>rec_msg := msg\<rparr>) (P_Len level out h now len)))"

text \<open>
  \<open>Log\<close>, one access per step; \<open>v\<close> is the value of a stale load (for the level, how many stores
  ago it was made), \<open>now\<close> the clock.
\<close>

definition Log_step :: "u64 \<Rightarrow> time_point \<Rightarrow> rt_logger \<Rightarrow> (rt_event \<times> rt_logger) option" where
  "Log_step v now s = (case producer s of
     P_Idle \<Rightarrow> None
   | P_Filter level out \<Rightarrow>
       if unat v < length (visible_levels s)
       then Some (if level < visible_levels s ! unat v
                  then (Filtered, (know_level (unat v) s)\<lparr>producer := P_Idle\<rparr>)
                  else (Log_Step, (know_level (unat v) s)\<lparr>producer := P_Head level out\<rparr>))
       else None
   | P_Head level out \<Rightarrow> Some (Log_Step, s\<lparr>producer := P_Tail level out (head s)\<rparr>)
   | P_Tail level out h \<Rightarrow>
       if may_load (producer_view s) (tail s) v
       then Some (Log_Step, s\<lparr>producer_view := v,
              producer := (if capacity s \<le> h - v then P_Drop else P_Level level out h)\<rparr>)
       else None
   | P_Drop \<Rightarrow> Some (Dropped, s\<lparr>dropped := dropped s + 1, producer := P_Idle\<rparr>)
   | P_Level level out h \<Rightarrow> Some (with_slot s h (\<lambda>r. r\<lparr>rec_level := level\<rparr>) (P_Time level out h))
   | P_Time level out h \<Rightarrow> Some (with_slot s h (\<lambda>r. r\<lparr>rec_time := now\<rparr>) (P_Format level out h now))
   | P_Format level out h time \<Rightarrow> Some (format_slot s level out h time)
   | P_Len level out h time len \<Rightarrow>
       Some (with_slot s h (\<lambda>r. r\<lparr>rec_len := len\<rparr>) (P_Publish level out h time))
   | P_Publish level out h time \<Rightarrow>
       Some (Published time level (slot_text kMaxMsgLen out), s\<lparr>head := h + 1, producer := P_Idle\<rparr>))"

text \<open>
  \<open>DrainLoop\<close>. The load of \<open>running_\<close> may still return true after the destructor has stored
  false; \<open>v = 0\<close> stands for a load of the current value.
\<close>

definition read_slot :: "rt_logger \<Rightarrow> u64 \<Rightarrow> (rt_record \<Rightarrow> drain_pc) \<Rightarrow> rt_event \<times> rt_logger" where
  "read_slot s i pc = (case arr_get (ring s) (slot_of s i) of
     None \<Rightarrow> (Undefined, s)
   | Some r \<Rightarrow> (Drain_Step, s\<lparr>drain := pc r\<rparr>))"

definition emit_slot :: "rt_logger \<Rightarrow> u64 \<Rightarrow> time_point \<Rightarrow> LogLevel \<Rightarrow> u16 \<Rightarrow> rt_event \<times> rt_logger" where
  "emit_slot s i time level len = (case arr_get (ring s) (slot_of s i) of
     None \<Rightarrow> (Undefined, s)
   | Some r \<Rightarrow>
       if length (rec_msg r) < unat len then (Undefined, s)
       else (Sink_Log time (Rt_ToSpdlogLevel level) (take (unat len) (rec_msg r)), s\<lparr>drain := D_Free i\<rparr>))"

definition DrainLoop_step :: "u64 \<Rightarrow> rt_logger \<Rightarrow> (rt_event \<times> rt_logger) option" where
  "DrainLoop_step v s = (case drain s of
     D_Tail \<Rightarrow> Some (Drain_Step, s\<lparr>drain := D_Head (tail s)\<rparr>)
   | D_Head t \<Rightarrow>
       if may_load (drain_view s) (head s) v
       then Some (Drain_Step, s\<lparr>drain_view := v, drain := (if t = v then D_Running else D_Time t)\<rparr>)
       else None
   | D_Running \<Rightarrow> Some (Drain_Step, s\<lparr>drain := (if running s \<or> v \<noteq> 0 then D_Sleep else D_Flush)\<rparr>)
   | D_Sleep \<Rightarrow> Some (Drain_Step, s\<lparr>drain := D_Tail\<rparr>)
   | D_Time t \<Rightarrow> Some (read_slot s t (\<lambda>r. D_Level t (rec_time r)))
   | D_Level t time \<Rightarrow> Some (read_slot s t (\<lambda>r. D_Len t time (rec_level r)))
   | D_Len t time level \<Rightarrow> Some (read_slot s t (\<lambda>r. D_Msg t time level (rec_len r)))
   | D_Msg t time level len \<Rightarrow> Some (emit_slot s t time level len)
   | D_Free t \<Rightarrow> Some (Drain_Step, s\<lparr>tail := t + 1, drain := D_Tail\<rparr>)
   | D_Flush \<Rightarrow> Some (Sink_Flush, s\<lparr>drain := D_Done\<rparr>)
   | D_Done \<Rightarrow> None)"

text \<open>
  \<open>Flush\<close>. The caller knows of some published records when it calls (those that happen before
  the call); that knowledge is a lower bound for its loads.
\<close>

definition Flush_step :: "u64 \<Rightarrow> rt_logger \<Rightarrow> (rt_event \<times> rt_logger) option" where
  "Flush_step v s = (case flusher s of
     F_Idle \<Rightarrow> None
   | F_Tail \<Rightarrow>
       if may_load (flush_tail_view s) (tail s) v
       then Some (Flush_Step, s\<lparr>flush_tail_view := v, flusher := F_Head v\<rparr>) else None
   | F_Head t \<Rightarrow>
       if may_load (flush_head_view s) (head s) v
       then Some (Flush_Step, s\<lparr>flush_head_view := v, flusher := (if t \<noteq> v then F_Sleep else F_Sink t)\<rparr>)
       else None
   | F_Sleep \<Rightarrow> Some (Flush_Step, s\<lparr>flusher := F_Tail\<rparr>)
   | F_Sink t \<Rightarrow> Some (Flush_Return, s\<lparr>flusher := F_Idle\<rparr>))"

definition SetLevel :: "LogLevel \<Rightarrow> rt_logger \<Rightarrow> rt_logger" where
  "SetLevel level s = s\<lparr>min_level := level, stale_levels := visible_levels s\<rparr>"

definition GetLevel :: "rt_logger \<Rightarrow> LogLevel" where
  "GetLevel s = min_level s"

definition Rt_dropped :: "rt_logger \<Rightarrow> u64" where
  [simp]: "Rt_dropped s = dropped s"

text \<open>
  The system. The object is used within its lifetime: \<open>Log\<close> and \<open>Flush\<close> are called only while
  it is alive, and the destructor starts when no such call is in progress.
\<close>

inductive rt_step :: "rt_logger \<Rightarrow> rt_event \<Rightarrow> rt_logger \<Rightarrow> bool" where
  log_call: "owner s = O_Alive \<Longrightarrow> producer s = P_Idle \<Longrightarrow>
    rt_step s (Log_Call level out) (s\<lparr>producer := P_Filter level out\<rparr>)"
| log: "Log_step v now s = Some (e, t) \<Longrightarrow> rt_step s e t"
| drain: "DrainLoop_step v s = Some (e, t) \<Longrightarrow> rt_step s e t"
| flush_call: "owner s = O_Alive \<Longrightarrow> flusher s = F_Idle \<Longrightarrow> known \<le> head s \<Longrightarrow>
    rt_step s (Flush_Call known) (s\<lparr>flusher := F_Tail, flush_head_view := known, flush_tail_view := 0\<rparr>)"
| flush: "Flush_step v s = Some (e, t) \<Longrightarrow> rt_step s e t"
| set_level: "owner s = O_Alive \<Longrightarrow> rt_step s (Level_Set level) (SetLevel level s)"
| level_known: "rt_step s Level_Known (know_level n s)"
| stop: "owner s = O_Alive \<Longrightarrow> producer s = P_Idle \<Longrightarrow> flusher s = F_Idle \<Longrightarrow>
    rt_step s Stop (s\<lparr>running := False, owner := O_Joining\<rparr>)"
| join: "owner s = O_Joining \<Longrightarrow> drain s = D_Done \<Longrightarrow> rt_step s Joined (s\<lparr>owner := O_Destroyed\<rparr>)"

section \<open>History\<close>

fun published_line :: "rt_event \<Rightarrow> line list" where
  "published_line (Published time level text) = [(time, level, text)]"
| "published_line _ = []"

fun delivered_line :: "rt_event \<Rightarrow> (time_point \<times> spd_level \<times> string) list" where
  "delivered_line (Sink_Log time level text) = [(time, level, text)]"
| "delivered_line _ = []"

definition published :: "rt_event list \<Rightarrow> line list" where
  "published es = concat (map published_line es)"

definition delivered :: "rt_event list \<Rightarrow> (time_point \<times> spd_level \<times> string) list" where
  "delivered es = concat (map delivered_line es)"

text \<open>What the sink is handed for a published line.\<close>

definition sink_line :: "line \<Rightarrow> time_point \<times> spd_level \<times> string" where
  "sink_line l = (case l of (time, level, text) \<Rightarrow> (time, ToSpdlogLevel level, text))"

lemma published_simps [simp]:
  "published [] = []"
  "published (es @ fs) = published es @ published fs"
  "published (e # es) = published_line e @ published es"
  by (simp_all add: published_def)

lemma delivered_simps [simp]:
  "delivered [] = []"
  "delivered (es @ fs) = delivered es @ delivered fs"
  "delivered (e # es) = delivered_line e @ delivered es"
  by (simp_all add: delivered_def)

section \<open>The invariant\<close>

text \<open>
  In natural numbers: \<open>P\<close> records have been published, \<open>C\<close> of their slots have been freed;
  \<open>V\<close> and \<open>H\<close> are the positions of the two views. The slots of the positions from \<open>C\<close> to
  \<open>P\<close> hold the published lines.
\<close>

fun is_free :: "drain_pc \<Rightarrow> bool" where
  "is_free (D_Free _) \<longleftrightarrow> True"
| "is_free _ \<longleftrightarrow> False"

definition freed :: "drain_pc \<Rightarrow> nat \<Rightarrow> nat" where
  "freed pc n = (if is_free pc then n - 1 else n)"

definition holds_line :: "rt_record \<Rightarrow> line \<Rightarrow> bool" where
  "holds_line r l \<longleftrightarrow> (case l of (time, level, text) \<Rightarrow> rec_time r = time \<and> rec_level r = level
     \<and> unat (rec_len r) = length text \<and> take (length text) (rec_msg r) = text)"

definition slot :: "rt_logger \<Rightarrow> nat \<Rightarrow> rt_record" where
  "slot s i = ring s ! (i mod unat (capacity s))"

text \<open>The constants of the object.\<close>

definition ring_ok :: "rt_logger \<Rightarrow> bool" where
  "ring_ok s \<longleftrightarrow> (\<exists>k<64. capacity s = 2 ^ k) \<and> index_mask s = capacity s - 1
     \<and> length (ring s) = unat (capacity s) \<and> (\<forall>r\<in>set (ring s). length (rec_msg r) = kMaxMsgLen)"

definition producer_ok :: "nat \<Rightarrow> nat \<Rightarrow> rt_logger \<Rightarrow> bool" where
  "producer_ok P V s \<longleftrightarrow> (case producer s of
     P_Tail level out h \<Rightarrow> h = of_nat P
   | P_Level level out h \<Rightarrow> h = of_nat P \<and> P < V + unat (capacity s)
   | P_Time level out h \<Rightarrow> h = of_nat P \<and> P < V + unat (capacity s) \<and> rec_level (slot s P) = level
   | P_Format level out h time \<Rightarrow> h = of_nat P \<and> P < V + unat (capacity s)
       \<and> rec_level (slot s P) = level \<and> rec_time (slot s P) = time
   | P_Len level out h time len \<Rightarrow> h = of_nat P \<and> P < V + unat (capacity s)
       \<and> rec_level (slot s P) = level \<and> rec_time (slot s P) = time
       \<and> unat len = length (slot_text kMaxMsgLen out)
       \<and> take (length (slot_text kMaxMsgLen out)) (rec_msg (slot s P)) = slot_text kMaxMsgLen out
   | P_Publish level out h time \<Rightarrow> h = of_nat P \<and> P < V + unat (capacity s)
       \<and> holds_line (slot s P) (time, level, slot_text kMaxMsgLen out)
   | _ \<Rightarrow> True)"

definition drain_ok :: "line list \<Rightarrow> nat \<Rightarrow> nat \<Rightarrow> rt_logger \<Rightarrow> bool" where
  "drain_ok ls C H s \<longleftrightarrow> (case drain s of
     D_Head t \<Rightarrow> t = of_nat C
   | D_Running \<Rightarrow> H = C
   | D_Time t \<Rightarrow> t = of_nat C \<and> C < H
   | D_Level t time \<Rightarrow> t = of_nat C \<and> C < H \<and> time = fst (ls ! C)
   | D_Len t time level \<Rightarrow> t = of_nat C \<and> C < H \<and> time = fst (ls ! C) \<and> level = fst (snd (ls ! C))
   | D_Msg t time level len \<Rightarrow> t = of_nat C \<and> C < H \<and> time = fst (ls ! C) \<and> level = fst (snd (ls ! C))
       \<and> len = rec_len (slot s C)
   | D_Free t \<Rightarrow> t = of_nat C \<and> C < H
   | D_Flush \<Rightarrow> H = C \<and> \<not> running s
   | D_Done \<Rightarrow> H = C \<and> \<not> running s
   | _ \<Rightarrow> True)"

definition rt_counts :: "line list \<Rightarrow> nat \<Rightarrow> nat \<Rightarrow> nat \<Rightarrow> rt_logger \<Rightarrow> bool" where
  "rt_counts ls C V H s \<longleftrightarrow> head s = of_nat (length ls) \<and> tail s = of_nat C
     \<and> producer_view s = of_nat V \<and> drain_view s = of_nat H
     \<and> V \<le> C \<and> C \<le> H \<and> H \<le> length ls \<and> length ls \<le> V + unat (capacity s)
     \<and> (\<forall>i. C \<le> i \<longrightarrow> i < length ls \<longrightarrow> holds_line (slot s i) (ls ! i))"

definition rt_inv_at :: "line list \<Rightarrow> nat \<Rightarrow> nat \<Rightarrow> nat \<Rightarrow> rt_logger \<Rightarrow> bool" where
  "rt_inv_at ls C V H s \<longleftrightarrow> ring_ok s \<and> rt_counts ls C V H s \<and> producer_ok (length ls) V s \<and> drain_ok ls C H s"

definition rt_inv :: "rt_event list \<Rightarrow> rt_logger \<Rightarrow> bool" where
  "rt_inv es s \<longleftrightarrow> (\<exists>C V H. C = freed (drain s) (length (delivered es))
     \<and> (is_free (drain s) \<longrightarrow> delivered es \<noteq> [])
     \<and> delivered es = map sink_line (take (length (delivered es)) (published es))
     \<and> rt_inv_at (published es) C V H s) \<and> Undefined \<notin> set es"

subsection \<open>Loads and slots\<close>

lemma ring_okE:
  assumes "ring_ok s"
  obtains k where "k < 64" and "capacity s = 2 ^ k" and "index_mask s = 2 ^ k - 1" and "unat (capacity s) = 2 ^ k"
    and "length (ring s) = 2 ^ k" and "\<forall>r\<in>set (ring s). length (rec_msg r) = kMaxMsgLen"
  using assms unat_pow2 by (auto simp: ring_ok_def)

lemma capacity_bound: "ring_ok s \<Longrightarrow> 0 < unat (capacity s) \<and> unat (capacity s) \<le> 2 ^ 63"
proof (erule ring_okE)
  fix k :: nat
  assume "k < 64" and "unat (capacity s) = 2 ^ k"
  moreover from this(1) have "(2 :: nat) ^ k \<le> 2 ^ 63" by (intro power_increasing) auto
  ultimately show ?thesis by simp
qed

lemma may_load_nat:
  assumes "may_load (of_nat a) (of_nat b) v" and "a \<le> b" and "b - a < 2 ^ 64"
  obtains c where "v = of_nat c" and "a \<le> c" and "c \<le> b"
proof
  have "unat (v - of_nat a) \<le> b - a"
    using assms unat_distance [OF assms(2,3)] by (simp add: may_load_def word_le_nat_alt)
  then show "a + unat (v - of_nat a) \<le> b" using assms(2) by linarith
  show "v = of_nat (a + unat (v - of_nat a))" by simp
qed simp

lemma slot_get:
  assumes "ring_ok s"
  shows "arr_get (ring s) (slot_of s (of_nat i)) = Some (slot s i)"
proof -
  from assms obtain k where k: "k < 64" "index_mask s = 2 ^ k - 1" "unat (capacity s) = 2 ^ k" "length (ring s) = 2 ^ k"
    by (rule ring_okE)
  then show ?thesis
    by (simp add: arr_get_def slot_of_def slot_def unat_slot_of_nat)
qed

lemma slot_in_ring: "ring_ok s \<Longrightarrow> slot s i \<in> set (ring s)"
  using capacity_bound [of s] by (auto simp: slot_def ring_ok_def)

lemma slot_cong: "ring t = ring s \<Longrightarrow> capacity t = capacity s \<Longrightarrow> slot t = slot s"
  by (rule ext) (simp add: slot_def)

lemma ring_ok_cong:
  "capacity t = capacity s \<Longrightarrow> index_mask t = index_mask s \<Longrightarrow> ring t = ring s \<Longrightarrow> ring_ok t = ring_ok s"
  by (simp add: ring_ok_def)

lemma rt_counts_cong:
  assumes "ring t = ring s" and "capacity t = capacity s" and "head t = head s" and "tail t = tail s"
    and "producer_view t = producer_view s" and "drain_view t = drain_view s"
  shows "rt_counts ls C V H t = rt_counts ls C V H s"
  by (simp add: rt_counts_def slot_cong [OF assms(1,2)] assms)

lemma producer_ok_cong:
  assumes "ring t = ring s" and "capacity t = capacity s" and "producer t = producer s"
  shows "producer_ok P V t = producer_ok P V s"
  unfolding producer_ok_def slot_cong [OF assms(1,2)] assms ..

lemma drain_ok_cong:
  assumes "ring t = ring s" and "capacity t = capacity s" and "drain t = drain s" and "running t = running s"
  shows "drain_ok ls C H t = drain_ok ls C H s"
  unfolding drain_ok_def slot_cong [OF assms(1,2)] assms ..

lemma drain_ok_stopped:
  assumes "drain_ok ls C H s" and "ring t = ring s" and "capacity t = capacity s" and "drain t = drain s" and "\<not> running t"
  shows "drain_ok ls C H t"
  using assms(1,4,5) by (cases "drain s") (simp_all add: drain_ok_def slot_cong [OF assms(2,3)])

text \<open>What a step that moves no index and no record has to show.\<close>

lemma rt_inv_at_frame:
  assumes "rt_inv_at ls C V H s" and "ring t = ring s" and "capacity t = capacity s" and "index_mask t = index_mask s"
    and "head t = head s" and "tail t = tail s" and "producer_view t = producer_view s" and "drain_view t = drain_view s"
    and "producer t = producer s \<or> producer_ok (length ls) V t"
    and "drain t = drain s \<and> (running t \<longrightarrow> running s) \<or> drain_ok ls C H t"
  shows "rt_inv_at ls C V H t"
proof -
  from assms(1) have s: "ring_ok s" "rt_counts ls C V H s" "producer_ok (length ls) V s" "drain_ok ls C H s"
    by (simp_all add: rt_inv_at_def)
  have "ring_ok t" using s(1) ring_ok_cong [OF assms(3,4,2)] by simp
  moreover have "rt_counts ls C V H t" using s(2) rt_counts_cong [OF assms(2,3,5-8)] by simp
  moreover have "producer_ok (length ls) V t"
    using s(3) assms(9) producer_ok_cong [OF assms(2,3)] by auto
  moreover have "drain_ok ls C H t"
    using s(4) assms(10) drain_ok_cong [OF assms(2,3)] drain_ok_stopped [OF _ assms(2,3)] by (cases "running t") auto
  ultimately show ?thesis by (simp add: rt_inv_at_def)
qed

lemma with_slot_eq:
  assumes "ring_ok s" and "length (rec_msg (f (slot s i))) = kMaxMsgLen"
  obtains t where "with_slot s (of_nat i) f pc = (Log_Step, t)"
    and "t = s\<lparr>ring := (ring s)[i mod unat (capacity s) := f (slot s i)], producer := pc\<rparr>"
    and "ring_ok t" and "slot t i = f (slot s i)"
    and "\<And>j. j mod unat (capacity s) \<noteq> i mod unat (capacity s) \<Longrightarrow> slot t j = slot s j"
proof -
  from assms(1) obtain k where k: "k < 64" "index_mask s = 2 ^ k - 1" "unat (capacity s) = 2 ^ k" "length (ring s) = 2 ^ k"
    by (rule ring_okE)
  let ?t = "s\<lparr>ring := (ring s)[i mod unat (capacity s) := f (slot s i)], producer := pc\<rparr>"
  have "arr_set (ring s) (slot_of s (of_nat i)) (f (slot s i)) = Some ((ring s)[i mod unat (capacity s) := f (slot s i)])"
    using k by (simp add: arr_set_def slot_of_def unat_slot_of_nat)
  then have "with_slot s (of_nat i) f pc = (Log_Step, ?t)"
    by (simp add: with_slot_def slot_get [OF assms(1)])
  moreover have "ring_ok ?t"
    using assms by (auto simp: ring_ok_def dest!: set_update_subset_insert [THEN subsetD])
  moreover have "slot ?t i = f (slot s i)" using k by (simp add: slot_def)
  moreover have "slot ?t j = slot s j" if "j mod unat (capacity s) \<noteq> i mod unat (capacity s)" for j
    using that by (simp add: slot_def)
  ultimately show ?thesis using that by blast
qed

subsection \<open>The producer\<close>

text \<open>A store to the slot at the head touches no slot the drain thread may read.\<close>

lemma write_at_head:
  assumes inv: "rt_inv_at ls C V H s" and room: "length ls < V + unat (capacity s)"
    and len: "length (rec_msg (f (slot s (length ls)))) = kMaxMsgLen"
  obtains t where "with_slot s (of_nat (length ls)) f pc = (Log_Step, t)"
    and "slot t (length ls) = f (slot s (length ls))" and "ring_ok t" and "rt_counts ls C V H t"
    and "drain_ok ls C H t" and "producer t = pc" and "capacity t = capacity s"
    and "drain t = drain s" and "running t = running s"
proof -
  let ?P = "length ls"
  from inv have ring: "ring_ok s" and counts: "rt_counts ls C V H s" and d: "drain_ok ls C H s"
    by (simp_all add: rt_inv_at_def)
  from with_slot_eq [where f = f, OF ring len] obtain t where
    w: "with_slot s (of_nat ?P) f pc = (Log_Step, t)" and
    t: "t = s\<lparr>ring := (ring s)[?P mod unat (capacity s) := f (slot s ?P)], producer := pc\<rparr>" and
    r: "ring_ok t" "slot t ?P = f (slot s ?P)" and
    other: "\<And>j. j mod unat (capacity s) \<noteq> ?P mod unat (capacity s) \<Longrightarrow> slot t j = slot s j"
    by blast
  have keep: "slot t i = slot s i" if "C \<le> i" "i < ?P" for i
  proof (rule other)
    have "?P - i < unat (capacity s)" using that room counts unfolding rt_counts_def by linarith
    then show "i mod unat (capacity s) \<noteq> ?P mod unat (capacity s)"
      using slots_distinct [of i "unat (capacity s)" ?P] that by auto
  qed
  have "rt_counts ls C V H t"
    using counts keep by (auto simp: rt_counts_def t slot_def)
  moreover have "drain_ok ls C H t"
    using d counts keep by (auto simp: drain_ok_def rt_counts_def t slot_def split: drain_pc.splits)
  ultimately show ?thesis using w r t that by simp
qed

definition producer_result :: "line list \<Rightarrow> nat \<Rightarrow> nat \<Rightarrow> nat \<Rightarrow> rt_logger \<Rightarrow> rt_event \<Rightarrow> rt_logger \<Rightarrow> bool" where
  "producer_result ls C V H s e t \<longleftrightarrow> e \<noteq> Undefined \<and> delivered_line e = [] \<and> drain t = drain s
     \<and> (\<exists>V'. rt_inv_at (ls @ published_line e) C V' H t)"

lemma producer_resultI:
  "rt_inv_at (ls @ published_line e) C V' H t \<Longrightarrow> e \<noteq> Undefined \<Longrightarrow> delivered_line e = [] \<Longrightarrow> drain t = drain s \<Longrightarrow>
    producer_result ls C V H s e t"
  by (auto simp: producer_result_def)

lemma write_step:
  assumes inv: "rt_inv_at ls C V H s" and room: "length ls < V + unat (capacity s)"
    and len: "length (rec_msg (f (slot s (length ls)))) = kMaxMsgLen"
    and step: "(e, t) = with_slot s (of_nat (length ls)) f pc"
    and ok: "\<And>t'. slot t' (length ls) = f (slot s (length ls)) \<Longrightarrow> producer t' = pc \<Longrightarrow>
      capacity t' = capacity s \<Longrightarrow> producer_ok (length ls) V t'"
  shows "producer_result ls C V H s e t"
proof -
  from write_at_head [OF inv room, where f = f, OF len] obtain t' where t':
    "with_slot s (of_nat (length ls)) f pc = (Log_Step, t')" "slot t' (length ls) = f (slot s (length ls))"
    "ring_ok t'" "rt_counts ls C V H t'" "drain_ok ls C H t'" "producer t' = pc" "capacity t' = capacity s"
    "drain t' = drain s"
    by metis
  with step ok [of t'] show ?thesis
    by (intro producer_resultI [of _ _ _ V]) (simp_all add: rt_inv_at_def)
qed

lemma producer_quiet:
  assumes "rt_inv_at ls C V H s" and "producer_ok (length ls) V (s\<lparr>producer := pc\<rparr>)"
    and "t = s\<lparr>producer := pc\<rparr> \<or> t = s\<lparr>dropped := dropped s + 1, producer := pc\<rparr>
      \<or> t = know_level n s\<lparr>producer := pc\<rparr>"
    and "e \<noteq> Undefined" and "published_line e = []" and "delivered_line e = []"
  shows "producer_result ls C V H s e t"
proof (rule producer_resultI)
  show "rt_inv_at (ls @ published_line e) C V H t"
    using assms(2,3,5) producer_ok_cong [of t "s\<lparr>producer := pc\<rparr>"]
    by (auto intro: rt_inv_at_frame [OF assms(1)])
qed (use assms(3,4,6) in auto)

lemma Log_step_inv:
  assumes inv: "rt_inv_at ls C V H s" and step: "Log_step v now s = Some (e, t)"
  shows "producer_result ls C V H s e t"
proof -
  let ?P = "length ls"
  from inv have ring: "ring_ok s" and counts: "rt_counts ls C V H s" and p: "producer_ok ?P V s" and d: "drain_ok ls C H s"
    by (simp_all add: rt_inv_at_def)
  note cap = capacity_bound [OF ring]
  have msg: "length (rec_msg (slot s ?P)) = kMaxMsgLen"
    using ring slot_in_ring [OF ring] by (simp add: ring_ok_def)
  show ?thesis
  proof (cases "producer s")
    case (P_Tail level out h)
    with step have load: "may_load (producer_view s) (tail s) v"
      and t: "e = Log_Step" "t = s\<lparr>producer_view := v, producer := (if capacity s \<le> h - v then P_Drop else P_Level level out h)\<rparr>"
      by (auto simp: Log_step_def split: if_splits)
    from load counts cap obtain W where W: "v = of_nat W" "V \<le> W" "W \<le> C"
      by (auto simp: rt_counts_def elim!: may_load_nat)
    have "W \<le> ?P" using W counts by (simp add: rt_counts_def)
    moreover have "?P \<le> W + 2 ^ 63" using W counts cap unfolding rt_counts_def by linarith
    then have "?P - W < 2 ^ 64" by simp
    ultimately have "W \<le> ?P" and "?P - W < 2 ^ 64" by simp_all
    then have "unat (of_nat ?P - of_nat W :: u64) = ?P - W" by (rule unat_distance)
    then have "capacity s \<le> h - v \<longleftrightarrow> unat (capacity s) \<le> ?P - W"
      using P_Tail p W by (simp add: word_le_nat_alt producer_ok_def)
    then have "rt_inv_at (ls @ published_line e) C W H t"
      using inv P_Tail W t by (auto simp: rt_inv_at_def rt_counts_def producer_ok_def drain_ok_def ring_ok_def slot_def
          split: drain_pc.splits)
    then show ?thesis using t by (auto intro: producer_resultI)
  next
    case (P_Level level out h)
    with p step show ?thesis
      by (intro write_step [OF inv, where f = "\<lambda>r. r\<lparr>rec_level := level\<rparr>" and pc = "P_Time level out h"])
        (simp_all add: producer_ok_def Log_step_def msg)
  next
    case (P_Time level out h)
    with p step show ?thesis
      by (intro write_step [OF inv, where f = "\<lambda>r. r\<lparr>rec_time := now\<rparr>" and pc = "P_Format level out h now"])
        (simp_all add: producer_ok_def Log_step_def msg)
  next
    case (P_Format level out h time)
    from FormatInto_slot_text [OF msg, of out] obtain m n where
      f: "FormatInto (rec_msg (slot s ?P)) kMaxMsgLen out = Some (m, n)" "length m = kMaxMsgLen"
        "unat n = length (slot_text kMaxMsgLen out)" "take (unat n) m = slot_text kMaxMsgLen out"
      by (auto simp: kMaxMsgLen_def)
    with P_Format p step show ?thesis
      by (intro write_step [OF inv, where f = "\<lambda>r. r\<lparr>rec_msg := m\<rparr>" and pc = "P_Len level out h time n"])
        (simp_all add: producer_ok_def Log_step_def format_slot_def slot_get [OF ring])
  next
    case (P_Len level out h time n)
    with p step show ?thesis
      by (intro write_step [OF inv, where f = "\<lambda>r. r\<lparr>rec_len := n\<rparr>" and pc = "P_Publish level out h time"])
        (simp_all add: producer_ok_def Log_step_def msg holds_line_def)
  next
    case (P_Publish level out h time)
    let ?l = "(time, level, slot_text kMaxMsgLen out)"
    from P_Publish step p have t: "e = Published time level (slot_text kMaxMsgLen out)" "t = s\<lparr>head := h + 1, producer := P_Idle\<rparr>"
      "h = of_nat ?P" "?P < V + unat (capacity s)" "holds_line (slot s ?P) ?l"
      by (simp_all add: Log_step_def producer_ok_def)
    have "rt_counts (ls @ [?l]) C V H t"
      using counts t by (auto simp: rt_counts_def nth_append slot_def less_Suc_eq)
    moreover have "drain_ok (ls @ [?l]) C H t"
      using d counts t by (auto simp: drain_ok_def rt_counts_def nth_append slot_def split: drain_pc.splits)
    ultimately show ?thesis
      using t ring by (intro producer_resultI [of _ _ _ V]) (auto simp: rt_inv_at_def ring_ok_def producer_ok_def)
  next
    case (P_Filter level out)
    with step counts show ?thesis
      by (intro producer_quiet [OF inv, of "if level < visible_levels s ! unat v then P_Idle else P_Head level out"
            t "unat v"])
        (auto simp: Log_step_def producer_ok_def split: if_splits)
  next
    case (P_Head level out)
    with step counts show ?thesis
      by (intro producer_quiet [OF inv, of "P_Tail level out (head s)" t 0])
        (auto simp: Log_step_def producer_ok_def rt_counts_def)
  next
    case P_Drop
    with step show ?thesis
      by (intro producer_quiet [OF inv, of P_Idle t 0]) (auto simp: Log_step_def producer_ok_def)
  qed (use step in \<open>simp add: Log_step_def\<close>)
qed

subsection \<open>The drain thread\<close>

definition drain_result :: "line list \<Rightarrow> nat \<Rightarrow> nat \<Rightarrow> rt_logger \<Rightarrow> rt_event \<Rightarrow> rt_logger \<Rightarrow> bool" where
  "drain_result ls C V s e t \<longleftrightarrow> e \<noteq> Undefined \<and> published_line e = [] \<and>
     (if is_free (drain s)
      then delivered_line e = [] \<and> \<not> is_free (drain t) \<and> (\<exists>H. rt_inv_at ls (Suc C) V H t)
      else (\<exists>H. rt_inv_at ls C V H t) \<and>
        (if is_free (drain t) then delivered_line e = [sink_line (ls ! C)] \<and> C < length ls
         else delivered_line e = []))"

lemma rt_inv_at_drain:
  "rt_inv_at ls C V H s \<Longrightarrow> drain_ok ls C H (s\<lparr>drain := pc\<rparr>) \<Longrightarrow> rt_inv_at ls C V H (s\<lparr>drain := pc\<rparr>)"
  by (auto intro: rt_inv_at_frame)

lemma drain_quiet:
  assumes "rt_inv_at ls C V H s" and "drain_ok ls C H (s\<lparr>drain := pc\<rparr>)" and "t = s\<lparr>drain := pc\<rparr>"
    and "e = Drain_Step \<or> e = Sink_Flush" and "\<not> is_free (drain s)" and "\<not> is_free pc"
  shows "drain_result ls C V s e t"
  using rt_inv_at_drain [OF assms(1,2)] assms(3-6) by (auto simp: drain_result_def)

lemma DrainLoop_step_inv:
  assumes inv: "rt_inv_at ls C V H s" and step: "DrainLoop_step v s = Some (e, t)"
  shows "drain_result ls C V s e t"
proof -
  from inv have ring: "ring_ok s" and counts: "rt_counts ls C V H s" and p: "producer_ok (length ls) V s"
    and d: "drain_ok ls C H s"
    by (simp_all add: rt_inv_at_def)
  note cap = capacity_bound [OF ring]
  have line: "holds_line (slot s C) (ls ! C)" if "C < H"
    using counts that by (simp add: rt_counts_def)
  have read: "read_slot s (of_nat C) pc = (Drain_Step, s\<lparr>drain := pc (slot s C)\<rparr>)" for pc
    by (simp add: read_slot_def slot_get [OF ring])
  have slot_drain: "slot (s\<lparr>drain := pc\<rparr>) i = slot s i" for pc i by (simp add: slot_def)
  show ?thesis
  proof (cases "drain s")
    case (D_Head i)
    with step have load: "may_load (drain_view s) (head s) v"
      and t: "e = Drain_Step" "t = s\<lparr>drain_view := v, drain := (if i = v then D_Running else D_Time i)\<rparr>"
      by (auto simp: DrainLoop_step_def split: if_splits)
    have "length ls \<le> H + 2 ^ 63" using counts cap unfolding rt_counts_def by linarith
    then have "length ls - H < 2 ^ 64" by simp
    with load counts obtain W where W: "v = of_nat W" "H \<le> W" "W \<le> length ls"
      by (auto simp: rt_counts_def elim!: may_load_nat)
    have i: "i = of_nat C" using d D_Head by (simp add: drain_ok_def)
    have "length ls \<le> C + 2 ^ 63" using counts cap unfolding rt_counts_def by linarith
    then have "W - C < 2 ^ 64" and "C \<le> W" using W counts by (simp_all add: rt_counts_def)
    then have "of_nat W = (of_nat C :: u64) \<longleftrightarrow> W = C" using of_nat_eq_near by metis
    then have "rt_inv_at ls C V W t"
      using inv D_Head W t i by (auto simp: rt_inv_at_def rt_counts_def producer_ok_def drain_ok_def ring_ok_def slot_def
          split: producer_pc.splits)
    then show ?thesis using t D_Head by (auto simp: drain_result_def)
  next
    case (D_Time i)
    with d step line show ?thesis
      by (intro drain_quiet [OF inv, of "D_Level i (rec_time (slot s C))"])
        (auto simp: DrainLoop_step_def read drain_ok_def slot_drain holds_line_def split: prod.splits)
  next
    case (D_Level i time)
    with d step line show ?thesis
      by (intro drain_quiet [OF inv, of "D_Len i time (rec_level (slot s C))"])
        (auto simp: DrainLoop_step_def read drain_ok_def slot_drain holds_line_def split: prod.splits)
  next
    case (D_Len i time level)
    with d step line show ?thesis
      by (intro drain_quiet [OF inv, of "D_Msg i time level (rec_len (slot s C))"])
        (auto simp: DrainLoop_step_def read drain_ok_def slot_drain holds_line_def split: prod.splits)
  next
    case (D_Msg i time level len)
    obtain tm lv tx where l: "ls ! C = (tm, lv, tx)" by (cases "ls ! C")
    from D_Msg d have i: "i = of_nat C" "C < H" "time = tm" "level = lv" "len = rec_len (slot s C)"
      by (simp_all add: drain_ok_def l)
    from line [OF i(2)] have h: "unat len = length tx" "take (length tx) (rec_msg (slot s C)) = tx"
      by (simp_all add: holds_line_def l i(5))
    then have "length tx \<le> length (rec_msg (slot s C))" by (metis length_take min.cobounded1)
    with h i step D_Msg have "e = Sink_Log tm (ToSpdlogLevel lv) tx" "t = s\<lparr>drain := D_Free (of_nat C)\<rparr>"
      by (auto simp: DrainLoop_step_def emit_slot_def slot_get [OF ring])
    with D_Msg d counts show ?thesis
      by (auto simp: drain_result_def sink_line_def l drain_ok_def rt_counts_def
          intro!: rt_inv_at_drain [OF inv] exI [of _ H])
  next
    case (D_Free i)
    with step d have t: "e = Drain_Step" "t = s\<lparr>tail := of_nat (Suc C), drain := D_Tail\<rparr>" "C < H"
      by (auto simp: DrainLoop_step_def drain_ok_def)
    then have "rt_inv_at ls (Suc C) V H t"
      using inv by (auto simp: rt_inv_at_def rt_counts_def producer_ok_def drain_ok_def ring_ok_def slot_def
          split: producer_pc.splits)
    then show ?thesis using t D_Free by (auto simp: drain_result_def)
  next
    case D_Tail
    with step have t: "t = s\<lparr>drain := D_Head (tail s)\<rparr>" "e = Drain_Step" by (simp_all add: DrainLoop_step_def)
    have "drain_ok ls C H (s\<lparr>drain := D_Head (tail s)\<rparr>)" using counts by (simp add: drain_ok_def rt_counts_def)
    from drain_quiet [OF inv this] t D_Tail show ?thesis by simp
  next
    case D_Running
    with step have t: "t = s\<lparr>drain := (if running s \<or> v \<noteq> 0 then D_Sleep else D_Flush)\<rparr>" "e = Drain_Step"
      by (simp_all add: DrainLoop_step_def)
    have "drain_ok ls C H (s\<lparr>drain := (if running s \<or> v \<noteq> 0 then D_Sleep else D_Flush)\<rparr>)"
      using d D_Running by (simp add: drain_ok_def)
    from drain_quiet [OF inv this] t D_Running show ?thesis by simp
  next
    case D_Sleep
    with step have t: "t = s\<lparr>drain := D_Tail\<rparr>" "e = Drain_Step" by (simp_all add: DrainLoop_step_def)
    have "drain_ok ls C H (s\<lparr>drain := D_Tail\<rparr>)" by (simp add: drain_ok_def)
    from drain_quiet [OF inv this] t D_Sleep show ?thesis by simp
  next
    case D_Flush
    with step have t: "t = s\<lparr>drain := D_Done\<rparr>" "e = Sink_Flush" by (simp_all add: DrainLoop_step_def)
    have "drain_ok ls C H (s\<lparr>drain := D_Done\<rparr>)" using d D_Flush by (simp add: drain_ok_def)
    from drain_quiet [OF inv this] t D_Flush show ?thesis by simp
  qed (use step in \<open>simp add: DrainLoop_step_def\<close>)
qed

subsection \<open>Every step\<close>

lemma rt_invD:
  assumes "rt_inv es s"
  obtains V H where "rt_inv_at (published es) (freed (drain s) (length (delivered es))) V H s"
    and "is_free (drain s) \<Longrightarrow> delivered es \<noteq> []"
    and "delivered es = map sink_line (take (length (delivered es)) (published es))"
    and "Undefined \<notin> set es"
  using assms by (auto simp: rt_inv_def)

lemma delivered_le: "ds = map f (take (length ds) ls) \<Longrightarrow> length ds \<le> length ls"
  by (metis length_map length_take min.cobounded1)

lemma take_append_le: "n \<le> length xs \<Longrightarrow> take n (xs @ ys) = take n xs"
  by simp

lemma rt_inv_quiet:
  assumes "rt_inv es s" and "drain t = drain s" and "e \<noteq> Undefined" and "delivered_line e = []"
    and "\<And>C V H. rt_inv_at (published es) C V H s \<Longrightarrow> \<exists>V' H'. rt_inv_at (published es @ published_line e) C V' H' t"
  shows "rt_inv (es @ [e]) t"
proof -
  from assms(1) obtain V H where inv: "rt_inv_at (published es) (freed (drain s) (length (delivered es))) V H s"
    and f: "is_free (drain s) \<Longrightarrow> delivered es \<noteq> []"
    and dl: "delivered es = map sink_line (take (length (delivered es)) (published es))"
    and u: "Undefined \<notin> set es"
    by (rule rt_invD) blast
  have "take (length (delivered es)) (published es @ published_line e) = take (length (delivered es)) (published es)"
    by (rule take_append_le [OF delivered_le [OF dl]])
  with assms(5) [OF inv] assms(2-4) f dl u show ?thesis by (auto simp: rt_inv_def)
qed

lemma rt_inv_log: "rt_inv es s \<Longrightarrow> Log_step v now s = Some (e, t) \<Longrightarrow> rt_inv (es @ [e]) t"
proof -
  assume inv: "rt_inv es s" and step: "Log_step v now s = Some (e, t)"
  have "producer_result (published es) C V H s e t" if "rt_inv_at (published es) C V H s" for C V H
    by (rule Log_step_inv [OF that step])
  moreover from this inv have "e \<noteq> Undefined \<and> delivered_line e = [] \<and> drain t = drain s"
    by (elim rt_invD) (force simp: producer_result_def)
  ultimately show ?thesis
    by (intro rt_inv_quiet [OF inv]) (auto simp: producer_result_def, blast)
qed

lemma rt_inv_drain: "rt_inv es s \<Longrightarrow> DrainLoop_step v s = Some (e, t) \<Longrightarrow> rt_inv (es @ [e]) t"
proof -
  assume "rt_inv es s" and step: "DrainLoop_step v s = Some (e, t)"
  then obtain V H where inv: "rt_inv_at (published es) (freed (drain s) (length (delivered es))) V H s"
    and f: "is_free (drain s) \<Longrightarrow> delivered es \<noteq> []"
    and dl: "delivered es = map sink_line (take (length (delivered es)) (published es))"
    and u: "Undefined \<notin> set es"
    by (elim rt_invD) blast
  note r = DrainLoop_step_inv [OF inv step, unfolded drain_result_def]
  show ?thesis
  proof (cases "is_free (drain s)")
    case True
    then have "Suc (length (delivered es) - 1) = length (delivered es)" using f by (cases "delivered es") auto
    with True r dl u show ?thesis by (auto simp: rt_inv_def freed_def)
  next
    case False
    note nofree = this
    show ?thesis
    proof (cases "is_free (drain t)")
      case True
      have "take (Suc (length (delivered es))) (published es)
          = take (length (delivered es)) (published es) @ [published es ! length (delivered es)]"
        using r nofree True by (intro take_Suc_conv_app_nth) (simp add: freed_def)
      then show ?thesis using r nofree True dl u by (auto simp: rt_inv_def freed_def)
    next
      case False
      then show ?thesis using r nofree dl u by (auto simp: rt_inv_def freed_def)
    qed
  qed
qed

definition rt_start :: "rt_logger \<Rightarrow> bool" where
  "rt_start s \<longleftrightarrow> (\<exists>env n garbage. RtLogger env n garbage = Some s)"

lemma ring_size_pow2: "ring_size n = Some cap \<Longrightarrow> \<exists>k<64. cap = 2 ^ k"
  using round_up_pow2 [of 0 n] round_up_large [of 0 n]
  by (cases "n \<le> 2 ^ 63") (auto simp: ring_size_def simp flip: not_le)

lemma rt_start_fields:
  assumes "rt_start s"
  shows "producer s = P_Idle \<and> dropped s = 0 \<and> head s = 0 \<and> tail s = 0 \<and> flusher s = F_Idle
    \<and> flush_head_view s = 0 \<and> flush_tail_view s = 0 \<and> running s \<and> owner s = O_Alive \<and> drain s = D_Tail
    \<and> producer_view s = 0 \<and> drain_view s = 0 \<and> stale_levels s = []"
proof -
  from assms obtain env n garbage where "RtLogger env n garbage = Some s" by (auto simp: rt_start_def)
  then show ?thesis by (auto simp: RtLogger_def split: option.splits if_splits)
qed

lemma rt_inv_start: "rt_start s \<Longrightarrow> rt_inv [] s"
proof -
  assume "rt_start s"
  then obtain env n garbage where "RtLogger env n garbage = Some s" by (auto simp: rt_start_def)
  then obtain cap where cap: "ring_size n = Some cap" "length garbage = unat cap"
    "list_all (\<lambda>m. length m = kMaxMsgLen) garbage" and
    s: "capacity s = cap" "index_mask s = cap - 1" "ring s = map new_record garbage" "head s = 0" "tail s = 0"
      "producer s = P_Idle" "producer_view s = 0" "drain s = D_Tail" "drain_view s = 0" "running s"
    by (auto simp: RtLogger_def split: option.splits if_splits)
  from ring_size_pow2 [OF cap(1)] obtain k where "k < 64" "cap = 2 ^ k" by blast
  with cap s have "rt_inv_at [] 0 0 0 s"
    by (auto simp: rt_inv_at_def ring_ok_def rt_counts_def producer_ok_def drain_ok_def new_record_def list_all_iff)
  then show ?thesis using s(8) by (auto simp: rt_inv_def freed_def)
qed

lemma rt_inv_step: "rt_inv es s \<Longrightarrow> rt_step s e t \<Longrightarrow> rt_inv (es @ [e]) t"
proof -
  assume inv: "rt_inv es s" and "rt_step s e t"
  have frame: "rt_inv (es @ [e]) t" if "drain t = drain s" "e \<noteq> Undefined" "delivered_line e = []" "published_line e = []"
    "ring t = ring s" "capacity t = capacity s" "index_mask t = index_mask s" "head t = head s" "tail t = tail s"
    "producer_view t = producer_view s" "drain_view t = drain_view s" "running t \<longrightarrow> running s"
    "producer t = producer s \<or> (\<exists>l out. producer t = P_Filter l out)"
  proof (rule rt_inv_quiet [OF inv that(1-3)])
    fix C V H
    assume "rt_inv_at (published es) C V H s"
    then have "rt_inv_at (published es) C V H t"
      by (rule rt_inv_at_frame) (use that in \<open>auto simp: producer_ok_def\<close>)
    with that(4) show "\<exists>V' H'. rt_inv_at (published es @ published_line e) C V' H' t" by auto
  qed
  from \<open>rt_step s e t\<close> show ?thesis
  proof cases
    case (log v now)
    with inv show ?thesis by (blast intro: rt_inv_log)
  next
    case (drain v)
    with inv show ?thesis by (blast intro: rt_inv_drain)
  next
    case (flush v)
    then show ?thesis
      by (intro frame) (auto simp: Flush_step_def split: flush_pc.splits if_splits)
  qed (rule frame; simp add: SetLevel_def)+
qed

interpretation rt: trace_invariant rt_step rt_start rt_inv
  by unfold_locales (auto intro: rt_inv_start rt_inv_step)

section \<open>One outcome per call\<close>

fun call_of :: "rt_event \<Rightarrow> (LogLevel \<times> fmt_outcome) list" where
  "call_of (Log_Call level out) = [(level, out)]"
| "call_of _ = []"

fun outcome_of :: "rt_event \<Rightarrow> rt_event list" where
  "outcome_of Filtered = [Filtered]"
| "outcome_of Dropped = [Dropped]"
| "outcome_of (Published time level text) = [Published time level text]"
| "outcome_of _ = []"

fun producer_event :: "rt_event \<Rightarrow> bool" where
  "producer_event Log_Step \<longleftrightarrow> True"
| "producer_event Filtered \<longleftrightarrow> True"
| "producer_event Dropped \<longleftrightarrow> True"
| "producer_event (Published _ _ _) \<longleftrightarrow> True"
| "producer_event _ \<longleftrightarrow> False"

definition calls :: "rt_event list \<Rightarrow> (LogLevel \<times> fmt_outcome) list" where
  "calls es = concat (map call_of es)"

definition outcomes :: "rt_event list \<Rightarrow> rt_event list" where
  "outcomes es = concat (map outcome_of es)"

lemma calls_simps [simp]: "calls [] = []" "calls (es @ fs) = calls es @ calls fs" "calls (e # es) = call_of e @ calls es"
  by (simp_all add: calls_def)

lemma outcomes_simps [simp]:
  "outcomes [] = []" "outcomes (es @ fs) = outcomes es @ outcomes fs" "outcomes (e # es) = outcome_of e @ outcomes es"
  by (simp_all add: outcomes_def)

text \<open>The call an outcome belongs to: filtered, dropped, or published with its level and text.\<close>

definition outcome_matches :: "LogLevel \<times> fmt_outcome \<Rightarrow> rt_event \<Rightarrow> bool" where
  "outcome_matches c e \<longleftrightarrow> e = Filtered \<or> e = Dropped
     \<or> (\<exists>time. e = Published time (fst c) (slot_text kMaxMsgLen (snd c)))"

text \<open>The call in progress, and how many of its at most 8 accesses are left.\<close>

definition call_in_progress :: "producer_pc \<Rightarrow> LogLevel \<times> fmt_outcome \<Rightarrow> bool" where
  "call_in_progress pc c \<longleftrightarrow> (case pc of
     P_Idle \<Rightarrow> False | P_Filter l out \<Rightarrow> c = (l, out) | P_Head l out \<Rightarrow> c = (l, out) | P_Tail l out _ \<Rightarrow> c = (l, out)
   | P_Drop \<Rightarrow> True | P_Level l out _ \<Rightarrow> c = (l, out) | P_Time l out _ \<Rightarrow> c = (l, out)
   | P_Format l out _ _ \<Rightarrow> c = (l, out) | P_Len l out _ _ _ \<Rightarrow> c = (l, out) | P_Publish l out _ _ \<Rightarrow> c = (l, out))"

definition steps_left :: "producer_pc \<Rightarrow> nat" where
  "steps_left pc = (case pc of
     P_Idle \<Rightarrow> 0 | P_Filter _ _ \<Rightarrow> 8 | P_Head _ _ \<Rightarrow> 7 | P_Tail _ _ _ \<Rightarrow> 6 | P_Drop \<Rightarrow> 5 | P_Level _ _ _ \<Rightarrow> 5
   | P_Time _ _ _ \<Rightarrow> 4 | P_Format _ _ _ _ \<Rightarrow> 3 | P_Len _ _ _ _ _ \<Rightarrow> 2 | P_Publish _ _ _ _ \<Rightarrow> 1)"

definition account_inv :: "rt_event list \<Rightarrow> rt_logger \<Rightarrow> bool" where
  "account_inv es s \<longleftrightarrow> Undefined \<in> set es \<or>
     (if producer s = P_Idle then list_all2 outcome_matches (calls es) (outcomes es)
      else \<exists>cs c. calls es = cs @ [c] \<and> call_in_progress (producer s) c \<and> list_all2 outcome_matches cs (outcomes es))
     \<and> dropped s = of_nat (length (filter (\<lambda>e. e = Dropped) (outcomes es)))
     \<and> length (filter producer_event es) + steps_left (producer s) \<le> 8 * length (calls es)"

lemma account_inv_call:
  "account_inv es s \<Longrightarrow> producer s = P_Idle \<Longrightarrow> account_inv (es @ [Log_Call l out]) (s\<lparr>producer := P_Filter l out\<rparr>)"
  by (auto simp: account_inv_def call_in_progress_def steps_left_def)

lemma account_inv_other:
  "account_inv es s \<Longrightarrow> producer t = producer s \<Longrightarrow> dropped t = dropped s \<Longrightarrow> call_of e = [] \<Longrightarrow> outcome_of e = [] \<Longrightarrow>
     \<not> producer_event e \<Longrightarrow> account_inv (es @ [e]) t"
  by (auto simp: account_inv_def)

text \<open>A step inside a call either goes on with the same call or ends it with an outcome.\<close>

lemma Log_step_progress:
  assumes "Log_step v now s = Some (e, t)" and "call_in_progress (producer s) c"
  shows "e = Undefined \<or>
     (e = Log_Step \<and> producer t \<noteq> P_Idle \<and> call_in_progress (producer t) c \<and> dropped t = dropped s
        \<and> steps_left (producer t) < steps_left (producer s)) \<or>
     (outcome_of e = [e] \<and> call_of e = [] \<and> producer_event e \<and> producer t = P_Idle \<and> outcome_matches c e
        \<and> dropped t = dropped s + of_bool (e = Dropped) \<and> 0 < steps_left (producer s))"
  using assms
  by (cases "producer s")
    (auto simp: Log_step_def with_slot_def format_slot_def call_in_progress_def steps_left_def outcome_matches_def
      split: if_splits option.splits prod.splits)

lemma account_inv_log:
  assumes inv: "account_inv es s" and step: "Log_step v now s = Some (e, t)"
  shows "account_inv (es @ [e]) t"
proof (cases "Undefined \<in> set (es @ [e])")
  case False
  from step have busy: "producer s \<noteq> P_Idle" by (auto simp: Log_step_def)
  with inv False obtain cs c where c: "calls es = cs @ [c]" "call_in_progress (producer s) c"
    "list_all2 outcome_matches cs (outcomes es)"
    and d: "dropped s = of_nat (length (filter (\<lambda>e. e = Dropped) (outcomes es)))"
    and n: "length (filter producer_event es) + steps_left (producer s) \<le> 8 * length (calls es)"
    by (auto simp: account_inv_def)
  from Log_step_progress [OF step c(2)] False show ?thesis
    using c d n by (auto simp: account_inv_def list_all2_appendI steps_left_def [of P_Idle] simp del: split_paired_Ex)
qed (simp add: account_inv_def)

fun known_after :: "u64 \<Rightarrow> rt_event \<Rightarrow> u64" where
  "known_after v (Flush_Call known) = known"
| "known_after v _ = v"

lemma Log_step_frame:
  assumes "Log_step v now s = Some (e, t)"
  shows "tail t = tail s \<and> drain t = drain s \<and> min_level t = min_level s \<and> running t = running s
     \<and> owner t = owner s \<and> flusher t = flusher s \<and> flush_head_view t = flush_head_view s
     \<and> flush_tail_view t = flush_tail_view s \<and> (\<forall>v. known_after v e = v)"
  using assms
  by (cases "producer s")
    (auto simp: Log_step_def with_slot_def format_slot_def split: if_splits option.splits prod.splits)

lemma DrainLoop_step_frame:
  assumes "DrainLoop_step v s = Some (e, t)"
  shows "producer t = producer s \<and> dropped t = dropped s \<and> min_level t = min_level s \<and> stale_levels t = stale_levels s \<and> head t = head s
     \<and> running t = running s \<and> owner t = owner s \<and> flusher t = flusher s
     \<and> flush_head_view t = flush_head_view s \<and> flush_tail_view t = flush_tail_view s
     \<and> call_of e = [] \<and> outcome_of e = [] \<and> \<not> producer_event e \<and> (\<forall>v. known_after v e = v)"
  using assms
  by (cases "drain s")
    (auto simp: DrainLoop_step_def read_slot_def emit_slot_def Let_def split: if_splits option.splits)

lemma Flush_step_frame:
  assumes "Flush_step v s = Some (e, t)"
  shows "producer t = producer s \<and> dropped t = dropped s \<and> min_level t = min_level s \<and> stale_levels t = stale_levels s \<and> head t = head s
     \<and> tail t = tail s \<and> drain t = drain s \<and> owner t = owner s \<and> running t = running s
     \<and> call_of e = [] \<and> outcome_of e = [] \<and> \<not> producer_event e \<and> published_line e = [] \<and> delivered_line e = []
     \<and> (\<forall>v. known_after v e = v)"
  using assms by (cases "flusher s") (auto simp: Flush_step_def split: if_splits)

lemma account_inv_step: "account_inv es s \<Longrightarrow> rt_step s e t \<Longrightarrow> account_inv (es @ [e]) t"
proof -
  assume inv: "account_inv es s" and "rt_step s e t"
  from this(2) show ?thesis
  proof cases
    case (log v now)
    with inv show ?thesis by (blast intro: account_inv_log)
  next
    case (drain v)
    from account_inv_other [OF inv] DrainLoop_step_frame [OF this] show ?thesis by blast
  next
    case (flush v)
    from account_inv_other [OF inv] Flush_step_frame [OF this] show ?thesis by blast
  next
    case (log_call l out)
    with inv show ?thesis by (simp add: account_inv_call)
  qed (rule account_inv_other [OF inv]; simp add: SetLevel_def)+
qed

interpretation rt_account: trace_invariant rt_step rt_start account_inv
proof
  show "rt_start s \<Longrightarrow> account_inv [] s" for s
    by (simp add: rt_start_fields account_inv_def steps_left_def)
qed (rule account_inv_step)

section \<open>Flush\<close>

text \<open>How many records the last caller of \<open>Flush\<close> knew to be published when it called.\<close>

definition flush_known :: "rt_event list \<Rightarrow> u64" where
  "flush_known es = foldl known_after 0 es"

lemma flush_known_snoc [simp]: "flush_known (es @ [e]) = known_after (flush_known es) e"
  by (simp add: flush_known_def)

definition flush_ok :: "u64 \<Rightarrow> rt_logger \<Rightarrow> bool" where
  "flush_ok known s \<longleftrightarrow> (case flusher s of
     F_Idle \<Rightarrow> True
   | F_Head i \<Rightarrow> i \<le> tail s \<and> known \<le> flush_head_view s \<and> flush_head_view s \<le> head s \<and> flush_tail_view s \<le> tail s
   | F_Sink i \<Rightarrow> i \<le> tail s \<and> known \<le> i
   | _ \<Rightarrow> known \<le> flush_head_view s \<and> flush_head_view s \<le> head s \<and> flush_tail_view s \<le> tail s)"

definition flush_inv :: "rt_event list \<Rightarrow> rt_logger \<Rightarrow> bool" where
  "flush_inv es s \<longleftrightarrow> rt_inv es s \<and> (length (published es) < 2 ^ 64 \<longrightarrow> flush_ok (flush_known es) s)"

lemma may_load_le:
  assumes "may_load view cur v" and "view \<le> cur"
  shows "view \<le> v \<and> v \<le> cur"
proof -
  have le: "unat view \<le> unat cur" using assms(2) by (simp add: word_le_nat_alt)
  have small: "unat cur - unat view < 2 ^ 64" using unat_less_size [of cur] by (rule le_less_trans [rotated]) simp
  have "may_load (of_nat (unat view)) (of_nat (unat cur)) v" using assms(1) by simp
  from may_load_nat [OF this le small] obtain c where "v = of_nat c" "unat view \<le> c" "c \<le> unat cur" .
  moreover from this(3) have "unat (of_nat c :: u64) = c"
    using unat_less_size [of cur] by (intro unat_of_nat_small) (rule le_less_trans)
  ultimately show ?thesis by (simp add: word_le_nat_alt)
qed

lemma rt_inv_indices:
  assumes "rt_inv es s" and "length (published es) < 2 ^ 64"
  shows "unat (head s) = length (published es)" and "unat (tail s) = freed (drain s) (length (delivered es))"
    and "tail s \<le> head s"
proof -
  from assms(1) obtain V H where "rt_inv_at (published es) (freed (drain s) (length (delivered es))) V H s"
    by (rule rt_invD)
  then have c: "head s = of_nat (length (published es))" "tail s = of_nat (freed (drain s) (length (delivered es)))"
    "freed (drain s) (length (delivered es)) \<le> length (published es)"
    by (auto simp: rt_inv_at_def rt_counts_def)
  show h: "unat (head s) = length (published es)" using c(1) assms(2) by (simp only: unat_of_nat_small)
  show t: "unat (tail s) = freed (drain s) (length (delivered es))"
    using c(2,3) assms(2) by (simp only: unat_of_nat_small)
  show "tail s \<le> head s" using h t c(3) by (simp only: word_le_nat_alt)
qed

lemma indices_grow:
  assumes "rt_inv es s" and "rt_step s e t" and "length (published (es @ [e])) < 2 ^ 64"
  shows "head s \<le> head t" and "tail s \<le> tail t"
proof -
  have inv': "rt_inv (es @ [e]) t" using assms(1,2) by (rule rt_inv_step)
  have "length (published es) \<le> length (published (es @ [e]))" by simp
  then have small: "length (published es) < 2 ^ 64" using assms(3) by linarith
  note i = rt_inv_indices [OF assms(1) small] and i' = rt_inv_indices [OF inv' assms(3)]
  show "head s \<le> head t" using i(1) i'(1) by (simp add: word_le_nat_alt)
  from assms(2) consider "tail t = tail s" | v where "DrainLoop_step v s = Some (e, t)" "is_free (drain s)"
  proof cases
    case (log v now)
    then show thesis using that(1) Log_step_frame by blast
  next
    case (drain v)
    show thesis
    proof (cases "is_free (drain s)")
      case True
      with drain that(2) show ?thesis by blast
    next
      case False
      with drain show ?thesis using that(1)
        by (cases "drain s") (auto simp: DrainLoop_step_def read_slot_def emit_slot_def split: if_splits option.splits)
    qed
  next
    case (flush v)
    then show thesis using that(1) Flush_step_frame by blast
  qed (use that(1) in \<open>simp_all add: SetLevel_def\<close>)
  then show "tail s \<le> tail t"
  proof cases
    case 2
    then obtain i where "drain s = D_Free i" by (auto elim: is_free.elims)
    with 2(1) have "e = Drain_Step" "drain t = D_Tail" by (auto simp: DrainLoop_step_def)
    then have "freed (drain s) (length (delivered es)) \<le> freed (drain t) (length (delivered (es @ [e])))"
      by (simp add: freed_def)
    then show ?thesis by (simp only: word_le_nat_alt i(2) i'(2))
  qed simp
qed

lemma flush_ok_mono:
  assumes "flush_ok known s" and "head s \<le> head t" and "tail s \<le> tail t" and "flusher t = flusher s"
    and "flush_head_view t = flush_head_view s" and "flush_tail_view t = flush_tail_view s"
  shows "flush_ok known t"
  using assms by (cases "flusher s") (auto simp: flush_ok_def)

lemma flush_ok_step:
  assumes "flush_ok known s" and "Flush_step v s = Some (e, t)"
  shows "flush_ok known t"
proof (cases "flusher s")
  case F_Tail
  with assms(2) have v: "may_load (flush_tail_view s) (tail s) v"
    and t: "t = s\<lparr>flush_tail_view := v, flusher := F_Head v\<rparr>"
    by (auto simp: Flush_step_def split: if_splits)
  from F_Tail assms(1) have "flush_tail_view s \<le> tail s" by (simp add: flush_ok_def)
  from may_load_le [OF v this] F_Tail assms(1) t show ?thesis by (auto simp: flush_ok_def)
next
  case (F_Head i)
  with assms(2) have v: "may_load (flush_head_view s) (head s) v"
    and t: "t = s\<lparr>flush_head_view := v, flusher := (if i \<noteq> v then F_Sleep else F_Sink i)\<rparr>"
    by (auto simp: Flush_step_def split: if_splits)
  from F_Head assms(1) have "flush_head_view s \<le> head s" by (simp add: flush_ok_def)
  from may_load_le [OF v this] F_Head assms(1) t show ?thesis by (auto simp: flush_ok_def)
qed (use assms in \<open>auto simp: flush_ok_def Flush_step_def\<close>)

lemma flush_inv_step: "flush_inv es s \<Longrightarrow> rt_step s e t \<Longrightarrow> flush_inv (es @ [e]) t"
proof -
  assume "flush_inv es s" and step: "rt_step s e t"
  then have inv: "rt_inv es s" and ok: "length (published es) < 2 ^ 64 \<Longrightarrow> flush_ok (flush_known es) s"
    by (auto simp: flush_inv_def)
  have "flush_ok (flush_known (es @ [e])) t" if small: "length (published (es @ [e])) < 2 ^ 64"
  proof -
    have "length (published es) \<le> length (published (es @ [e]))" by simp
    then have f: "flush_ok (flush_known es) s" using small by (intro ok) (rule le_less_trans)
    note grow = indices_grow [OF inv step small]
    from step show ?thesis
    proof cases
      case (log v now)
      with Log_step_frame [OF this] flush_ok_mono [OF f grow] show ?thesis by simp
    next
      case (drain v)
      with DrainLoop_step_frame [OF this] flush_ok_mono [OF f grow] show ?thesis by simp
    next
      case (flush v)
      with Flush_step_frame [OF this] flush_ok_step [OF f this] show ?thesis by simp
    next
      case (flush_call known)
      then show ?thesis by (simp add: flush_ok_def)
    qed (use flush_ok_mono [OF f grow] in \<open>simp_all add: SetLevel_def\<close>)
  qed
  with rt_inv_step [OF inv step] show ?thesis by (simp add: flush_inv_def)
qed

interpretation rt_flush: trace_invariant rt_step rt_start flush_inv
proof
  show "rt_start s \<Longrightarrow> flush_inv [] s" for s
    by (simp add: flush_inv_def rt_inv_start rt_start_fields flush_ok_def)
qed (rule flush_inv_step)

lemma Flush_returned:
  assumes "rt_start s0" and "run rt_step s0 (es @ [Flush_Return]) t" and "length (published es) < 2 ^ 64"
  shows "unat (flush_known es) \<le> length (delivered es)
    \<and> take (unat (flush_known es)) (delivered es) = map sink_line (take (unat (flush_known es)) (published es))"
proof -
  from assms(2) obtain s' where s': "run rt_step s0 es s'" "rt_step s' Flush_Return t"
    by (auto elim: run.cases)
  have inv: "rt_inv es s'" and "flush_inv es s'"
    by (rule rt.inv_run [OF s'(1) assms(1)], rule rt_flush.inv_run [OF s'(1) assms(1)])
  then have ok: "flush_ok (flush_known es) s'" using assms(3) by (simp add: flush_inv_def)
  from s'(2) obtain v where "Flush_step v s' = Some (Flush_Return, t)"
    by cases (auto simp: Log_step_def DrainLoop_step_def with_slot_def format_slot_def read_slot_def emit_slot_def
        split: producer_pc.splits drain_pc.splits if_splits option.splits prod.splits)
  then obtain i where "flusher s' = F_Sink i"
    by (cases "flusher s'") (auto simp: Flush_step_def split: if_splits)
  with ok have "flush_known es \<le> tail s'" by (auto simp: flush_ok_def)
  then have "unat (flush_known es) \<le> freed (drain s') (length (delivered es))"
    using rt_inv_indices(2) [OF inv assms(3)] by (simp add: word_le_nat_alt)
  then have le: "unat (flush_known es) \<le> length (delivered es)" by (simp add: freed_def split: if_splits)
  from inv have "delivered es = map sink_line (take (length (delivered es)) (published es))" by (rule rt_invD)
  then have "take (unat (flush_known es)) (delivered es)
      = take (unat (flush_known es)) (map sink_line (take (length (delivered es)) (published es)))" by simp
  also have "\<dots> = map sink_line (take (unat (flush_known es)) (published es))"
    using le by (simp add: take_map min_absorb1)
  finally show ?thesis using le by simp
qed

section \<open>Level filter\<close>

fun sets_level_below :: "LogLevel \<Rightarrow> rt_event \<Rightarrow> bool" where
  "sets_level_below l (Level_Set k) \<longleftrightarrow> k < l"
| "sets_level_below _ _ \<longleftrightarrow> False"

definition accepted_level :: "LogLevel \<Rightarrow> producer_pc \<Rightarrow> bool" where
  "accepted_level l pc \<longleftrightarrow> (case pc of
     P_Head k _ \<Rightarrow> l \<le> k | P_Tail k _ _ \<Rightarrow> l \<le> k | P_Level k _ _ \<Rightarrow> l \<le> k | P_Time k _ _ \<Rightarrow> l \<le> k
   | P_Format k _ _ _ \<Rightarrow> l \<le> k | P_Len k _ _ _ _ \<Rightarrow> l \<le> k | P_Publish k _ _ _ \<Rightarrow> l \<le> k | _ \<Rightarrow> True)"

definition level_inv :: "LogLevel \<Rightarrow> rt_event list \<Rightarrow> rt_logger \<Rightarrow> bool" where
  "level_inv l es s \<longleftrightarrow> (\<exists>e\<in>set es. sets_level_below l e) \<or>
     ((\<forall>k\<in>set (visible_levels s). l \<le> k) \<and> accepted_level l (producer s) \<and> (\<forall>line\<in>set (published es). l \<le> fst (snd line)))"

lemma Log_step_level:
  assumes "Log_step v now s = Some (e, t)" and "accepted_level l (producer s)" and "\<forall>k\<in>set (visible_levels s). l \<le> k"
  shows "accepted_level l (producer t) \<and> (\<forall>line\<in>set (published_line e). l \<le> fst (snd line))"
proof (cases "producer s")
  case (P_Filter level out)
  with assms(1) have "\<not> level < visible_levels s ! unat v \<longrightarrow> l \<le> level"
    using assms(3) by (auto simp: Log_step_def not_less split: if_splits dest!: nth_mem intro: order_trans)
  with P_Filter assms(1) show ?thesis by (auto simp: Log_step_def accepted_level_def split: if_splits)
qed (use assms in \<open>auto simp: Log_step_def with_slot_def format_slot_def accepted_level_def
      split: if_splits option.splits prod.splits\<close>)

lemma Log_step_visible:
  assumes "Log_step v now s = Some (e, t)"
  shows "set (visible_levels t) \<subseteq> set (visible_levels s)"
proof (cases "producer s")
  case (P_Filter level out)
  with assms visible_known [of "unat v" s] show ?thesis
    by (auto simp: Log_step_def visible_levels_def split: if_splits)
qed (use assms in \<open>auto simp: Log_step_def with_slot_def format_slot_def visible_levels_def
      split: if_splits option.splits prod.splits\<close>)

lemma level_inv_step: "level_inv l es s \<Longrightarrow> rt_step s e t \<Longrightarrow> level_inv l (es @ [e]) t"
proof -
  assume inv: "level_inv l es s" and "rt_step s e t"
  from this(2) show ?thesis
  proof cases
    case (log v now)
    with Log_step_visible [OF this] Log_step_level [OF this, of l] inv show ?thesis by (auto simp: level_inv_def)
  next
    case (drain v)
    with DrainLoop_step_frame [OF this] inv visible_levels_cong [of t s] show ?thesis
      by (cases e) (auto simp: level_inv_def)
  next
    case (flush v)
    with Flush_step_frame [OF this] inv visible_levels_cong [of t s] show ?thesis by (auto simp: level_inv_def)
  next
    case (level_known n)
    with visible_known [of n s] inv show ?thesis by (auto simp: level_inv_def)
  qed (use inv in \<open>auto simp: level_inv_def accepted_level_def SetLevel_def visible_levels_def not_less\<close>)
qed

interpretation rt_level: trace_invariant rt_step "\<lambda>s. producer s = P_Idle \<and> (\<forall>k\<in>set (visible_levels s). l \<le> k)"
    "level_inv l" for l
proof
  show "producer s = P_Idle \<and> (\<forall>k\<in>set (visible_levels s). l \<le> k) \<Longrightarrow> level_inv l [] s" for s
    by (simp add: level_inv_def accepted_level_def)
qed (rule level_inv_step)

section \<open>Progress of the drain thread\<close>

text \<open>Steps of the drain thread alone, its loads returning the current values.\<close>

definition current_load :: "rt_logger \<Rightarrow> u64" where
  "current_load s = (case drain s of D_Head _ \<Rightarrow> head s | _ \<Rightarrow> 0)"

definition drain_alone :: "rt_logger \<Rightarrow> rt_event \<Rightarrow> rt_logger \<Rightarrow> bool" where
  "drain_alone s e t \<longleftrightarrow> DrainLoop_step (current_load s) s = Some (e, t)"

definition drain_steps_left :: "drain_pc \<Rightarrow> nat" where
  "drain_steps_left pc = (case pc of
     D_Running \<Rightarrow> 9 | D_Sleep \<Rightarrow> 8 | D_Tail \<Rightarrow> 7 | D_Head _ \<Rightarrow> 6 | D_Time _ \<Rightarrow> 5 | D_Level _ _ \<Rightarrow> 4 | D_Len _ _ _ \<Rightarrow> 3
   | D_Msg _ _ _ _ \<Rightarrow> 2 | D_Free _ \<Rightarrow> 1 | _ \<Rightarrow> 0)"

definition unread :: "rt_event list \<Rightarrow> rt_logger \<Rightarrow> nat" where
  "unread es s = length (published es) - freed (drain s) (length (delivered es))"

lemma drain_alone_step: "drain_alone s e t \<Longrightarrow> rt_step s e t"
  by (auto simp: drain_alone_def intro: rt_step.drain)

lemma drain_alone_run: "run drain_alone s es t \<Longrightarrow> run rt_step s es t"
  by (induction rule: run.induct) (auto intro: run.intros drain_alone_step)

lemma drain_alone_frame:
  "run drain_alone s es t \<Longrightarrow> running t = running s \<and> head t = head s \<and> published es = []
     \<and> owner t = owner s \<and> flusher t = flusher s \<and> producer t = producer s"
proof (induction rule: run.induct)
  case (run_snoc s es t e u)
  then have step: "DrainLoop_step (current_load t) t = Some (e, u)" by (simp add: drain_alone_def)
  have "published_line e = []"
    using DrainLoop_step_frame [OF step] by (cases e) auto
  with run_snoc DrainLoop_step_frame [OF step] show ?case by simp
qed simp

text \<open>
  Has the thread still to look for records before it leaves its loop? Not between the load of
  \<open>head_\<close> that found the ring empty and the load of \<open>running_\<close>.
\<close>

definition reads_on :: "drain_pc \<Rightarrow> bool" where
  "reads_on pc \<longleftrightarrow> pc \<noteq> D_Running \<and> pc \<noteq> D_Flush \<and> pc \<noteq> D_Done"

lemma drain_alone_progress:
  assumes inv: "rt_inv es s" and run: "running s \<or> reads_on (drain s)" and todo: "0 < unread es s"
  obtains e t where "drain_alone s e t" and "running t \<or> reads_on (drain t)" and "published_line e = []"
    and "7 * unread (es @ [e]) t + drain_steps_left (drain t) < 7 * unread es s + drain_steps_left (drain s)"
proof -
  let ?ls = "published es" and ?D = "length (delivered es)"
  define C where "C = freed (drain s) ?D"
  from inv obtain V H where at: "rt_inv_at ?ls C V H s" and ne: "is_free (drain s) \<Longrightarrow> delivered es \<noteq> []"
    unfolding C_def by (rule rt_invD) blast
  then have ring: "ring_ok s" and counts: "rt_counts ?ls C V H s" and d: "drain_ok ?ls C H s"
    by (simp_all add: rt_inv_at_def)
  have C: "C < length ?ls" using todo by (simp add: unread_def C_def)
  have read: "read_slot s (of_nat C) pc = (Drain_Step, s\<lparr>drain := pc (slot s C)\<rparr>)" for pc
    by (simp add: read_slot_def slot_get [OF ring])
  have load: "may_load (drain_view s) (head s) (head s)" by (simp add: may_load_def)
  note cap = capacity_bound [OF ring]
  have "length ?ls \<le> C + 2 ^ 63" using counts cap unfolding rt_counts_def by linarith
  then have "length ?ls - C < 2 ^ 64" by simp
  then have ne_head: "(of_nat C :: u64) \<noteq> head s"
    using of_nat_eq_near [of "length ?ls" C] C counts by (auto simp: rt_counts_def)
  have step: "\<exists>e t. drain_alone s e t \<and> 7 * unread (es @ [e]) t + drain_steps_left (drain t)
      < 7 * unread es s + drain_steps_left (drain s) \<and> (reads_on (drain s) \<longrightarrow> reads_on (drain t))"
  proof (cases "drain s")
    case (D_Msg i time level len)
    from at D_Msg have i: "i = of_nat C" "len = rec_len (slot s C)" "C < H" by (auto simp: rt_inv_at_def drain_ok_def)
    with counts have "holds_line (slot s C) (?ls ! C)" by (simp add: rt_counts_def)
    then have "\<not> length (rec_msg (slot s C)) < unat len"
      unfolding holds_line_def i(2) by (auto split: prod.splits dest!: arg_cong [where f = length])
    with D_Msg i have "drain_alone s (Sink_Log time (ToSpdlogLevel level) (take (unat len) (rec_msg (slot s C))))
        (s\<lparr>drain := D_Free i\<rparr>)"
      by (simp add: drain_alone_def current_load_def DrainLoop_step_def emit_slot_def slot_get [OF ring])
    with D_Msg show ?thesis
      by (intro exI conjI) (assumption, simp_all add: unread_def freed_def drain_steps_left_def reads_on_def)
  next
    case (D_Free i)
    with ne obtain n where "?D = Suc n" by (cases "delivered es") auto
    with D_Free C show ?thesis
      by (auto simp: drain_alone_def current_load_def DrainLoop_step_def unread_def freed_def C_def drain_steps_left_def
          reads_on_def)
  next
    case (D_Head i)
    with d have i: "i = of_nat C" by (simp add: drain_ok_def)
    with D_Head ne_head load show ?thesis
      by (simp add: drain_alone_def current_load_def DrainLoop_step_def unread_def freed_def drain_steps_left_def
          reads_on_def)
  qed (use d run load in \<open>auto simp: drain_alone_def current_load_def DrainLoop_step_def drain_ok_def read unread_def
      freed_def drain_steps_left_def reads_on_def\<close>)
  then obtain e t where et: "drain_alone s e t"
    "7 * unread (es @ [e]) t + drain_steps_left (drain t) < 7 * unread es s + drain_steps_left (drain s)"
    "reads_on (drain s) \<longrightarrow> reads_on (drain t)" by blast
  from drain_alone_frame [OF run_single [where step = drain_alone, OF et(1)]] run et(3)
  have "running t \<or> reads_on (drain t)" "published_line e = []"
    by auto
  with et that show ?thesis by blast
qed

lemma drain_alone_finishes:
  assumes "rt_inv es s" and "running s \<or> reads_on (drain s)"
  shows "\<exists>fs t. run drain_alone s fs t \<and> unread (es @ fs) t = 0
     \<and> length fs \<le> 7 * unread es s + drain_steps_left (drain s)"
  using assms
proof (induction "7 * unread es s + drain_steps_left (drain s)" arbitrary: es s rule: less_induct)
  case less
  show ?case
  proof (cases "unread es s = 0")
    case True
    then show ?thesis by (intro exI [of _ "[]"] exI [of _ s]) (simp add: run_nil)
  next
    case False
    then have "0 < unread es s" by simp
    with less.prems obtain e t where et: "drain_alone s e t" "running t \<or> reads_on (drain t)"
      "7 * unread (es @ [e]) t + drain_steps_left (drain t) < 7 * unread es s + drain_steps_left (drain s)"
      by (rule drain_alone_progress)
    have "rt_inv (es @ [e]) t" by (rule rt_inv_step [OF less.prems(1) drain_alone_step [OF et(1)]])
    from less.hyps [OF et(3) this et(2)] obtain fs u where
      "run drain_alone t fs u" "unread ((es @ [e]) @ fs) u = 0"
      "length fs \<le> 7 * unread (es @ [e]) t + drain_steps_left (drain t)" by blast
    with et show ?thesis
      by (intro exI [of _ "e # fs"] exI [of _ u]) (auto intro: run_cons [where step = drain_alone])
  qed
qed

text \<open>Leaving the loop, once the flag is down and nothing is left to read.\<close>

lemma drain_leaves_running:
  assumes "drain s = D_Running" and "\<not> running s"
  shows "run drain_alone s [Drain_Step, Sink_Flush] (s\<lparr>drain := D_Done\<rparr>)"
proof -
  have "drain_alone s Drain_Step (s\<lparr>drain := D_Flush\<rparr>)"
    using assms by (simp add: drain_alone_def current_load_def DrainLoop_step_def)
  moreover have "drain_alone (s\<lparr>drain := D_Flush\<rparr>) Sink_Flush (s\<lparr>drain := D_Done\<rparr>)"
    by (simp add: drain_alone_def DrainLoop_step_def)
  ultimately show ?thesis by (auto intro!: run_cons [where step = drain_alone] run_nil)
qed

lemma drain_leaves_empty:
  assumes "drain s = D_Tail" and "\<not> running s" and "tail s = head s"
  shows "run drain_alone s [Drain_Step, Drain_Step, Drain_Step, Sink_Flush] (s\<lparr>drain_view := head s, drain := D_Done\<rparr>)"
proof -
  let ?s1 = "s\<lparr>drain := D_Head (head s)\<rparr>" and ?s2 = "s\<lparr>drain_view := head s, drain := D_Running\<rparr>"
  have a: "drain_alone s Drain_Step ?s1"
    using assms by (simp add: drain_alone_def DrainLoop_step_def)
  have b: "drain_alone ?s1 Drain_Step ?s2"
    by (simp add: drain_alone_def current_load_def DrainLoop_step_def may_load_def)
  have "run drain_alone ?s2 [Drain_Step, Sink_Flush] (s\<lparr>drain_view := head s, drain := D_Done\<rparr>)"
    using drain_leaves_running [of ?s2] assms(2) by simp
  from run_cons [where step = drain_alone, OF a run_cons [where step = drain_alone, OF b this]] show ?thesis .
qed

lemma drain_alone_leaves:
  assumes inv: "rt_inv es s" and stop: "\<not> running s" and none: "reads_on (drain s) \<longrightarrow> unread es s = 0"
  shows "\<exists>fs t. run drain_alone s fs t \<and> drain t = D_Done \<and> length fs \<le> 5 \<and> delivered fs = []"
proof -
  from inv obtain V H where at: "rt_inv_at (published es) (freed (drain s) (length (delivered es))) V H s"
    by (rule rt_invD)
  define C where "C = freed (drain s) (length (delivered es))"
  from at have d: "drain_ok (published es) C H s" and c: "rt_counts (published es) C V H s"
    by (simp_all add: rt_inv_at_def C_def)
  have eq: "C = length (published es) \<and> tail s = head s" if "reads_on (drain s)"
  proof -
    have "length (published es) \<le> C" using none that by (simp add: unread_def C_def)
    with c have "C = length (published es)" unfolding rt_counts_def by linarith
    with c show ?thesis by (simp add: rt_counts_def)
  qed
  have busy: "reads_on (drain s) \<Longrightarrow> C < H \<Longrightarrow> thesis" for thesis
    using eq c by (simp add: rt_counts_def)
  show ?thesis
  proof (cases "drain s")
    case D_Tail
    with eq have "tail s = head s" by (simp add: reads_on_def)
    from drain_leaves_empty [OF D_Tail stop this] show ?thesis
      by (intro exI conjI) (assumption, simp_all)
  next
    case (D_Head i)
    let ?t = "s\<lparr>drain_view := head s, drain := D_Running\<rparr>"
    have "i = head s" using D_Head d eq c by (simp add: drain_ok_def reads_on_def rt_counts_def)
    with D_Head have "drain_alone s Drain_Step ?t"
      by (simp add: drain_alone_def current_load_def DrainLoop_step_def may_load_def)
    moreover have "run drain_alone ?t [Drain_Step, Sink_Flush] (?t\<lparr>drain := D_Done\<rparr>)"
      using stop by (intro drain_leaves_running) simp_all
    ultimately have "run drain_alone s [Drain_Step, Drain_Step, Sink_Flush] (?t\<lparr>drain := D_Done\<rparr>)"
      by (rule run_cons)
    then show ?thesis by (intro exI conjI) (assumption, simp_all)
  next
    case D_Sleep
    let ?t = "s\<lparr>drain := D_Tail\<rparr>"
    from D_Sleep have "drain_alone s Drain_Step ?t" by (simp add: drain_alone_def DrainLoop_step_def)
    moreover have "run drain_alone ?t [Drain_Step, Drain_Step, Drain_Step, Sink_Flush]
        (?t\<lparr>drain_view := head s, drain := D_Done\<rparr>)"
      using drain_leaves_empty [of ?t] stop eq D_Sleep by (simp add: reads_on_def)
    ultimately have "run drain_alone s [Drain_Step, Drain_Step, Drain_Step, Drain_Step, Sink_Flush]
        (?t\<lparr>drain_view := head s, drain := D_Done\<rparr>)" by (rule run_cons)
    then show ?thesis by (intro exI conjI) (assumption, simp_all)
  next
    case D_Running
    from drain_leaves_running [OF this stop] show ?thesis by (intro exI conjI) (assumption, simp_all)
  next
    case D_Flush
    then have "drain_alone s Sink_Flush (s\<lparr>drain := D_Done\<rparr>)" by (simp add: drain_alone_def DrainLoop_step_def)
    from run_single [where step = drain_alone, OF this] show ?thesis
      by (intro exI conjI) (assumption, simp_all)
  next
    case D_Done
    then show ?thesis by (intro exI [of _ "[]"] exI [of _ s]) (simp add: run_nil)
  qed (use d busy in \<open>auto simp: drain_ok_def reads_on_def\<close>)
qed

section \<open>Uninterrupted calls\<close>

text \<open>A \<open>Log\<close> call that finds room and is not interrupted, as one run.\<close>

definition log_events :: "LogLevel \<Rightarrow> fmt_outcome \<Rightarrow> time_point \<Rightarrow> rt_event list" where
  "log_events l out now = Log_Call l out # replicate 7 Log_Step @ [Published now l (slot_text kMaxMsgLen out)]"

lemma history_log_events [simp]:
  "published (log_events l out now) = [(now, l, slot_text kMaxMsgLen out)]"
  "delivered (log_events l out now) = []"
  "calls (log_events l out now) = [(l, out)]"
  by (simp_all add: log_events_def published_def delivered_def calls_def)

lemma run_map_cons: "step s e t \<Longrightarrow> \<exists>u. run step t es u \<and> P u \<Longrightarrow> \<exists>u. run step s (e # es) u \<and> P u"
  by (blast intro: run_cons)

lemma Log_uninterrupted:
  assumes "owner s = O_Alive" and "producer s = P_Idle" and "\<not> l < min_level s" and "ring_ok s"
    and "\<not> capacity s \<le> head s - tail s" and "stale_levels s = []"
  shows "\<exists>rs. run rt_step s (log_events l out now)
      (s\<lparr>producer_view := tail s, ring := rs, producer := P_Idle, head := head s + 1\<rparr>)
    \<and> ring_ok (s\<lparr>producer_view := tail s, ring := rs, producer := P_Idle, head := head s + 1\<rparr>)"
proof -
  let ?h = "head s"
  let ?i = "unat ?h mod unat (capacity s)"
  have h: "?h = of_nat (unat ?h)" by simp
  let ?r = "slot s (unat ?h)"
  have msg: "length (rec_msg ?r) = kMaxMsgLen" using assms(4) slot_in_ring [OF assms(4)] by (simp add: ring_ok_def)
  have i: "unat (slot_of s ?h) = ?i" "?i < length (ring s)"
    using assms(4) by (auto elim!: ring_okE simp: slot_of_def unat_slot)
  from FormatInto_slot_text [OF msg, of out] obtain m n where
    f: "FormatInto (rec_msg ?r) kMaxMsgLen out = Some (m, n)" "length m = kMaxMsgLen"
    by (auto simp: kMaxMsgLen_def)
  define r' where "r' = ?r\<lparr>rec_level := l, rec_time := now, rec_msg := m, rec_len := n\<rparr>"
  define q where "q b pc = s\<lparr>producer_view := tail s, ring := (ring s)[?i := b], producer := pc\<rparr>" for b pc
  have pc: "producer (q b pc) = pc" for b pc by (simp add: q_def)
  have q_get: "arr_get (ring (q b pc)) (slot_of (q b pc) ?h) = Some b" for b pc
    using i by (simp add: q_def slot_of_def arr_get_def)
  have w: "with_slot (q b pc) ?h g pc' = (Log_Step, q (g b) pc')" for b pc g pc'
  proof -
    have "arr_set (ring (q b pc)) (slot_of (q b pc) ?h) (g b) = Some ((ring s)[?i := g b])"
      using i by (simp add: q_def slot_of_def arr_set_def)
    then show ?thesis by (simp add: with_slot_def q_get) (simp add: q_def)
  qed
  have s: "arr_get (ring s) (slot_of s ?h) = Some ?r" using slot_get [OF assms(4), of "unat ?h"] by simp
  let ?s1 = "s\<lparr>producer := P_Filter l out\<rparr>" and ?s2 = "s\<lparr>producer := P_Head l out\<rparr>"
    and ?s3 = "s\<lparr>producer := P_Tail l out ?h\<rparr>"
  have "rt_step s (Log_Call l out) ?s1" using assms(1,2) by (rule log_call)
  moreover have "rt_step ?s1 Log_Step ?s2"
    using assms(3,6) by (intro log [of 0 0]) (simp add: Log_step_def)
  moreover have "rt_step ?s2 Log_Step ?s3" by (intro log [of 0 0]) (simp add: Log_step_def)
  moreover have "rt_step ?s3 Log_Step (q ?r (P_Level l out ?h))"
  proof (intro log [of "tail s" 0])
    have "(ring s)[?i := ?r] = ring s" by (simp add: slot_def)
    then show "Log_step (tail s) 0 ?s3 = Some (Log_Step, q ?r (P_Level l out ?h))"
      using assms(5) by (simp add: Log_step_def may_load_def q_def)
  qed
  moreover have "rt_step (q ?r (P_Level l out ?h)) Log_Step (q (?r\<lparr>rec_level := l\<rparr>) (P_Time l out ?h))"
    by (intro log [of 0 0]) (simp add: Log_step_def pc w)
  moreover have "rt_step (q (?r\<lparr>rec_level := l\<rparr>) (P_Time l out ?h)) Log_Step
      (q (?r\<lparr>rec_level := l, rec_time := now\<rparr>) (P_Format l out ?h now))"
    by (intro log [of 0 now]) (simp add: Log_step_def pc w)
  moreover have "rt_step (q (?r\<lparr>rec_level := l, rec_time := now\<rparr>) (P_Format l out ?h now)) Log_Step
      (q (?r\<lparr>rec_level := l, rec_time := now, rec_msg := m\<rparr>) (P_Len l out ?h now n))"
    by (intro log [of 0 0]) (simp add: Log_step_def pc w format_slot_def q_get f(1))
  moreover have "rt_step (q (?r\<lparr>rec_level := l, rec_time := now, rec_msg := m\<rparr>) (P_Len l out ?h now n)) Log_Step
      (q r' (P_Publish l out ?h now))"
    by (intro log [of 0 0]) (simp add: Log_step_def pc w r'_def)
  moreover have "rt_step (q r' (P_Publish l out ?h now)) (Published now l (slot_text kMaxMsgLen out))
      (q r' P_Idle\<lparr>head := ?h + 1\<rparr>)"
    by (intro log [of 0 0]) (simp add: Log_step_def pc, simp add: q_def)
  ultimately have "run rt_step s (log_events l out now) (q r' P_Idle\<lparr>head := ?h + 1\<rparr>)"
    by (auto simp: log_events_def numeral_eq_Suc intro!: run_cons [where step = rt_step] run_nil)
  moreover have "ring_ok (q r' P_Idle\<lparr>head := ?h + 1\<rparr>)"
    using assms(4) f(2) msg
    by (auto simp: ring_ok_def q_def r'_def dest!: set_update_subset_insert [THEN subsetD])
  ultimately show ?thesis
    by (intro exI [of _ "(ring s)[?i := r']"]) (simp add: q_def)
qed

text \<open>A concrete logger of capacity 2, and one record logged and drained.\<close>

lemma demo_start:
  obtains s0 where "rt_start s0" and "min_level s0 = kInfo" and "capacity s0 = 2" and "ring_ok s0"
proof -
  have "ring_size 2 = Some 2"
    unfolding ring_size_def by (simp add: round_up.simps [of 1] round_up.simps [of 2])
  then obtain s0 where s0: "RtLogger (\<lambda>_. None) 2 (replicate 2 (replicate 256 CHR ''.'')) = Some s0"
    "min_level s0 = kInfo" "capacity s0 = 2"
    by (simp add: RtLogger_def kMaxMsgLen_def list_all_iff ResolveLogLevelFromEnv_def GetEnvironmentVariable_def default_log_level_def)
  then have start: "rt_start s0" by (auto simp: rt_start_def)
  moreover have "ring_ok s0"
    using rt_inv_start [OF start] by (auto elim: rt_invD simp: rt_inv_at_def)
  ultimately show ?thesis using s0 that by blast
qed

definition demo_line :: line where
  "demo_line = (7, kInfo, ''ok'')"

definition demo_log :: "rt_event list" where
  "demo_log = log_events kInfo (Formatted ''ok'') 7"

lemma demo_log_history [simp]:
  "published demo_log = [demo_line]" "delivered demo_log = []" "calls demo_log = [(kInfo, Formatted ''ok'')]"
  by (simp_all add: demo_log_def demo_line_def slot_text_def kMaxMsgLen_def)

lemma demo_logged:
  obtains s0 s where "rt_start s0" and "min_level s0 = kInfo" and "run rt_step s0 demo_log s" and "owner s = O_Alive"
    and "flusher s = F_Idle" and "producer s = P_Idle" and "running s" and "drain s = D_Tail" and "head s = 1"
    and "capacity s = 2" and "tail s = 0" and "min_level s = kInfo" and "producer_view s = 0"
    and "drain_view s = 0" and "stale_levels s = []"
proof -
  obtain s0 where s0: "rt_start s0" "min_level s0 = kInfo" "capacity s0 = 2" "ring_ok s0" by (rule demo_start)
  note f = rt_start_fields [OF s0(1)]
  from Log_uninterrupted [of s0 kInfo "Formatted ''ok''" 7] s0 f obtain rs where
    "run rt_step s0 demo_log (s0\<lparr>producer_view := 0, ring := rs, producer := P_Idle, head := 1\<rparr>)"
    by (auto simp: demo_log_def)
  with s0 f that show ?thesis by simp
qed

lemma demo_drained:
  obtains s0 s fs where "rt_start s0" and "run rt_step s0 (demo_log @ fs) s" and "published fs = []"
    and "delivered fs = [sink_line demo_line]" and "owner s = O_Alive" and "flusher s = F_Idle"
    and "head s = 1" and "tail s = 1"
proof -
  obtain s0 s1 where s1: "rt_start s0" "run rt_step s0 demo_log s1" "owner s1 = O_Alive" "flusher s1 = F_Idle"
    "running s1" "drain s1 = D_Tail" "head s1 = 1" by (rule demo_logged) blast
  have inv: "rt_inv demo_log s1" by (rule rt.inv_run [OF s1(2,1)])
  from drain_alone_finishes [OF inv disjI1 [OF s1(5)]] obtain fs s where
    r: "run drain_alone s1 fs s" "unread (demo_log @ fs) s = 0" by blast
  note fr = drain_alone_frame [OF r(1)]
  have run: "run rt_step s0 (demo_log @ fs) s" by (rule run_append [OF drain_alone_run [OF r(1)] s1(2)])
  then have inv': "rt_inv (demo_log @ fs) s" using s1(1) by (rule rt.inv_run)
  then have d: "delivered fs = map sink_line (take (length (delivered fs)) [demo_line])"
    using fr by (auto elim: rt_invD)
  have le: "1 \<le> freed (drain s) (length (delivered fs))" using r(2) fr by (simp add: unread_def)
  then have "1 \<le> length (delivered fs)" by (simp add: freed_def split: if_splits)
  with d have dl: "delivered fs = [sink_line demo_line]" by simp
  from rt_inv_indices(2) [OF inv'] fr dl le have "unat (tail s) = 1"
    by (simp add: freed_def split: if_splits)
  then have "tail s = 1" by (simp add: word_unat_eq_iff)
  with run dl fr s1 that show ?thesis by simp
qed

section \<open>Properties\<close>

definition writing :: "producer_pc \<Rightarrow> u64 option" where
  "writing pc = (case pc of P_Level _ _ h \<Rightarrow> Some h | P_Time _ _ h \<Rightarrow> Some h | P_Format _ _ h _ \<Rightarrow> Some h
     | P_Len _ _ h _ _ \<Rightarrow> Some h | _ \<Rightarrow> None)"

definition reading :: "drain_pc \<Rightarrow> u64 option" where
  "reading pc = (case pc of D_Time i \<Rightarrow> Some i | D_Level i _ \<Rightarrow> Some i | D_Len i _ _ \<Rightarrow> Some i
     | D_Msg i _ _ _ \<Rightarrow> Some i | _ \<Rightarrow> None)"

text \<open>C1. First in, first out, nothing twice, nothing torn: in every interleaving of producer,
  drain thread, flusher, level changes and destruction, what the sink has been handed is the
  list of the first published lines, in order, each with the time, level and text of its
  \<open>Log\<close> call, and at most a ring's worth of published lines is still waiting; no access
  leaves the ring or a message buffer.\<close>

theorem rt_delivery_is_fifo:
  assumes "rt_start s0" and "run rt_step s0 es s"
  shows "delivered es = map sink_line (take (length (delivered es)) (published es))
    \<and> length (published es) \<le> length (delivered es) + unat (capacity s) \<and> Undefined \<notin> set es"
proof -
  have inv: "rt_inv es s" by (rule rt.inv_run [OF assms(2,1)])
  then obtain V H where at: "rt_inv_at (published es) (freed (drain s) (length (delivered es))) V H s"
    and "delivered es = map sink_line (take (length (delivered es)) (published es))" "Undefined \<notin> set es"
    by (rule rt_invD)
  moreover have "freed (drain s) (length (delivered es)) \<le> length (delivered es)" by (simp add: freed_def)
  ultimately show ?thesis by (auto simp: rt_inv_at_def rt_counts_def)
qed

theorem rt_delivery_is_fifo_witness:
  "\<exists>s0 es s. rt_start s0 \<and> run rt_step s0 es s \<and> published es = [demo_line]
     \<and> delivered es = map sink_line [demo_line] \<and> delivered es = map sink_line (take (length (delivered es)) (published es))"
proof -
  obtain s0 s fs where r: "rt_start s0" "run rt_step s0 (demo_log @ fs) s" "published fs = []"
    "delivered fs = [sink_line demo_line]" by (rule demo_drained)
  with rt_delivery_is_fifo [OF r(1,2)] show ?thesis
    by (intro exI [of _ s0] exI [of _ "demo_log @ fs"] exI [of _ s]) simp
qed

text \<open>C3. One outcome per call, in call order: every finished \<open>Log\<close> call was filtered, dropped,
  or published with exactly its level and its text (cut to 256 bytes, or the fixed
  diagnostic when formatting throws), and \<open>dropped()\<close> counts the dropped ones. A call takes
  at most 8 accesses of its own, whatever the other threads do, and can always take its next
  one: the producer is wait-free.\<close>

theorem rt_log_outcomes:
  assumes "rt_start s0" and "run rt_step s0 es s"
  shows "(\<exists>cs. calls es = cs @ (if producer s = P_Idle then [] else [last (calls es)])
       \<and> list_all2 outcome_matches cs (outcomes es))
    \<and> dropped s = of_nat (length (filter (\<lambda>e. e = Dropped) (outcomes es)))
    \<and> length (filter producer_event es) \<le> 8 * length (calls es)
    \<and> (producer s \<noteq> P_Idle \<longrightarrow> (\<exists>v e t. Log_step v now s = Some (e, t)))"
proof -
  have "Undefined \<notin> set es" using rt.inv_run [OF assms(2,1)] by (auto elim: rt_invD)
  then have "(if producer s = P_Idle then list_all2 outcome_matches (calls es) (outcomes es)
      else \<exists>cs c. calls es = cs @ [c] \<and> call_in_progress (producer s) c \<and> list_all2 outcome_matches cs (outcomes es))
     \<and> dropped s = of_nat (length (filter (\<lambda>e. e = Dropped) (outcomes es)))
     \<and> length (filter producer_event es) + steps_left (producer s) \<le> 8 * length (calls es)"
    using rt_account.inv_run [OF assms(2,1)] by (simp add: account_inv_def del: split_paired_Ex)
  moreover have "producer s \<noteq> P_Idle \<longrightarrow> (\<exists>v e t. Log_step v now s = Some (e, t))"
  proof (cases "producer s")
    case (P_Filter level out)
    then show ?thesis by (intro impI exI [of _ 0]) (simp add: Log_step_def)
  qed (auto simp: Log_step_def may_load_def split: prod.splits intro!: exI [of _ "tail s"] intro: prod.exhaust)
  ultimately show ?thesis by (cases "producer s = P_Idle") (auto simp del: split_paired_Ex)
qed

theorem rt_log_outcomes_witness:
  "\<exists>s0 s. rt_start s0 \<and> run rt_step s0 demo_log s \<and> calls demo_log = [(kInfo, Formatted ''ok'')] \<and> dropped s = 0
     \<and> length (filter producer_event demo_log) \<le> 8"
proof -
  obtain s0 s where r: "rt_start s0" "run rt_step s0 demo_log s" by (rule demo_logged) blast
  have "outcomes demo_log = [Published 7 kInfo ''ok'']"
    by (simp add: demo_log_def log_events_def outcomes_def slot_text_def kMaxMsgLen_def numeral_eq_Suc)
  with rt_log_outcomes [OF r, of 0] r show ?thesis by auto
qed

text \<open>A \<open>Log\<close> call that reads the current tail drops its record exactly when the ring holds
  a full capacity of records that have not been freed, and goes on to write it otherwise.\<close>

theorem rt_drops_only_when_full:
  assumes "rt_start s0" and "run rt_step s0 es s" and "producer s = P_Tail l out h"
  shows "\<exists>t. Log_step (tail s) now s = Some (Log_Step, t) \<and>
    (if unread es s = unat (capacity s) then producer t = P_Drop else producer t = P_Level l out h)"
proof -
  have inv: "rt_inv es s" by (rule rt.inv_run [OF assms(2,1)])
  define C where "C = freed (drain s) (length (delivered es))"
  from inv obtain V H where "rt_inv_at (published es) C V H s"
    unfolding C_def by (rule rt_invD)
  then have ring: "ring_ok s" and counts: "rt_counts (published es) C V H s" and p: "producer_ok (length (published es)) V s"
    by (simp_all add: rt_inv_at_def)
  note cap = capacity_bound [OF ring]
  have C: "C \<le> length (published es)" and le: "length (published es) \<le> C + unat (capacity s)"
    using counts by (auto simp: rt_counts_def)
  then have "length (published es) \<le> C + 2 ^ 63" using cap by linarith
  then have "length (published es) - C < 2 ^ 64" by simp
  then have "unat (of_nat (length (published es)) - of_nat C :: u64) = length (published es) - C"
    by (rule unat_distance [OF C])
  then have "capacity s \<le> h - tail s \<longleftrightarrow> unat (capacity s) \<le> length (published es) - C"
    using p counts assms(3) by (simp add: word_le_nat_alt producer_ok_def rt_counts_def)
  also have "\<dots> \<longleftrightarrow> unread es s = unat (capacity s)"
    using le by (auto simp: unread_def C_def)
  finally show ?thesis
    using assms(3) by (simp add: Log_step_def may_load_def)
qed

theorem rt_drops_only_when_full_witness:
  "\<exists>s0 es s t. rt_start s0 \<and> run rt_step s0 es s \<and> producer s = P_Tail kInfo (Throws []) 0
     \<and> Log_step 0 5 s = Some (Log_Step, t) \<and> producer t = P_Level kInfo (Throws []) 0"
proof -
  obtain s0 where s0: "rt_start s0" "min_level s0 = kInfo" "capacity s0 = 2" by (rule demo_start)
  note f = rt_start_fields [OF s0(1)]
  let ?s1 = "s0\<lparr>producer := P_Filter kInfo (Throws [])\<rparr>" and ?s2 = "s0\<lparr>producer := P_Head kInfo (Throws [])\<rparr>"
  let ?s = "s0\<lparr>producer := P_Tail kInfo (Throws []) 0\<rparr>" and ?es = "[Log_Call kInfo (Throws []), Log_Step, Log_Step]"
  have "rt_step s0 (Log_Call kInfo (Throws [])) ?s1" by (rule log_call) (simp_all add: f)
  moreover have "rt_step ?s1 Log_Step ?s2" by (rule log [of 0 0]) (simp add: Log_step_def s0 f)
  moreover have "rt_step ?s2 Log_Step ?s" by (rule log [of 0 0]) (simp add: Log_step_def f)
  ultimately have r: "run rt_step s0 ?es ?s" by (auto intro!: run_cons [where step = rt_step] run_nil)
  have "unread ?es ?s = 0" by (simp add: unread_def)
  with rt_drops_only_when_full [OF s0(1) r, of kInfo "Throws []" 0 5] s0 f obtain t where
    "Log_step 0 5 ?s = Some (Log_Step, t)" "producer t = P_Level kInfo (Throws []) 0" by auto
  with s0(1) r show ?thesis
    by (intro exI [of _ s0] exI [of _ ?es] exI [of _ ?s] exI [of _ t]) simp
qed

text \<open>C2. No torn record: whenever the producer is writing a record while the drain thread is
  reading one, the two are different elements of the ring, both inside it, although neither
  thread ever waits for the other.\<close>

theorem rt_no_data_race:
  assumes "rt_start s0" and "run rt_step s0 es s" and "writing (producer s) = Some h" and "reading (drain s) = Some i"
  shows "slot_of s h \<noteq> slot_of s i \<and> unat (slot_of s h) < length (ring s) \<and> unat (slot_of s i) < length (ring s)"
proof -
  have "rt_inv es s" by (rule rt.inv_run [OF assms(2,1)])
  then obtain C V H where "rt_inv_at (published es) C V H s" by (auto elim: rt_invD)
  then have ring: "ring_ok s" and counts: "rt_counts (published es) C V H s"
    and p: "producer_ok (length (published es)) V s" and d: "drain_ok (published es) C H s"
    by (simp_all add: rt_inv_at_def)
  let ?P = "length (published es)"
  have h: "h = of_nat ?P" "?P < V + unat (capacity s)"
    using p assms(3) by (auto simp: writing_def producer_ok_def split: producer_pc.splits)
  have i: "i = of_nat C" "C < H"
    using d assms(4) by (auto simp: reading_def drain_ok_def split: drain_pc.splits)
  from ring obtain k where k: "k < 64" "index_mask s = 2 ^ k - 1" "unat (capacity s) = 2 ^ k" "length (ring s) = 2 ^ k"
    by (rule ring_okE)
  have u: "unat (slot_of s h) = ?P mod 2 ^ k" "unat (slot_of s i) = C mod 2 ^ k"
    using k by (simp_all only: slot_of_def h(1) i(1) unat_slot_of_nat)
  have "?P mod 2 ^ k \<noteq> C mod 2 ^ k"
  proof
    assume "?P mod 2 ^ k = C mod 2 ^ k"
    moreover have "C \<le> ?P" "?P - C < 2 ^ k" using h(2) i(2) counts k(3) unfolding rt_counts_def by linarith+
    ultimately have "C = ?P" using slots_distinct [of C "2 ^ k" ?P] by simp
    then show False using i(2) counts by (simp add: rt_counts_def)
  qed
  with u k show ?thesis by auto
qed

theorem rt_no_data_race_witness:
  "\<exists>s0 es s. rt_start s0 \<and> run rt_step s0 es s \<and> writing (producer s) = Some 1 \<and> reading (drain s) = Some 0
     \<and> slot_of s 1 \<noteq> slot_of s 0"
proof -
  obtain s0 s1 where s1: "rt_start s0" "run rt_step s0 demo_log s1" "owner s1 = O_Alive" "min_level s1 = kInfo"
    "producer s1 = P_Idle" "drain s1 = D_Tail" "head s1 = 1" "capacity s1 = 2" "tail s1 = 0"
    "producer_view s1 = 0" "drain_view s1 = 0" "stale_levels s1 = []"
    by (rule demo_logged) blast
  let ?l = "kFatal" and ?o = "Formatted []"
  let ?s2 = "s1\<lparr>producer := P_Filter ?l ?o\<rparr>" and ?s3 = "s1\<lparr>producer := P_Head ?l ?o\<rparr>"
    and ?s4 = "s1\<lparr>producer := P_Tail ?l ?o 1\<rparr>"
  let ?s5 = "s1\<lparr>producer_view := 0, producer := P_Level ?l ?o 1\<rparr>"
  let ?s6 = "?s5\<lparr>drain := D_Head 0\<rparr>" and ?s = "?s5\<lparr>drain_view := 1, drain := D_Time 0\<rparr>"
  let ?fs = "[Log_Call ?l ?o, Log_Step, Log_Step, Log_Step, Drain_Step, Drain_Step]"
  have "rt_step s1 (Log_Call ?l ?o) ?s2" by (rule log_call) (simp_all add: s1)
  moreover have "rt_step ?s2 Log_Step ?s3" by (rule log [of 0 0]) (simp add: Log_step_def s1 less_LogLevel_def)
  moreover have "rt_step ?s3 Log_Step ?s4" by (rule log [of 0 0]) (simp add: Log_step_def s1)
  moreover have "rt_step ?s4 Log_Step ?s5" by (rule log [of 0 0]) (simp add: Log_step_def s1 may_load_def word_le_nat_alt)
  moreover have "rt_step ?s5 Drain_Step ?s6" by (rule drain [of 0]) (simp add: DrainLoop_step_def s1)
  moreover have "rt_step ?s6 Drain_Step ?s" by (rule drain [of 1]) (simp add: DrainLoop_step_def s1 may_load_def)
  ultimately have "run rt_step s1 ?fs ?s" by (auto intro!: run_cons [where step = rt_step] run_nil)
  from run_append [OF this s1(2)] have r: "run rt_step s0 (demo_log @ ?fs) ?s" .
  have w: "writing (producer ?s) = Some 1" "reading (drain ?s) = Some 0" by (simp_all add: writing_def reading_def)
  from rt_no_data_race [OF s1(1) r w] s1(1) r w show ?thesis by blast
qed

text \<open>C4. \<open>Flush\<close> keeps its promise: when it returns, every record its caller knew to be
  published when it called has been handed to the sink, in order (for the first \<open>2 ^ 64\<close>
  records, whose indices do not repeat).\<close>

theorem rt_flush_delivers:
  assumes "rt_start s0" and "run rt_step s0 (es @ [Flush_Return]) t" and "length (published es) < 2 ^ 64"
  shows "unat (flush_known es) \<le> length (delivered es)
    \<and> take (unat (flush_known es)) (delivered es) = map sink_line (take (unat (flush_known es)) (published es))"
  using assms by (rule Flush_returned)

theorem rt_flush_delivers_witness:
  "\<exists>s0 es t. rt_start s0 \<and> run rt_step s0 (es @ [Flush_Return]) t \<and> flush_known es = 1 \<and> published es = [demo_line]
     \<and> take 1 (delivered es) = [sink_line demo_line]"
proof -
  obtain s0 s fs where r: "rt_start s0" "run rt_step s0 (demo_log @ fs) s" "published fs = []"
    "owner s = O_Alive" "flusher s = F_Idle" "head s = 1" "tail s = 1" by (rule demo_drained)
  let ?s1 = "s\<lparr>flusher := F_Tail, flush_head_view := 1, flush_tail_view := 0\<rparr>"
  let ?s2 = "?s1\<lparr>flush_tail_view := 1, flusher := F_Head 1\<rparr>"
  let ?s3 = "?s2\<lparr>flush_head_view := 1, flusher := F_Sink 1\<rparr>"
  let ?fl = "[Flush_Call 1, Flush_Step, Flush_Step]"
  have "rt_step s (Flush_Call 1) ?s1" by (rule flush_call) (simp_all add: r)
  moreover have "rt_step ?s1 Flush_Step ?s2" by (rule flush [of 1]) (simp add: Flush_step_def may_load_def r)
  moreover have "rt_step ?s2 Flush_Step ?s3" by (rule flush [of 1]) (simp add: Flush_step_def may_load_def r)
  moreover have "rt_step ?s3 Flush_Return (?s3\<lparr>flusher := F_Idle\<rparr>)" by (rule flush [of 0]) (simp add: Flush_step_def)
  ultimately have "run rt_step s (?fl @ [Flush_Return]) (?s3\<lparr>flusher := F_Idle\<rparr>)"
    by (auto intro!: run_cons [where step = rt_step] run_nil)
  from run_append [OF this r(2)] have run: "run rt_step s0 ((demo_log @ fs @ ?fl) @ [Flush_Return]) (?s3\<lparr>flusher := F_Idle\<rparr>)"
    by simp
  have known: "flush_known (demo_log @ fs @ ?fl) = 1" by (simp add: flush_known_def)
  from rt_flush_delivers [OF r(1) run] known r(3) have
    "take 1 (delivered (demo_log @ fs @ ?fl)) = [sink_line demo_line]" by simp
  with r run known show ?thesis by (intro exI conjI) (rule r(1), rule run, simp_all)
qed

text \<open>C8. The level filter, with relaxed loads: once every level the producer may still see is at
  least \<open>l\<close> (the last level set is, and the producer has synchronised with the thread that
  set it or has seen that level itself) and until a lower level is set, no record below \<open>l\<close> is
  published, and what the sink is handed of the later records has a level of at least \<open>l\<close>.
  A fresh logger is in such a state for the level of its environment.\<close>

theorem rt_level_filter:
  assumes "rt_start s0" and "run rt_step s0 es0 s1" and "run rt_step s1 es s" and "producer s1 = P_Idle"
    and "\<forall>k\<in>set (visible_levels s1). l \<le> k" and "\<forall>e\<in>set es. \<not> sets_level_below l e"
  shows "(\<forall>line\<in>set (published es). l \<le> fst (snd line))
    \<and> (\<forall>line\<in>set (drop (length (published es0)) (delivered (es0 @ es))). \<exists>k\<ge>l. fst (snd line) = ToSpdlogLevel k)
    \<and> visible_levels s0 = [min_level s0]"
proof -
  have p: "\<forall>line\<in>set (published es). l \<le> fst (snd line)"
    using rt_level.inv_run [OF assms(3), of l] assms(4,5,6) by (auto simp: level_inv_def)
  have "rt_inv (es0 @ es) s" by (rule rt.inv_run [OF run_append [OF assms(3,2)] assms(1)])
  then have d: "delivered (es0 @ es) = map sink_line (take (length (delivered (es0 @ es))) (published (es0 @ es)))"
    by (rule rt_invD)
  have "drop (length (published es0)) (take n (published es0 @ published es)) = take (n - length (published es0)) (published es)" for n
    by (simp only: drop_take) simp
  then have "drop (length (published es0)) (delivered (es0 @ es))
      = map sink_line (take (length (delivered (es0 @ es)) - length (published es0)) (published es))"
    by (subst d) (simp add: drop_map)
  then have "set (drop (length (published es0)) (delivered (es0 @ es))) \<subseteq> sink_line ` set (published es)"
    by (metis image_mono list.set_map set_take_subset)
  with p rt_start_fields [OF assms(1)] show ?thesis by (fastforce simp: sink_line_def visible_levels_def)
qed

theorem rt_level_filter_witness:
  "\<exists>s0 s. rt_start s0 \<and> run rt_step s0 demo_log s \<and> (\<forall>line\<in>set (published demo_log). kInfo \<le> fst (snd line))"
proof -
  obtain s0 s where r: "rt_start s0" "min_level s0 = kInfo" "run rt_step s0 demo_log s" by (rule demo_logged) blast
  have "\<forall>e\<in>set demo_log. \<not> sets_level_below kInfo e" by (simp add: demo_log_def log_events_def)
  moreover have "\<forall>k\<in>set (visible_levels s0). kInfo \<le> k" "producer s0 = P_Idle"
    using r(2) rt_start_fields [OF r(1)] by (simp_all add: visible_levels_def)
  ultimately show ?thesis using rt_level_filter [OF r(1) run_nil r(3), of kInfo] r by blast
qed

text \<open>C5. The drain thread makes progress: from every reachable state of a live logger, within
  7 steps per waiting record and at most 9 more, the drain thread on its own hands everything
  published to the sink and frees all slots.\<close>

theorem rt_drain_catches_up:
  assumes "rt_start s0" and "run rt_step s0 es s" and "running s"
  shows "\<exists>fs t. run drain_alone s fs t \<and> length fs \<le> 7 * unread es s + 9
    \<and> delivered (es @ fs) = map sink_line (published es) \<and> unread (es @ fs) t = 0 \<and> published fs = []"
proof -
  have inv: "rt_inv es s" by (rule rt.inv_run [OF assms(2,1)])
  from drain_alone_finishes [OF inv disjI1 [OF assms(3)]] obtain fs t where
    r: "run drain_alone s fs t" and u: "unread (es @ fs) t = 0"
    and n: "length fs \<le> 7 * unread es s + drain_steps_left (drain s)" by blast
  have p: "published fs = []" using drain_alone_frame [OF r] by simp
  have "run rt_step s0 (es @ fs) t" by (rule run_append [OF drain_alone_run [OF r] assms(2)])
  then have "rt_inv (es @ fs) t" using assms(1) by (rule rt.inv_run)
  then have d: "delivered (es @ fs) = map sink_line (take (length (delivered (es @ fs))) (published (es @ fs)))"
    by (rule rt_invD)
  have "length (published (es @ fs)) \<le> length (delivered (es @ fs))"
    using u unfolding unread_def freed_def by (simp split: if_splits)
  then have "delivered (es @ fs) = map sink_line (published (es @ fs))"
    using d by (simp only: take_all)
  moreover have "drain_steps_left (drain s) \<le> 9" by (simp add: drain_steps_left_def split: drain_pc.splits)
  then have "length fs \<le> 7 * unread es s + 9" using n by linarith
  ultimately show ?thesis using r u p by (intro exI [of _ fs] exI [of _ t]) simp
qed

theorem rt_drain_catches_up_witness:
  "\<exists>s0 s fs t. rt_start s0 \<and> run rt_step s0 demo_log s \<and> run drain_alone s fs t
     \<and> delivered (demo_log @ fs) = [sink_line demo_line]"
proof -
  obtain s0 s where r: "rt_start s0" "run rt_step s0 demo_log s" "running s" by (rule demo_logged) blast
  from rt_drain_catches_up [OF r] r show ?thesis by auto
qed

text \<open>C6. Shutdown: once the destructor has cleared the flag, the drain thread on its own leaves
  its loop within 7 steps per waiting record and at most 14 more, so that the destructor's
  join returns. If it was not, when the flag went down, between the load of \<open>head_\<close> that found
  the ring empty and the load of \<open>running_\<close>, everything published has been handed to the sink;
  if it was, it hands over nothing any more, so what was published in between is lost.\<close>

theorem rt_shutdown:
  assumes "rt_start s0" and "run rt_step s0 es s" and "\<not> running s"
  shows "\<exists>fs t. run drain_alone s fs t \<and> drain t = D_Done \<and> length fs \<le> 7 * unread es s + 14
    \<and> (if reads_on (drain s) then delivered (es @ fs) = map sink_line (published es) else delivered fs = [])"
proof -
  have inv: "rt_inv es s" by (rule rt.inv_run [OF assms(2,1)])
  show ?thesis
  proof (cases "reads_on (drain s)")
    case False
    with drain_alone_leaves [OF inv assms(3)] obtain fs t where
      "run drain_alone s fs t" "drain t = D_Done" "length fs \<le> 5" "delivered fs = []" by blast
    with False show ?thesis by (intro exI [of _ fs] exI [of _ t]) simp
  next
    case True
    with drain_alone_finishes [OF inv] obtain fs u where
      r: "run drain_alone s fs u" and u: "unread (es @ fs) u = 0"
      and n: "length fs \<le> 7 * unread es s + drain_steps_left (drain s)" by blast
    note fr = drain_alone_frame [OF r]
    have ru: "run rt_step s0 (es @ fs) u" by (rule run_append [OF drain_alone_run [OF r] assms(2)])
    then have inv': "rt_inv (es @ fs) u" using assms(1) by (rule rt.inv_run)
    from drain_alone_leaves [OF inv'] assms(3) fr u obtain gs t where
      g: "run drain_alone u gs t" "drain t = D_Done" "length gs \<le> 5" "delivered gs = []" by auto
    have "delivered (es @ fs) = map sink_line (take (length (delivered (es @ fs))) (published (es @ fs)))"
      using inv' by (rule rt_invD)
    moreover have "length (published (es @ fs)) \<le> length (delivered (es @ fs))"
      using u unfolding unread_def freed_def by (simp split: if_splits)
    ultimately have "delivered (es @ fs) = map sink_line (published (es @ fs))" by (simp only: take_all)
    then have "delivered (es @ fs @ gs) = map sink_line (published es)" using fr g(4) by simp
    moreover have "drain_steps_left (drain s) \<le> 9" by (simp add: drain_steps_left_def split: drain_pc.splits)
    then have "length (fs @ gs) \<le> 7 * unread es s + 14" using n g(3) by simp
    ultimately show ?thesis
      using run_append [OF g(1) r] g(2) True by (intro exI [of _ "fs @ gs"] exI [of _ t]) simp
  qed
qed

theorem rt_shutdown_witness:
  "\<exists>s0 s fs t. rt_start s0 \<and> run rt_step s0 (demo_log @ [Stop]) s \<and> run drain_alone s fs t \<and> drain t = D_Done
     \<and> delivered (demo_log @ Stop # fs) = [sink_line demo_line]"
proof -
  obtain s0 s where r: "rt_start s0" "run rt_step s0 demo_log s" "owner s = O_Alive" "producer s = P_Idle"
    "flusher s = F_Idle" "drain s = D_Tail" by (rule demo_logged) blast
  let ?t = "s\<lparr>running := False, owner := O_Joining\<rparr>"
  have "run rt_step s0 (demo_log @ [Stop]) ?t" by (rule run_snoc [OF r(2)], rule stop) (simp_all add: r)
  with rt_shutdown [OF r(1) this] r show ?thesis by (auto simp: reads_on_def)
qed

text \<open>C7. A record can be lost at destruction without being counted: from every freshly built
  logger there is a run that respects the object's lifetime in which a \<open>Log\<close> call completes
  and publishes its record, the destructor then stops and joins the drain thread, and the
  record has neither been handed to the sink nor counted by \<open>dropped()\<close>. The drain thread reads
  \<open>running_\<close> after the \<open>head_\<close> it compares.\<close>

theorem rt_destructor_loses_record:
  assumes "rt_start s0" and "min_level s0 \<le> l"
  shows "\<exists>es s. run rt_step s0 es s \<and> owner s = O_Destroyed \<and> calls es = [(l, out)]
    \<and> published es = [(now, l, slot_text kMaxMsgLen out)] \<and> delivered es = [] \<and> dropped s = 0"
proof -
  note f = rt_start_fields [OF assms(1)]
  have ring: "ring_ok s0"
    using rt_inv_start [OF assms(1)] by (auto elim: rt_invD simp: rt_inv_at_def)
  let ?s1 = "s0\<lparr>drain := D_Head 0\<rparr>" and ?s2 = "s0\<lparr>drain := D_Running, drain_view := 0\<rparr>"
  have "rt_step s0 Drain_Step ?s1"
    by (rule drain [of 0]) (simp add: DrainLoop_step_def f)
  moreover have "rt_step ?s1 Drain_Step ?s2"
    by (rule drain [of 0]) (simp add: DrainLoop_step_def may_load_def f)
  ultimately have r2: "run rt_step s0 [Drain_Step, Drain_Step] ?s2"
    by (auto intro!: run_cons [where step = rt_step] run_nil)
  have "ring_ok ?s2" using ring ring_ok_cong [of ?s2 s0] by simp
  moreover have "capacity s0 \<noteq> 0" using capacity_bound [OF ring] by auto
  ultimately obtain rs where r3: "run rt_step ?s2 (log_events l out now)
      (?s2\<lparr>producer_view := 0, ring := rs, producer := P_Idle, head := 1\<rparr>)"
    using Log_uninterrupted [of ?s2 l out now] assms(2) f by (auto simp: not_less)
  let ?s3 = "?s2\<lparr>producer_view := 0, ring := rs, producer := P_Idle, head := 1\<rparr>"
  let ?s4 = "?s3\<lparr>running := False, owner := O_Joining\<rparr>"
  have "rt_step ?s3 Stop ?s4" by (rule stop) (simp_all add: f)
  moreover have "rt_step ?s4 Drain_Step (?s4\<lparr>drain := D_Flush\<rparr>)"
    by (rule drain [of 0]) (simp add: DrainLoop_step_def)
  moreover have "rt_step (?s4\<lparr>drain := D_Flush\<rparr>) Sink_Flush (?s4\<lparr>drain := D_Done\<rparr>)"
    by (rule drain [of 0]) (simp add: DrainLoop_step_def)
  moreover have "rt_step (?s4\<lparr>drain := D_Done\<rparr>) Joined (?s4\<lparr>drain := D_Done, owner := O_Destroyed\<rparr>)"
    by (rule join) simp_all
  ultimately have "run rt_step ?s3 [Stop, Drain_Step, Sink_Flush, Joined] (?s4\<lparr>drain := D_Done, owner := O_Destroyed\<rparr>)"
    by (auto intro!: run_cons [where step = rt_step] run_nil)
  from run_append [OF run_append [OF this r3] r2] show ?thesis
    by (intro exI conjI) (assumption, simp_all add: f)
qed

theorem rt_destructor_loses_record_witness:
  "\<exists>s0 es s. rt_start s0 \<and> run rt_step s0 es s \<and> owner s = O_Destroyed \<and> published es = [demo_line]
     \<and> delivered es = [] \<and> dropped s = 0"
proof -
  obtain s0 where s0: "rt_start s0" "min_level s0 = kInfo" by (rule demo_start)
  then have "min_level s0 \<le> kInfo" by simp
  from rt_destructor_loses_record [OF s0(1) this, of "Formatted ''ok''" 7] s0 show ?thesis
    by (auto simp: demo_line_def slot_text_def kMaxMsgLen_def)
qed

end
