(* ===== verification/Mpsc_Logger.thy ===== *)
theory Mpsc_Logger
  imports Rt_Logger
begin

text \<open>
  The multi-producer hard real-time logger \<open>MpscRtLogger\<close> (\<open>rt_logger_mpsc.hpp\<close>,
  \<open>rt_logger_mpsc.cpp\<close>): a bounded ring of cells with sequence numbers, claimed by a
  compare-and-swap on the enqueue position.

  Any number of producers, named by natural numbers, run \<open>Log\<close>; the drain thread, a flusher
  and the owner are as in \<open>Rt_Logger\<close>. One transition is one atomic access or one field of a
  cell. An atomic load may return a value older than the current one: any value not above it,
  which is more than C++ allows and covers it, since sequence numbers and positions only grow.
  The compare-and-swap acts on the current value, and may fail without reason (the code uses
  the weak form). The difference of a sequence number and a position is computed as signed
  64-bit integers; its overflow would be undefined behaviour and is the event \<open>M_Undefined\<close>.
\<close>

section \<open>State\<close>

record mpsc_cell =
  sequence :: u64
  cell_time :: time_point
  cell_level :: LogLevel
  cell_len :: u16
  cell_msg :: string

datatype mp_pc =
    M_Idle
  | M_Filter LogLevel fmt_outcome
  | M_Load LogLevel fmt_outcome
  | M_Seq LogLevel fmt_outcome u64
  | M_Cas LogLevel fmt_outcome u64
  | M_Drop
  | M_Time LogLevel fmt_outcome u64
  | M_Level LogLevel fmt_outcome u64 time_point
  | M_Format LogLevel fmt_outcome u64 time_point
  | M_Len LogLevel fmt_outcome u64 time_point u16
  | M_Publish LogLevel fmt_outcome u64 time_point

datatype md_pc =
    N_Pos
  | N_Seq u64
  | N_Time u64
  | N_Level u64 time_point
  | N_Len u64 time_point LogLevel
  | N_Msg u64 time_point LogLevel u16
  | N_Advance u64
  | N_Free u64
  | N_Running
  | N_Sleep
  | N_Flush
  | N_Done

record mpsc_logger =
  cells :: "mpsc_cell list"
  cell_mask :: u64
  m_min_level :: LogLevel
  m_stale_levels :: "LogLevel list"
  enqueue_pos :: u64
  dequeue_pos :: u64
  m_dropped :: u64
  m_running :: bool
  producers :: "nat \<Rightarrow> mp_pc"
  m_drain :: md_pc
  m_flusher :: flush_pc
  m_known :: u64
  m_owner :: owner_pc

datatype mpsc_event =
    M_Call nat LogLevel fmt_outcome
  | M_Step nat
  | M_Filtered nat
  | M_Dropped nat
  | M_Claimed nat LogLevel string
  | M_Published nat u64 time_point LogLevel string
  | M_Drain_Step
  | M_Sink_Log time_point spd_level string
  | M_Sink_Flush
  | M_Flush_Call u64
  | M_Flush_Step
  | M_Flush_Return
  | M_Level_Set LogLevel
  | M_Stop
  | M_Joined
  | M_Undefined

section \<open>Constructor\<close>

definition new_cell :: "nat \<Rightarrow> string \<Rightarrow> mpsc_cell" where
  "new_cell i bytes = \<lparr>sequence = of_nat i, cell_time = 0, cell_level = kInfo, cell_len = 0, cell_msg = bytes\<rparr>"

definition MpscRtLogger :: "environment \<Rightarrow> u64 \<Rightarrow> string list \<Rightarrow> mpsc_logger option" where
  "MpscRtLogger env ring_capacity garbage = (case ring_size ring_capacity of
     None \<Rightarrow> None
   | Some cap \<Rightarrow>
       if length garbage = unat cap \<and> list_all (\<lambda>m. length m = kMaxMsgLen) garbage
       then Some \<lparr>cells = map (\<lambda>i. new_cell i (garbage ! i)) [0 ..< length garbage], cell_mask = cap - 1,
              m_min_level = ResolveLogLevelFromEnv env default_log_level, m_stale_levels = [],
              enqueue_pos = 0, dequeue_pos = 0, m_dropped = 0, m_running = True,
              producers = (\<lambda>_. M_Idle), m_drain = N_Pos, m_flusher = F_Idle, m_known = 0, m_owner = O_Alive\<rparr>
       else None)"

section \<open>Steps\<close>

text \<open>\<open>static_cast<std::int64_t>(a) - static_cast<std::int64_t>(b)\<close>, undefined on overflow.\<close>

definition signed_diff :: "u64 \<Rightarrow> u64 \<Rightarrow> int option" where
  "signed_diff a b = (let d = sint a - sint b in if - (2 ^ 63) \<le> d \<and> d < 2 ^ 63 then Some d else None)"

text \<open>The values the level has had, newest first: a relaxed load may return any of them.\<close>

definition m_visible_levels :: "mpsc_logger \<Rightarrow> LogLevel list" where
  "m_visible_levels s = m_min_level s # m_stale_levels s"

lemma m_visible_current [simp]: "m_visible_levels s ! 0 = m_min_level s" "m_visible_levels s \<noteq> []"
  by (simp_all add: m_visible_levels_def)

definition cell_of :: "mpsc_logger \<Rightarrow> u64 \<Rightarrow> mpsc_cell option" where
  "cell_of s pos = arr_get (cells s) (pos AND cell_mask s)"

definition set_pc :: "nat \<Rightarrow> mp_pc \<Rightarrow> mpsc_logger \<Rightarrow> mpsc_logger" where
  "set_pc p pc s = s\<lparr>producers := (producers s)(p := pc)\<rparr>"

text \<open>Updating the cell of a position: \<open>None\<close> when the index is out of range.\<close>

definition set_cell :: "mpsc_logger \<Rightarrow> u64 \<Rightarrow> (mpsc_cell \<Rightarrow> mpsc_cell) \<Rightarrow> mpsc_logger option" where
  "set_cell s pos f = (case cell_of s pos of
     None \<Rightarrow> None
   | Some c \<Rightarrow> map_option (\<lambda>cs. s\<lparr>cells := cs\<rparr>) (arr_set (cells s) (pos AND cell_mask s) (f c)))"

definition with_cell :: "nat \<Rightarrow> mpsc_logger \<Rightarrow> u64 \<Rightarrow> (mpsc_cell \<Rightarrow> mpsc_cell) \<Rightarrow> mp_pc \<Rightarrow> mpsc_event \<Rightarrow>
    mpsc_event \<times> mpsc_logger" where
  "with_cell p s pos f pc e = (case set_cell s pos f of
     None \<Rightarrow> (M_Undefined, s)
   | Some t \<Rightarrow> (e, set_pc p pc t))"

definition format_cell :: "nat \<Rightarrow> mpsc_logger \<Rightarrow> LogLevel \<Rightarrow> fmt_outcome \<Rightarrow> u64 \<Rightarrow> time_point \<Rightarrow> mpsc_event \<times> mpsc_logger" where
  "format_cell p s level out pos now = (case cell_of s pos of
     None \<Rightarrow> (M_Undefined, s)
   | Some c \<Rightarrow> (case FormatInto (cell_msg c) kMaxMsgLen out of
       None \<Rightarrow> (M_Undefined, s)
     | Some (msg, len) \<Rightarrow>
         with_cell p s pos (\<lambda>c. c\<lparr>cell_msg := msg\<rparr>) (M_Len level out pos now len) (M_Step p)))"

text \<open>
  \<open>Log\<close> of producer \<open>p\<close>: \<open>v\<close> is the value of a load (for the level, how many stores ago it was
  made), \<open>ok\<close> whether the compare-and-swap
  succeeds where it can, \<open>now\<close> the clock. A load of a sequence number may be stale, but not older
  than the constructor, which gave the cell its own index.
\<close>

definition Mpsc_Log_step :: "nat \<Rightarrow> u64 \<Rightarrow> bool \<Rightarrow> time_point \<Rightarrow> mpsc_logger \<Rightarrow> (mpsc_event \<times> mpsc_logger) option" where
  "Mpsc_Log_step p v ok now s = (case producers s p of
     M_Idle \<Rightarrow> None
   | M_Filter level out \<Rightarrow>
       if unat v < length (m_visible_levels s)
       then Some (if level < m_visible_levels s ! unat v then (M_Filtered p, set_pc p M_Idle s)
                  else (M_Step p, set_pc p (M_Load level out) s))
       else None
   | M_Load level out \<Rightarrow>
       if v \<le> enqueue_pos s then Some (M_Step p, set_pc p (M_Seq level out v) s) else None
   | M_Seq level out pos \<Rightarrow>
       (case cell_of s pos of
          None \<Rightarrow> Some (M_Undefined, s)
        | Some c \<Rightarrow>
            if pos AND cell_mask s \<le> v \<and> v \<le> sequence c
            then Some (case signed_diff v pos of
                None \<Rightarrow> (M_Undefined, s)
              | Some diff \<Rightarrow>
                  (M_Step p, set_pc p (if diff = 0 then M_Cas level out pos
                                       else if diff < 0 then M_Drop
                                       else M_Load level out) s))
            else None)
   | M_Cas level out pos \<Rightarrow>
       if ok then
         if enqueue_pos s = pos
         then Some (M_Claimed p level (slot_text kMaxMsgLen out),
                set_pc p (M_Time level out pos) (s\<lparr>enqueue_pos := pos + 1\<rparr>))
         else None
       else
         if v \<le> enqueue_pos s then Some (M_Step p, set_pc p (M_Seq level out v) s) else None
   | M_Drop \<Rightarrow> Some (M_Dropped p, set_pc p M_Idle (s\<lparr>m_dropped := m_dropped s + 1\<rparr>))
   | M_Time level out pos \<Rightarrow>
       Some (with_cell p s pos (\<lambda>c. c\<lparr>cell_time := now\<rparr>) (M_Level level out pos now) (M_Step p))
   | M_Level level out pos time \<Rightarrow>
       Some (with_cell p s pos (\<lambda>c. c\<lparr>cell_level := level\<rparr>) (M_Format level out pos time) (M_Step p))
   | M_Format level out pos time \<Rightarrow> Some (format_cell p s level out pos time)
   | M_Len level out pos time len \<Rightarrow>
       Some (with_cell p s pos (\<lambda>c. c\<lparr>cell_len := len\<rparr>) (M_Publish level out pos time) (M_Step p))
   | M_Publish level out pos time \<Rightarrow>
       Some (with_cell p s pos (\<lambda>c. c\<lparr>sequence := pos + 1\<rparr>) M_Idle
              (M_Published p pos time level (slot_text kMaxMsgLen out))))"

text \<open>
  \<open>DrainLoop\<close>. The load of \<open>running_\<close> may still return true after the destructor has stored
  false; \<open>v = 0\<close> stands for a load of the current value.
\<close>

definition read_cell :: "mpsc_logger \<Rightarrow> u64 \<Rightarrow> (mpsc_cell \<Rightarrow> md_pc) \<Rightarrow> mpsc_event \<times> mpsc_logger" where
  "read_cell s pos pc = (case cell_of s pos of
     None \<Rightarrow> (M_Undefined, s)
   | Some c \<Rightarrow> (M_Drain_Step, s\<lparr>m_drain := pc c\<rparr>))"

definition emit_cell :: "mpsc_logger \<Rightarrow> u64 \<Rightarrow> time_point \<Rightarrow> LogLevel \<Rightarrow> u16 \<Rightarrow> mpsc_event \<times> mpsc_logger" where
  "emit_cell s pos time level len = (case cell_of s pos of
     None \<Rightarrow> (M_Undefined, s)
   | Some c \<Rightarrow>
       if length (cell_msg c) < unat len then (M_Undefined, s)
       else (M_Sink_Log time (Mpsc_ToSpdlogLevel level) (take (unat len) (cell_msg c)), s\<lparr>m_drain := N_Advance pos\<rparr>))"

definition Mpsc_DrainLoop_step :: "u64 \<Rightarrow> mpsc_logger \<Rightarrow> (mpsc_event \<times> mpsc_logger) option" where
  "Mpsc_DrainLoop_step v s = (case m_drain s of
     N_Pos \<Rightarrow> Some (M_Drain_Step, s\<lparr>m_drain := N_Seq (dequeue_pos s)\<rparr>)
   | N_Seq pos \<Rightarrow>
       (case cell_of s pos of
          None \<Rightarrow> Some (M_Undefined, s)
        | Some c \<Rightarrow>
            if v \<le> sequence c
            then Some (case signed_diff v (pos + 1) of
                None \<Rightarrow> (M_Undefined, s)
              | Some diff \<Rightarrow> (M_Drain_Step, s\<lparr>m_drain := (if diff = 0 then N_Time pos else N_Running)\<rparr>))
            else None)
   | N_Time pos \<Rightarrow> Some (read_cell s pos (\<lambda>c. N_Level pos (cell_time c)))
   | N_Level pos time \<Rightarrow> Some (read_cell s pos (\<lambda>c. N_Len pos time (cell_level c)))
   | N_Len pos time level \<Rightarrow> Some (read_cell s pos (\<lambda>c. N_Msg pos time level (cell_len c)))
   | N_Msg pos time level len \<Rightarrow> Some (emit_cell s pos time level len)
   | N_Advance pos \<Rightarrow> Some (M_Drain_Step, s\<lparr>dequeue_pos := pos + 1, m_drain := N_Free pos\<rparr>)
   | N_Free pos \<Rightarrow>
       Some (case set_cell s pos (\<lambda>c. c\<lparr>sequence := pos + cell_mask s + 1\<rparr>) of
           None \<Rightarrow> (M_Undefined, s)
         | Some t \<Rightarrow> (M_Drain_Step, t\<lparr>m_drain := N_Pos\<rparr>))
   | N_Running \<Rightarrow> Some (M_Drain_Step, s\<lparr>m_drain := (if m_running s \<or> v \<noteq> 0 then N_Sleep else N_Flush)\<rparr>)
   | N_Sleep \<Rightarrow> Some (M_Drain_Step, s\<lparr>m_drain := N_Pos\<rparr>)
   | N_Flush \<Rightarrow> Some (M_Sink_Flush, s\<lparr>m_drain := N_Done\<rparr>)
   | N_Done \<Rightarrow> None)"

text \<open>\<open>Flush\<close>: the caller's loads see at least the claims it knew of when it called.\<close>

definition Mpsc_Flush_step :: "u64 \<Rightarrow> mpsc_logger \<Rightarrow> (mpsc_event \<times> mpsc_logger) option" where
  "Mpsc_Flush_step v s = (case m_flusher s of
     F_Idle \<Rightarrow> None
   | F_Tail \<Rightarrow>
       if v \<le> dequeue_pos s then Some (M_Flush_Step, s\<lparr>m_flusher := F_Head v\<rparr>) else None
   | F_Head pos \<Rightarrow>
       if m_known s \<le> v \<and> v \<le> enqueue_pos s
       then Some (M_Flush_Step, s\<lparr>m_flusher := (if pos \<noteq> v then F_Sleep else F_Sink pos)\<rparr>)
       else None
   | F_Sleep \<Rightarrow> Some (M_Flush_Step, s\<lparr>m_flusher := F_Tail\<rparr>)
   | F_Sink pos \<Rightarrow> Some (M_Flush_Return, s\<lparr>m_flusher := F_Idle\<rparr>))"

definition Mpsc_SetLevel :: "LogLevel \<Rightarrow> mpsc_logger \<Rightarrow> mpsc_logger" where
  "Mpsc_SetLevel level s = s\<lparr>m_min_level := level, m_stale_levels := m_visible_levels s\<rparr>"

definition Mpsc_GetLevel :: "mpsc_logger \<Rightarrow> LogLevel" where
  "Mpsc_GetLevel s = m_min_level s"

definition Mpsc_dropped :: "mpsc_logger \<Rightarrow> u64" where
  [simp]: "Mpsc_dropped s = m_dropped s"

inductive mpsc_step :: "mpsc_logger \<Rightarrow> mpsc_event \<Rightarrow> mpsc_logger \<Rightarrow> bool" where
  m_call: "m_owner s = O_Alive \<Longrightarrow> producers s p = M_Idle \<Longrightarrow>
    mpsc_step s (M_Call p level out) (set_pc p (M_Filter level out) s)"
| m_log: "Mpsc_Log_step p v ok now s = Some (e, t) \<Longrightarrow> mpsc_step s e t"
| m_drain: "Mpsc_DrainLoop_step v s = Some (e, t) \<Longrightarrow> mpsc_step s e t"
| m_flush_call: "m_owner s = O_Alive \<Longrightarrow> m_flusher s = F_Idle \<Longrightarrow> known \<le> enqueue_pos s \<Longrightarrow>
    mpsc_step s (M_Flush_Call known) (s\<lparr>m_flusher := F_Tail, m_known := known\<rparr>)"
| m_flush: "Mpsc_Flush_step v s = Some (e, t) \<Longrightarrow> mpsc_step s e t"
| m_set_level: "m_owner s = O_Alive \<Longrightarrow> mpsc_step s (M_Level_Set level) (Mpsc_SetLevel level s)"
| m_stop: "m_owner s = O_Alive \<Longrightarrow> (\<forall>p. producers s p = M_Idle) \<Longrightarrow> m_flusher s = F_Idle \<Longrightarrow>
    mpsc_step s M_Stop (s\<lparr>m_running := False, m_owner := O_Joining\<rparr>)"
| m_join: "m_owner s = O_Joining \<Longrightarrow> m_drain s = N_Done \<Longrightarrow> mpsc_step s M_Joined (s\<lparr>m_owner := O_Destroyed\<rparr>)"

section \<open>History\<close>

text \<open>The claims in the order of the compare-and-swaps, and the line published at each position.\<close>

fun claim_of :: "mpsc_event \<Rightarrow> (nat \<times> LogLevel \<times> string) list" where
  "claim_of (M_Claimed p level text) = [(p, level, text)]"
| "claim_of _ = []"

fun add_line :: "(nat \<Rightarrow> line option) \<Rightarrow> mpsc_event \<Rightarrow> nat \<Rightarrow> line option" where
  "add_line ln (M_Published p pos time level text) = ln(unat pos \<mapsto> (time, level, text))"
| "add_line ln _ = ln"

fun m_delivered_line :: "mpsc_event \<Rightarrow> (time_point \<times> spd_level \<times> string) list" where
  "m_delivered_line (M_Sink_Log time level text) = [(time, level, text)]"
| "m_delivered_line _ = []"

definition claims :: "mpsc_event list \<Rightarrow> (nat \<times> LogLevel \<times> string) list" where
  "claims es = concat (map claim_of es)"

definition line_at :: "mpsc_event list \<Rightarrow> nat \<Rightarrow> line option" where
  "line_at es = foldl add_line Map.empty es"

definition m_delivered :: "mpsc_event list \<Rightarrow> (time_point \<times> spd_level \<times> string) list" where
  "m_delivered es = concat (map m_delivered_line es)"

lemma claims_simps [simp]:
  "claims [] = []" "claims (es @ fs) = claims es @ claims fs" "claims (e # es) = claim_of e @ claims es"
  by (simp_all add: claims_def)

lemma line_at_simps [simp]: "line_at [] = Map.empty" "line_at (es @ [e]) = add_line (line_at es) e"
  by (simp_all add: line_at_def)

lemma m_delivered_simps [simp]:
  "m_delivered [] = []" "m_delivered (es @ fs) = m_delivered es @ m_delivered fs"
  "m_delivered (e # es) = m_delivered_line e @ m_delivered es"
  by (simp_all add: m_delivered_def)

section \<open>The invariant\<close>

text \<open>
  \<open>F\<close> cells have been freed. Of the positions from \<open>F\<close> on, a ring's worth has a cell: its
  sequence number is the position while the cell is free or being written, and one more once
  it is published. Positions stay below \<open>2 ^ 62\<close> and the capacity is between 2 and
  \<open>2 ^ 61\<close>, so that no position wraps and no signed difference overflows.
\<close>

definition cell_at :: "mpsc_cell list \<Rightarrow> nat \<Rightarrow> mpsc_cell" where
  "cell_at bs i = bs ! (i mod length bs)"

definition cells_ok :: "mpsc_cell list \<Rightarrow> u64 \<Rightarrow> bool" where
  "cells_ok bs m \<longleftrightarrow> (\<exists>k. 1 \<le> k \<and> k \<le> 61 \<and> length bs = 2 ^ k \<and> m = 2 ^ k - 1)
     \<and> (\<forall>c\<in>set bs. length (cell_msg c) = kMaxMsgLen)"

definition cell_holds :: "mpsc_cell \<Rightarrow> line \<Rightarrow> bool" where
  "cell_holds c l \<longleftrightarrow> (case l of (time, level, text) \<Rightarrow> cell_time c = time \<and> cell_level c = level
     \<and> unat (cell_len c) = length text \<and> take (length text) (cell_msg c) = text)"

definition seqs_ok :: "mpsc_cell list \<Rightarrow> (nat \<Rightarrow> line option) \<Rightarrow> nat \<Rightarrow> bool" where
  "seqs_ok bs ln F \<longleftrightarrow> (\<forall>i. F \<le> i \<longrightarrow> i < F + length bs \<longrightarrow>
     unat (sequence (cell_at bs i)) = (if ln i = None then i else Suc i))"

definition lines_ok :: "mpsc_cell list \<Rightarrow> (nat \<times> LogLevel \<times> string) list \<Rightarrow> (nat \<Rightarrow> line option) \<Rightarrow> nat \<Rightarrow> bool" where
  "lines_ok bs cs ln F \<longleftrightarrow> length cs \<le> F + length bs \<and> F \<le> length cs \<and> (\<forall>i<F. ln i \<noteq> None)
     \<and> (\<forall>i l. ln i = Some l \<longrightarrow> i < length cs \<and> snd (cs ! i) = snd l)
     \<and> (\<forall>i l. F \<le> i \<longrightarrow> ln i = Some l \<longrightarrow> cell_holds (cell_at bs i) l)"

text \<open>The position a producer is writing, and what is already in its cell.\<close>

definition owned :: "mp_pc \<Rightarrow> u64 option" where
  "owned pc = (case pc of M_Time _ _ pos \<Rightarrow> Some pos | M_Level _ _ pos _ \<Rightarrow> Some pos | M_Format _ _ pos _ \<Rightarrow> Some pos
     | M_Len _ _ pos _ _ \<Rightarrow> Some pos | M_Publish _ _ pos _ \<Rightarrow> Some pos | _ \<Rightarrow> None)"

definition pc_call :: "mp_pc \<Rightarrow> (LogLevel \<times> fmt_outcome) option" where
  "pc_call pc = (case pc of M_Filter l out \<Rightarrow> Some (l, out) | M_Load l out \<Rightarrow> Some (l, out) | M_Seq l out _ \<Rightarrow> Some (l, out)
     | M_Cas l out _ \<Rightarrow> Some (l, out) | M_Time l out _ \<Rightarrow> Some (l, out) | M_Level l out _ _ \<Rightarrow> Some (l, out)
     | M_Format l out _ _ \<Rightarrow> Some (l, out) | M_Len l out _ _ _ \<Rightarrow> Some (l, out) | M_Publish l out _ _ \<Rightarrow> Some (l, out)
     | _ \<Rightarrow> None)"

definition cell_so_far :: "mpsc_cell \<Rightarrow> mp_pc \<Rightarrow> bool" where
  "cell_so_far c pc \<longleftrightarrow> (case pc of
     M_Level _ _ _ time \<Rightarrow> cell_time c = time
   | M_Format level _ _ time \<Rightarrow> cell_time c = time \<and> cell_level c = level
   | M_Len level out _ time len \<Rightarrow> cell_time c = time \<and> cell_level c = level
       \<and> unat len = length (slot_text kMaxMsgLen out)
       \<and> take (length (slot_text kMaxMsgLen out)) (cell_msg c) = slot_text kMaxMsgLen out
   | M_Publish level out _ time \<Rightarrow> cell_holds c (time, level, slot_text kMaxMsgLen out)
   | _ \<Rightarrow> True)"

definition mp_ok :: "mpsc_cell list \<Rightarrow> (nat \<times> LogLevel \<times> string) list \<Rightarrow> (nat \<Rightarrow> line option) \<Rightarrow> nat \<Rightarrow> mp_pc \<Rightarrow> bool" where
  "mp_ok bs cs ln p pc \<longleftrightarrow>
     (case pc of M_Seq _ _ pos \<Rightarrow> unat pos \<le> length cs
      | M_Cas _ _ pos \<Rightarrow> unat pos \<le> length cs \<and> unat pos \<le> unat (sequence (cell_at bs (unat pos)))
      | _ \<Rightarrow> True)
     \<and> (\<forall>pos. owned pc = Some pos \<longrightarrow> unat pos < length cs \<and> ln (unat pos) = None
          \<and> (\<exists>level out. pc_call pc = Some (level, out) \<and> cs ! unat pos = (p, level, slot_text kMaxMsgLen out))
          \<and> cell_so_far (cell_at bs (unat pos)) pc)"

definition md_ok :: "mpsc_cell list \<Rightarrow> (nat \<Rightarrow> line option) \<Rightarrow> nat \<Rightarrow> u64 \<Rightarrow> md_pc \<Rightarrow> bool" where
  "md_ok bs ln F dq pc \<longleftrightarrow> (case pc of
     N_Seq pos \<Rightarrow> dq = of_nat F \<and> pos = of_nat F
   | N_Time pos \<Rightarrow> dq = of_nat F \<and> pos = of_nat F \<and> ln F \<noteq> None
   | N_Level pos time \<Rightarrow> dq = of_nat F \<and> pos = of_nat F \<and> ln F \<noteq> None \<and> time = fst (the (ln F))
   | N_Len pos time level \<Rightarrow> dq = of_nat F \<and> pos = of_nat F \<and> ln F \<noteq> None \<and> time = fst (the (ln F))
       \<and> level = fst (snd (the (ln F)))
   | N_Msg pos time level len \<Rightarrow> dq = of_nat F \<and> pos = of_nat F \<and> ln F \<noteq> None \<and> time = fst (the (ln F))
       \<and> level = fst (snd (the (ln F))) \<and> unat len = length (snd (snd (the (ln F))))
   | N_Advance pos \<Rightarrow> dq = of_nat F \<and> pos = of_nat F \<and> ln F \<noteq> None
   | N_Free pos \<Rightarrow> dq = of_nat (Suc F) \<and> pos = of_nat F \<and> ln F \<noteq> None
   | _ \<Rightarrow> dq = of_nat F)"

definition mpsc_at :: "(nat \<times> LogLevel \<times> string) list \<Rightarrow> (nat \<Rightarrow> line option) \<Rightarrow> nat \<Rightarrow> mpsc_logger \<Rightarrow> bool" where
  "mpsc_at cs ln F s \<longleftrightarrow> cells_ok (cells s) (cell_mask s) \<and> seqs_ok (cells s) ln F \<and> lines_ok (cells s) cs ln F
     \<and> enqueue_pos s = of_nat (length cs) \<and> (\<forall>p. mp_ok (cells s) cs ln p (producers s p))
     \<and> md_ok (cells s) ln F (dequeue_pos s) (m_drain s)"

fun emitted :: "md_pc \<Rightarrow> bool" where
  "emitted (N_Advance _) \<longleftrightarrow> True"
| "emitted (N_Free _) \<longleftrightarrow> True"
| "emitted _ \<longleftrightarrow> False"

definition m_freed :: "md_pc \<Rightarrow> nat \<Rightarrow> nat" where
  "m_freed pc n = (if emitted pc then n - 1 else n)"

definition mpsc_inv :: "mpsc_event list \<Rightarrow> mpsc_logger \<Rightarrow> bool" where
  "mpsc_inv es s \<longleftrightarrow> length (claims es) < 2 ^ 62 \<longrightarrow>
     mpsc_at (claims es) (line_at es) (m_freed (m_drain s) (length (m_delivered es))) s
     \<and> (emitted (m_drain s) \<longrightarrow> m_delivered es \<noteq> [])
     \<and> (\<forall>i<length (m_delivered es). line_at es i \<noteq> None \<and> m_delivered es ! i = sink_line (the (line_at es i)))
     \<and> M_Undefined \<notin> set es"

subsection \<open>Cells\<close>

definition put :: "mpsc_cell list \<Rightarrow> nat \<Rightarrow> (mpsc_cell \<Rightarrow> mpsc_cell) \<Rightarrow> mpsc_cell list" where
  "put bs i f = bs[i mod length bs := f (cell_at bs i)]"

lemma cells_okD:
  assumes "cells_ok bs m"
  shows "2 \<le> length bs" and "length bs \<le> 2 ^ 61" and "bs \<noteq> []" and "length (cell_msg (cell_at bs i)) = kMaxMsgLen"
    and "unat m = length bs - 1"
proof -
  from assms obtain k where k: "1 \<le> k" "k \<le> 61" "length bs = 2 ^ k" "m = 2 ^ k - 1" by (auto simp: cells_ok_def)
  have "(2 :: nat) ^ 1 \<le> 2 ^ k" using k(1) by (rule power_increasing) simp
  then show "2 \<le> length bs" using k(3) by simp
  then show "bs \<noteq> []" by auto
  show "length bs \<le> 2 ^ 61" using k(2) power_increasing [OF k(2), of "2 :: nat"] by (simp add: k(3))
  have "cell_at bs i \<in> set bs" using \<open>bs \<noteq> []\<close> by (simp add: cell_at_def)
  then show "length (cell_msg (cell_at bs i)) = kMaxMsgLen" using assms by (simp add: cells_ok_def)
  have "k < 64" using k(2) by simp
  moreover from unat_pow2 [OF this] have "(2 ^ k :: u64) \<noteq> 0" by (metis power_not_zero unsigned_0 zero_neq_numeral)
  ultimately show "unat m = length bs - 1"
    unfolding k(3,4) by (metis unat_minus_one unat_pow2)
qed

lemma cell_index:
  assumes "cells_ok (cells s) (cell_mask s)"
  shows "unat (pos AND cell_mask s) = unat pos mod length (cells s)"
  using assms by (auto simp: cells_ok_def unat_slot)

lemma cell_of_pos:
  assumes "cells_ok (cells s) (cell_mask s)"
  shows "cell_of s pos = Some (cell_at (cells s) (unat pos))"
  using cells_okD(3) [OF assms] by (simp add: cell_of_def arr_get_def cell_index [OF assms] cell_at_def)

lemma set_cell_pos:
  assumes "cells_ok (cells s) (cell_mask s)"
  shows "set_cell s pos f = Some (s\<lparr>cells := put (cells s) (unat pos) f\<rparr>)"
  using cells_okD(3) [OF assms]
  by (simp add: set_cell_def cell_of_pos [OF assms] arr_set_def cell_index [OF assms] put_def)

lemma with_cell_pos:
  assumes "cells_ok (cells s) (cell_mask s)"
  shows "with_cell p s pos f pc e = (e, set_pc p pc (s\<lparr>cells := put (cells s) (unat pos) f\<rparr>))"
  by (simp add: with_cell_def set_cell_pos [OF assms])

lemma length_put [simp]: "length (put bs i f) = length bs"
  by (simp add: put_def)

lemma cell_at_put:
  "bs \<noteq> [] \<Longrightarrow> cell_at (put bs i f) j = (if j mod length bs = i mod length bs then f (cell_at bs i) else cell_at bs j)"
  by (simp add: put_def cell_at_def)

lemma cell_at_put_window:
  assumes "bs \<noteq> []" and "F \<le> i" "i < F + length bs" and "F \<le> j" "j < F + length bs"
  shows "cell_at (put bs i f) j = (if j = i then f (cell_at bs i) else cell_at bs j)"
  using slots_distinct_window [of j "length bs" i F] assms by (auto simp: cell_at_put)

lemma cells_ok_put:
  assumes "cells_ok bs m" and "length (cell_msg (f (cell_at bs i))) = kMaxMsgLen"
  shows "cells_ok (put bs i f) m"
  using assms by (auto simp: cells_ok_def put_def dest!: set_update_subset_insert [THEN subsetD])

subsection \<open>Signed differences\<close>

lemma sint_small: "unat (w :: u64) < 2 ^ 63 \<Longrightarrow> sint w = int (unat w)"
  by (simp add: sint_of_unat)

lemma signed_diff_small:
  assumes "unat a < 2 ^ 63" and "unat b < 2 ^ 63"
  shows "signed_diff a b = Some (int (unat a) - int (unat b))"
proof -
  have "- (2 ^ 63) \<le> int x - int y \<and> int x - int y < 2 ^ 63" if "x < 2 ^ 63" "y < 2 ^ 63" for x y :: nat
    using that by simp
  then show ?thesis
    unfolding signed_diff_def sint_small [OF assms(1)] sint_small [OF assms(2)] Let_def using assms by (metis if_True)
qed

lemma signed_diff_zero:
  assumes "unat a < 2 ^ 63" and "unat b < 2 ^ 63"
  shows "\<exists>d. signed_diff a b = Some d \<and> (d = 0 \<longleftrightarrow> unat a = unat b) \<and> (d < 0 \<longleftrightarrow> unat a < unat b)"
proof -
  have "(int x - int y = 0 \<longleftrightarrow> x = y) \<and> (int x - int y < 0 \<longleftrightarrow> x < y)" for x y by auto
  then show ?thesis unfolding signed_diff_small [OF assms] by blast
qed

subsection \<open>What every step keeps\<close>

text \<open>Sequence numbers only grow; this is what a producer about to swap relies on.\<close>

text \<open>Every cell is the cell of a position of the window.\<close>

lemma window_position:
  assumes "bs \<noteq> []"
  obtains j where "F \<le> j" and "j < F + length bs" and "j mod length bs = i mod length bs" and "cell_at bs i = cell_at bs j"
proof -
  let ?n = "length bs"
  define j where "j = F + (i + ?n * F - F) mod ?n"
  have n: "0 < ?n" using assms by simp
  then have j: "F \<le> j" "j < F + ?n" by (simp_all add: j_def)
  have "j mod ?n = (F + (i + ?n * F - F)) mod ?n" by (simp add: j_def mod_add_right_eq)
  also have "F + (i + ?n * F - F) = i + ?n * F" using n by (simp add: Suc_leI le_add2 trans_le_add2)
  finally have "j mod ?n = i mod ?n" by simp
  with j that show thesis by (simp add: cell_at_def)
qed

lemma seq_bound:
  assumes "seqs_ok bs ln F" and "lines_ok bs cs ln F" and "cells_ok bs m" and "length cs < 2 ^ 62"
  shows "unat (sequence (cell_at bs i)) < 2 ^ 63"
proof -
  let ?n = "length bs"
  note c = cells_okD [OF assms(3)]
  obtain j where j: "F \<le> j" "j < F + ?n" "cell_at bs i = cell_at bs j" by (rule window_position [OF c(3)])
  have "unat (sequence (cell_at bs j)) \<le> Suc j" using assms(1) j by (simp add: seqs_ok_def)
  moreover have "Suc j \<le> F + ?n" using j by simp
  moreover have "F + ?n < 2 ^ 62 + 2 ^ 61"
    using assms(2,4) c(2) by (intro add_less_le_mono) (auto simp: lines_ok_def)
  ultimately have "unat (sequence (cell_at bs i)) < 2 ^ 62 + 2 ^ 61" using j(3) by (metis le_less_trans)
  then show ?thesis by simp
qed

text \<open>A sequence number is never below the index of its cell, the value of the constructor.\<close>

lemma seq_at_least_index:
  assumes "seqs_ok (cells s) ln F" and "cells_ok (cells s) (cell_mask s)"
  shows "pos AND cell_mask s \<le> sequence (cell_at (cells s) (unat pos))"
proof -
  obtain j where j: "F \<le> j" "j < F + length (cells s)" "j mod length (cells s) = unat pos mod length (cells s)"
    "cell_at (cells s) (unat pos) = cell_at (cells s) j" by (rule window_position [OF cells_okD(3) [OF assms(2)]])
  have "j \<le> unat (sequence (cell_at (cells s) j))" using assms(1) j by (simp add: seqs_ok_def)
  moreover have "unat (pos AND cell_mask s) \<le> j"
    using cell_index [OF assms(2), of pos] j(3) mod_less_eq_dividend [of j "length (cells s)"] by simp
  ultimately show ?thesis by (simp add: word_le_nat_alt j(4))
qed

lemma mp_ok_frame:
  assumes "mp_ok bs cs ln p pc" and "length cs \<le> length cs'" and "take (length cs) cs' = cs"
    and "\<And>i. unat (sequence (cell_at bs i)) \<le> unat (sequence (cell_at bs' i))"
    and "\<And>pos. owned pc = Some pos \<Longrightarrow> ln' (unat pos) = None \<and> cell_at bs' (unat pos) = cell_at bs (unat pos)"
  shows "mp_ok bs' cs' ln' p pc"
proof -
  have nth: "i < length cs \<Longrightarrow> cs' ! i = cs ! i" for i using assms(3) by (metis nth_take)
  have seq: "i \<le> unat (sequence (cell_at bs j)) \<Longrightarrow> i \<le> unat (sequence (cell_at bs' j))" for i j
    using assms(4) [of j] by linarith
  from assms(1,2,5) show ?thesis
    by (cases pc) (auto simp: mp_ok_def owned_def pc_call_def nth intro: seq)
qed

lemma set_pc_simps [simp]:
  "cells (set_pc p pc s) = cells s" "cell_mask (set_pc p pc s) = cell_mask s" "enqueue_pos (set_pc p pc s) = enqueue_pos s"
  "dequeue_pos (set_pc p pc s) = dequeue_pos s" "m_drain (set_pc p pc s) = m_drain s"
  "m_running (set_pc p pc s) = m_running s" "m_owner (set_pc p pc s) = m_owner s" "m_flusher (set_pc p pc s) = m_flusher s"
  "m_known (set_pc p pc s) = m_known s" "m_min_level (set_pc p pc s) = m_min_level s"
  "m_dropped (set_pc p pc s) = m_dropped s" "producers (set_pc p pc s) = (producers s)(p := pc)"
  by (simp_all add: set_pc_def)

lemma mpsc_atD:
  assumes "mpsc_at cs ln F s"
  shows "cells_ok (cells s) (cell_mask s)" and "seqs_ok (cells s) ln F" and "lines_ok (cells s) cs ln F"
    and "enqueue_pos s = of_nat (length cs)" and "mp_ok (cells s) cs ln p (producers s p)"
    and "md_ok (cells s) ln F (dequeue_pos s) (m_drain s)"
  using assms by (simp_all add: mpsc_at_def)

lemma lines_okD:
  assumes "lines_ok bs cs ln F"
  shows "ln i = Some l \<Longrightarrow> i < length cs" and "ln i = Some l \<Longrightarrow> snd (cs ! i) = snd l"
    and "F \<le> i \<Longrightarrow> ln i = Some l \<Longrightarrow> cell_holds (cell_at bs i) l" and "i < F \<Longrightarrow> ln i \<noteq> None"
    and "i < length cs \<Longrightarrow> i < F + length bs" and "F \<le> length cs" and "length cs \<le> F + length bs"
  using assms unfolding lines_ok_def by (blast, blast, blast, blast, linarith, blast, blast)

lemma owned_window:
  assumes "mpsc_at cs ln F s" and "owned (producers s p) = Some pos"
  shows "F \<le> unat pos" and "unat pos < F + length (cells s)" and "unat pos < length cs" and "ln (unat pos) = None"
proof -
  note a = mpsc_atD [OF assms(1)]
  from a(5) [of p] assms(2) show n: "unat pos < length cs" and l: "ln (unat pos) = None"
    by (auto simp: mp_ok_def)
  from a(3) l show "F \<le> unat pos" by (metis lines_ok_def not_le)
  from a(3) n show "unat pos < F + length (cells s)" unfolding lines_ok_def by linarith
qed

lemma owned_distinct:
  assumes "mpsc_at cs ln F s" and "owned (producers s p) = Some pos" and "owned (producers s q) = Some pos'" and "p \<noteq> q"
  shows "unat pos \<noteq> unat pos'"
  using mpsc_atD(5) [OF assms(1), of p] mpsc_atD(5) [OF assms(1), of q] assms(2-4) by (auto simp: mp_ok_def)

lemma log_pc:
  assumes "mpsc_at cs ln F s" and "mp_ok (cells s) cs ln p pc"
  shows "mpsc_at cs ln F (set_pc p pc s)" and "mpsc_at cs ln F (set_pc p pc (s\<lparr>m_dropped := n\<rparr>))"
  using assms by (auto simp: mpsc_at_def set_pc_def)

text \<open>A store to a field of the cell a producer owns.\<close>

lemma log_write:
  assumes at: "mpsc_at cs ln F s" and own: "owned (producers s p) = Some pos"
    and f: "\<And>c. sequence (f c) = sequence c" "length (cell_msg (f (cell_at (cells s) (unat pos)))) = kMaxMsgLen"
    and pc: "owned pc = Some pos" "pc_call pc = pc_call (producers s p)"
      "cell_so_far (f (cell_at (cells s) (unat pos))) pc"
  shows "mpsc_at cs ln F (set_pc p pc (s\<lparr>cells := put (cells s) (unat pos) f\<rparr>))"
proof -
  let ?bs = "cells s" and ?i = "unat pos"
  let ?bs' = "put ?bs ?i f"
  note a = mpsc_atD [OF at] and w = owned_window [OF at own]
  have ne: "?bs \<noteq> []" by (rule cells_okD(3) [OF a(1)])
  have seq: "sequence (cell_at ?bs' j) = sequence (cell_at ?bs j)" for j
    using f(1) by (simp add: cell_at_put [OF ne]) (simp add: cell_at_def)
  have other: "cell_at ?bs' j = cell_at ?bs j" if "F \<le> j" "j < F + length ?bs" "j \<noteq> ?i" for j
    using cell_at_put_window [OF ne w(1,2) that(1,2)] that(3) by simp
  have "seqs_ok ?bs' ln F" using a(2) by (simp add: seqs_ok_def seq)
  moreover have "lines_ok ?bs' cs ln F"
  proof -
    have "cell_holds (cell_at ?bs' j) l" if "F \<le> j" "ln j = Some l" for j l
    proof -
      have "j < F + length ?bs" and "j \<noteq> ?i" using that lines_okD(1,5) [OF a(3)] w(4) by auto
      with that lines_okD(3) [OF a(3) that] other [of j] show ?thesis by simp
    qed
    then show ?thesis using a(3) unfolding lines_ok_def by simp
  qed
  moreover have "mp_ok ?bs' cs ln q (((producers s)(p := pc)) q)" for q
  proof (cases "q = p")
    case True
    have "cell_at ?bs' ?i = f (cell_at ?bs ?i)" by (simp add: cell_at_put [OF ne])
    with True a(5) [of p] own pc show ?thesis
      by (cases pc) (auto simp: mp_ok_def owned_def)
  next
    case False
    have "mp_ok ?bs' cs ln q (producers s q)"
    proof (rule mp_ok_frame [OF a(5)])
      fix pos' assume q: "owned (producers s q) = Some pos'"
      note w' = owned_window [OF at q]
      have "unat pos' \<noteq> ?i" using owned_distinct [OF at own q] False by auto
      with w' other show "ln (unat pos') = None \<and> cell_at ?bs' (unat pos') = cell_at ?bs (unat pos')" by blast
    qed (simp_all add: seq)
    with False show ?thesis by simp
  qed
  moreover have "md_ok ?bs' ln F (dequeue_pos s) (m_drain s)" using a(6) by (simp add: md_ok_def)
  moreover have "cells_ok ?bs' (cell_mask s)" by (rule cells_ok_put [OF a(1)]) (rule f(2))
  ultimately show ?thesis using a(4) by (simp add: mpsc_at_def)
qed

text \<open>Publishing: the line becomes visible at its position.\<close>

lemma log_publish:
  assumes at: "mpsc_at cs ln F s" and pub: "producers s p = M_Publish level out pos time" and small: "length cs < 2 ^ 62"
  shows "mpsc_at cs (ln(unat pos \<mapsto> (time, level, slot_text kMaxMsgLen out))) F
    (set_pc p M_Idle (s\<lparr>cells := put (cells s) (unat pos) (\<lambda>c. c\<lparr>sequence := pos + 1\<rparr>)\<rparr>))"
proof -
  let ?bs = "cells s" and ?i = "unat pos" and ?l = "(time, level, slot_text kMaxMsgLen out)"
  let ?bs' = "put ?bs ?i (\<lambda>c. c\<lparr>sequence := pos + 1\<rparr>)" and ?ln = "ln(?i \<mapsto> ?l)"
  have own: "owned (producers s p) = Some pos" by (simp add: pub owned_def)
  note a = mpsc_atD [OF at] and w = owned_window [OF at own]
  have ne: "?bs \<noteq> []" by (rule cells_okD(3) [OF a(1)])
  have "?i < 2 ^ 62" using w(3) small by linarith
  then have u: "unat (pos + 1) = Suc ?i" by (simp add: unat_word_ariths)
  have here: "cell_at ?bs' ?i = (cell_at ?bs ?i)\<lparr>sequence := pos + 1\<rparr>" by (simp add: cell_at_put [OF ne])
  have other: "cell_at ?bs' j = cell_at ?bs j" if "F \<le> j" "j < F + length ?bs" "j \<noteq> ?i" for j
    using cell_at_put_window [OF ne w(1,2) that(1,2)] that(3) by simp
  have old: "unat (sequence (cell_at ?bs ?i)) = ?i" using a(2) w by (simp add: seqs_ok_def)
  have grow: "unat (sequence (cell_at ?bs j)) \<le> unat (sequence (cell_at ?bs' j))" for j
  proof (cases "j mod length ?bs = ?i mod length ?bs")
    case True
    then have "cell_at ?bs j = cell_at ?bs ?i" by (simp add: cell_at_def)
    with True old u show ?thesis by (simp add: cell_at_put [OF ne])
  qed (simp add: cell_at_put [OF ne])
  have mine: "mp_ok ?bs cs ln p (M_Publish level out pos time)" using a(5) [of p] pub by simp
  have "seqs_ok ?bs' ?ln F"
    unfolding seqs_ok_def
  proof (intro allI impI)
    fix j assume j: "F \<le> j" "j < F + length ?bs'"
    show "unat (sequence (cell_at ?bs' j)) = (if ?ln j = None then j else Suc j)"
      using other [of j] j a(2) here u by (cases "j = ?i") (simp_all add: seqs_ok_def)
  qed
  moreover have "lines_ok ?bs' cs ?ln F"
  proof -
    have "cell_holds (cell_at ?bs' j) l" if "F \<le> j" "?ln j = Some l" for j l
    proof (cases "j = ?i")
      case True
      with that mine here show ?thesis by (auto simp: mp_ok_def owned_def cell_so_far_def cell_holds_def)
    next
      case False
      with that have l: "ln j = Some l" by simp
      then have "j < F + length ?bs" using lines_okD(1,5) [OF a(3)] by auto
      with False lines_okD(3) [OF a(3) that(1) l] that other [of j] show ?thesis by simp
    qed
    moreover have "snd (cs ! ?i) = snd ?l" using mine by (auto simp: mp_ok_def owned_def pc_call_def)
    ultimately show ?thesis using a(3) w(3) by (auto simp: lines_ok_def)
  qed
  moreover have "mp_ok ?bs' cs ?ln q (((producers s)(p := M_Idle)) q)" for q
  proof (cases "q = p")
    case True
    then show ?thesis by (simp add: mp_ok_def owned_def)
  next
    case False
    have "mp_ok ?bs' cs ?ln q (producers s q)"
    proof (rule mp_ok_frame [OF a(5)])
      fix pos' assume q: "owned (producers s q) = Some pos'"
      note w' = owned_window [OF at q]
      have "unat pos' \<noteq> ?i" using owned_distinct [OF at own q] False by auto
      with w' other show "?ln (unat pos') = None \<and> cell_at ?bs' (unat pos') = cell_at ?bs (unat pos')" by simp
    qed (simp_all add: grow)
    with False show ?thesis by simp
  qed
  moreover have "md_ok ?bs' ?ln F (dequeue_pos s) (m_drain s)"
  proof -
    have "?ln F = ln F" if "ln F \<noteq> None" using that w(4) by auto
    then show ?thesis using a(6) by (cases "m_drain s") (auto simp: md_ok_def)
  qed
  moreover have "cells_ok ?bs' (cell_mask s)" by (rule cells_ok_put [OF a(1)]) (simp add: cells_okD(4) [OF a(1)])
  ultimately show ?thesis using a(4) by (simp add: mpsc_at_def)
qed

text \<open>A successful compare-and-swap: the cell of the claimed position is free.\<close>

lemma log_claim:
  assumes at: "mpsc_at cs ln F s" and cas: "producers s p = M_Cas level out pos" and eq: "enqueue_pos s = pos"
    and small: "length cs < 2 ^ 62"
  shows "mpsc_at (cs @ [(p, level, slot_text kMaxMsgLen out)]) ln F
    (set_pc p (M_Time level out pos) (s\<lparr>enqueue_pos := pos + 1\<rparr>))"
proof -
  let ?bs = "cells s" and ?n = "length cs" and ?c = "(p, level, slot_text kMaxMsgLen out)"
  note a = mpsc_atD [OF at] and c = cells_okD [OF mpsc_atD(1) [OF at]]
  have "?n < 2 ^ 64" using small by simp
  then have pos: "unat pos = ?n" using eq a(4) by (metis unat_of_nat_small)
  from a(5) [of p] cas pos have seq: "?n \<le> unat (sequence (cell_at ?bs ?n))" by (simp add: mp_ok_def)
  have free: "?n < F + length ?bs"
  proof (rule ccontr)
    assume "\<not> ?n < F + length ?bs"
    then have full: "?n = F + length ?bs" using lines_okD(7) [OF a(3)] by simp
    then have "cell_at ?bs ?n = cell_at ?bs F" by (simp add: cell_at_def)
    moreover have "unat (sequence (cell_at ?bs F)) \<le> Suc F" using a(2) c(3) by (simp add: seqs_ok_def)
    ultimately show False using seq full c(1) by simp
  qed
  have none: "ln ?n = None" using lines_okD(1) [OF a(3), of ?n] by (cases "ln ?n") auto
  have "lines_ok ?bs (cs @ [?c]) ln F"
  proof -
    have "i < length (cs @ [?c]) \<and> snd ((cs @ [?c]) ! i) = snd l" if "ln i = Some l" for i l
      using lines_okD(1,2) [OF a(3) that] by (simp add: nth_append)
    then show ?thesis using a(3) free unfolding lines_ok_def by simp
  qed
  moreover have "mp_ok ?bs (cs @ [?c]) ln q (((producers s)(p := M_Time level out pos)) q)" for q
  proof (cases "q = p")
    case True
    then show ?thesis using pos none by (simp add: mp_ok_def owned_def pc_call_def cell_so_far_def)
  next
    case False
    have "mp_ok ?bs (cs @ [?c]) ln q (producers s q)"
      by (rule mp_ok_frame [OF a(5)]) (auto simp: owned_window(4) [OF at])
    with False show ?thesis by simp
  qed
  ultimately show ?thesis using a(1,2,4,6) eq by (simp add: mpsc_at_def del: fun_upd_apply)
qed

definition mp_result :: "(nat \<times> LogLevel \<times> string) list \<Rightarrow> (nat \<Rightarrow> line option) \<Rightarrow> nat \<Rightarrow> mpsc_logger \<Rightarrow> mpsc_event \<Rightarrow>
    mpsc_logger \<Rightarrow> bool" where
  "mp_result cs ln F s e t \<longleftrightarrow> e \<noteq> M_Undefined \<and> m_delivered_line e = [] \<and> m_drain t = m_drain s
     \<and> mpsc_at (cs @ claim_of e) (add_line ln e) F t"

lemma Mpsc_Log_step_inv:
  assumes at: "mpsc_at cs ln F s" and step: "Mpsc_Log_step p v ok now s = Some (e, t)" and small: "length cs < 2 ^ 62"
  shows "mp_result cs ln F s e t"
proof -
  note a = mpsc_atD [OF at] and mine = mpsc_atD(5) [OF at, of p]
  note ok = mpsc_atD(1) [OF at]
  have "length cs < 2 ^ 64" using small by simp
  then have enq: "unat (enqueue_pos s) = length cs" using a(4) by (simp only: unat_of_nat_small)
  have load: "unat v \<le> length cs" if "v \<le> enqueue_pos s" using that enq by (simp add: word_le_nat_alt)
  show ?thesis
  proof (cases "producers s p")
    case (M_Filter level out)
    with step log_pc(1) [OF at, of p "if level < m_visible_levels s ! unat v then M_Idle else M_Load level out"] show ?thesis
      by (auto simp: Mpsc_Log_step_def mp_result_def mp_ok_def owned_def split: if_splits)
  next
    case (M_Load level out)
    with step load have "unat v \<le> length cs" "e = M_Step p" "t = set_pc p (M_Seq level out v) s"
      by (auto simp: Mpsc_Log_step_def split: if_splits)
    with log_pc(1) [OF at, of p "M_Seq level out v"] show ?thesis
      by (simp add: mp_result_def mp_ok_def owned_def)
  next
    case (M_Seq level out pos)
    from mine M_Seq have pos: "unat pos \<le> length cs" by (simp add: mp_ok_def)
    then have p63: "unat pos < 2 ^ 63" using small by (rule le_less_trans [OF _ less_trans]) simp
    from step M_Seq have le: "v \<le> sequence (cell_at (cells s) (unat pos))"
      by (auto simp: Mpsc_Log_step_def cell_of_pos [OF ok] split: if_splits)
    then have v: "unat v \<le> unat (sequence (cell_at (cells s) (unat pos)))" by (simp add: word_le_nat_alt)
    then have "unat v < 2 ^ 63" using seq_bound [OF a(2,3) ok small] by (rule le_less_trans)
    from signed_diff_zero [OF this p63] obtain d where d: "signed_diff v pos = Some d" "d = 0 \<longleftrightarrow> unat v = unat pos"
      by blast
    define pc where "pc = (if d = 0 then M_Cas level out pos else if d < 0 then M_Drop else M_Load level out)"
    from step M_Seq le d(1) have t: "e = M_Step p" "t = set_pc p pc s"
      by (auto simp: Mpsc_Log_step_def cell_of_pos [OF ok] pc_def split: if_splits)
    have "mp_ok (cells s) cs ln p pc"
      using pos v d(2) by (simp add: pc_def mp_ok_def owned_def)
    from log_pc(1) [OF at this] t show ?thesis by (simp add: mp_result_def)
  next
    case (M_Cas level out pos)
    show ?thesis
    proof (cases ok)
      case True
      with step M_Cas have "enqueue_pos s = pos" "e = M_Claimed p level (slot_text kMaxMsgLen out)"
        "t = set_pc p (M_Time level out pos) (s\<lparr>enqueue_pos := pos + 1\<rparr>)"
        by (auto simp: Mpsc_Log_step_def split: if_splits)
      with log_claim [OF at M_Cas _ small] show ?thesis by (simp add: mp_result_def)
    next
      case False
      with step M_Cas load have "unat v \<le> length cs" "e = M_Step p" "t = set_pc p (M_Seq level out v) s"
        by (auto simp: Mpsc_Log_step_def split: if_splits)
      with log_pc(1) [OF at, of p "M_Seq level out v"] show ?thesis
        by (simp add: mp_result_def mp_ok_def owned_def)
    qed
  next
    case M_Drop
    with step log_pc(2) [OF at, of p M_Idle "m_dropped s + 1"] show ?thesis
      by (auto simp: Mpsc_Log_step_def mp_result_def mp_ok_def owned_def)
  next
    case (M_Time level out pos)
    with step log_write [OF at, of p pos "\<lambda>c. c\<lparr>cell_time := now\<rparr>" "M_Level level out pos now"] show ?thesis
      by (auto simp: Mpsc_Log_step_def with_cell_pos [OF ok] mp_result_def owned_def pc_call_def cell_so_far_def
          cells_okD(4) [OF ok])
  next
    case (M_Level level out pos time)
    with mine step log_write [OF at, of p pos "\<lambda>c. c\<lparr>cell_level := level\<rparr>" "M_Format level out pos time"] show ?thesis
      by (auto simp: Mpsc_Log_step_def with_cell_pos [OF ok] mp_result_def owned_def pc_call_def cell_so_far_def
          cells_okD(4) [OF ok] mp_ok_def)
  next
    case (M_Format level out pos time)
    from FormatInto_slot_text [OF cells_okD(4) [OF ok, of "unat pos"], where outcome = out] obtain m n where
      f: "FormatInto (cell_msg (cell_at (cells s) (unat pos))) kMaxMsgLen out = Some (m, n)" "length m = kMaxMsgLen"
        "unat n = length (slot_text kMaxMsgLen out)" "take (unat n) m = slot_text kMaxMsgLen out"
      by (auto simp: kMaxMsgLen_def)
    with M_Format mine step log_write [OF at, of p pos "\<lambda>c. c\<lparr>cell_msg := m\<rparr>" "M_Len level out pos time n"] show ?thesis
      by (auto simp: Mpsc_Log_step_def format_cell_def cell_of_pos [OF ok] with_cell_pos [OF ok] mp_result_def owned_def
          pc_call_def cell_so_far_def mp_ok_def)
  next
    case (M_Len level out pos time n)
    with mine step log_write [OF at, of p pos "\<lambda>c. c\<lparr>cell_len := n\<rparr>" "M_Publish level out pos time"] show ?thesis
      by (auto simp: Mpsc_Log_step_def with_cell_pos [OF ok] mp_result_def owned_def pc_call_def cell_so_far_def
          cell_holds_def cells_okD(4) [OF ok] mp_ok_def)
  next
    case (M_Publish level out pos time)
    with step log_publish [OF at M_Publish small] show ?thesis
      by (auto simp: Mpsc_Log_step_def with_cell_pos [OF ok] mp_result_def)
  qed (use step in \<open>simp add: Mpsc_Log_step_def\<close>)
qed

subsection \<open>The drain thread\<close>

definition md_result :: "(nat \<times> LogLevel \<times> string) list \<Rightarrow> (nat \<Rightarrow> line option) \<Rightarrow> nat \<Rightarrow> mpsc_logger \<Rightarrow> mpsc_event \<Rightarrow>
    mpsc_logger \<Rightarrow> bool" where
  "md_result cs ln F s e t \<longleftrightarrow> e \<noteq> M_Undefined \<and> claim_of e = [] \<and> add_line ln e = ln \<and> producers t = producers s \<and>
     (case m_drain s of
        N_Msg _ _ _ _ \<Rightarrow> emitted (m_drain t) \<and> ln F \<noteq> None \<and> m_delivered_line e = [sink_line (the (ln F))] \<and> mpsc_at cs ln F t
      | N_Free _ \<Rightarrow> \<not> emitted (m_drain t) \<and> m_delivered_line e = [] \<and> mpsc_at cs ln (Suc F) t
      | _ \<Rightarrow> emitted (m_drain t) = emitted (m_drain s) \<and> m_delivered_line e = [] \<and> mpsc_at cs ln F t)"

lemma drain_pc_at:
  assumes "mpsc_at cs ln F s" and "md_ok (cells s) ln F (dequeue_pos t) (m_drain t)"
    and "cells t = cells s" and "cell_mask t = cell_mask s" and "enqueue_pos t = enqueue_pos s" and "producers t = producers s"
  shows "mpsc_at cs ln F t"
  using assms by (simp add: mpsc_at_def)

text \<open>Freeing a cell: it is ready for the position one capacity further on.\<close>

lemma drain_free:
  assumes at: "mpsc_at cs ln F s" and free: "m_drain s = N_Free pos" and small: "length cs < 2 ^ 62"
  shows "mpsc_at cs ln (Suc F)
    (s\<lparr>cells := put (cells s) (unat pos) (\<lambda>c. c\<lparr>sequence := pos + cell_mask s + 1\<rparr>), m_drain := N_Pos\<rparr>)"
proof -
  let ?bs = "cells s"
  let ?bs' = "put ?bs (unat pos) (\<lambda>c. c\<lparr>sequence := pos + cell_mask s + 1\<rparr>)" and ?n = "length ?bs"
  note a = mpsc_atD [OF at] and c = cells_okD [OF mpsc_atD(1) [OF at]]
  from a(6) free have pos: "pos = of_nat F" and dq: "dequeue_pos s = of_nat (Suc F)" and pub: "ln F \<noteq> None"
    by (simp_all add: md_ok_def)
  have F: "F < length cs" using lines_okD(1) [OF a(3), of F] pub by auto
  then have "F < 2 ^ 62" using small by linarith
  then have "F < 2 ^ 64" by simp
  then have u: "unat pos = F" unfolding pos by (rule unat_of_nat_small)
  have "F + ?n < 2 ^ 62 + 2 ^ 61" using \<open>F < 2 ^ 62\<close> c(2) by (rule add_less_le_mono)
  then have small': "F + ?n < 2 ^ 64" by simp
  have "cell_mask s = of_nat (unat (cell_mask s))" by simp
  then have "pos + cell_mask s + 1 = of_nat (F + (?n - 1) + 1)" unfolding pos c(5) by simp
  also have "F + (?n - 1) + 1 = F + ?n" using c(1) by simp
  finally have new: "unat (pos + cell_mask s + 1) = F + ?n"
    using unat_of_nat_small [OF small'] by simp
  have here: "cell_at ?bs' j = (cell_at ?bs F)\<lparr>sequence := pos + cell_mask s + 1\<rparr>" if "j mod ?n = F mod ?n" for j
    using that by (simp add: cell_at_put [OF c(3)] u)
  have other: "cell_at ?bs' j = cell_at ?bs j" if "j mod ?n \<noteq> F mod ?n" for j
    using that by (simp add: cell_at_put [OF c(3)] u)
  have diff: "j mod ?n \<noteq> F mod ?n" if "F < j" "j < F + ?n" for j
  proof -
    have "j - F < ?n" using that by linarith
    then show ?thesis using slots_distinct [of F ?n j] that by auto
  qed
  have grow: "unat (sequence (cell_at ?bs j)) \<le> unat (sequence (cell_at ?bs' j))" for j
  proof (cases "j mod ?n = F mod ?n")
    case True
    then have "cell_at ?bs j = cell_at ?bs F" by (simp add: cell_at_def)
    moreover have "unat (sequence (cell_at ?bs F)) \<le> Suc F" using a(2) c(3) by (simp add: seqs_ok_def)
    ultimately show ?thesis using here [OF True] new c(1) by simp
  next
    case False
    then show ?thesis using other by simp
  qed
  have "seqs_ok ?bs' ln (Suc F)"
    unfolding seqs_ok_def
  proof (intro allI impI)
    fix j assume j: "Suc F \<le> j" "j < Suc F + length ?bs'"
    show "unat (sequence (cell_at ?bs' j)) = (if ln j = None then j else Suc j)"
    proof (cases "j = F + ?n")
      case True
      then have "ln j = None" using lines_okD(1) [OF a(3), of j] lines_okD(7) [OF a(3)] by (cases "ln j") auto
      with True new here [of j] show ?thesis by simp
    next
      case False
      then have "F < j" "j < F + ?n" using j by simp_all
      with other [OF diff] a(2) show ?thesis by (simp add: seqs_ok_def)
    qed
  qed
  moreover have "lines_ok ?bs' cs ln (Suc F)"
  proof -
    have "cell_holds (cell_at ?bs' j) l" if "Suc F \<le> j" "ln j = Some l" for j l
    proof -
      have jn: "j < F + ?n" using lines_okD(1,5) [OF a(3)] that(2) by blast
      have "F < j" using that(1) by simp
      from other [OF diff [OF this jn]] have "cell_at ?bs' j = cell_at ?bs j" .
      moreover have "cell_holds (cell_at ?bs j) l" by (rule lines_okD(3) [OF a(3)]) (use that in simp_all)
      ultimately show ?thesis by simp
    qed
    then show ?thesis using a(3) F pub by (auto simp: lines_ok_def less_Suc_eq)
  qed
  moreover have "mp_ok ?bs' cs ln q (producers s q)" for q
  proof (rule mp_ok_frame [OF a(5)])
    fix pos' assume q: "owned (producers s q) = Some pos'"
    note w = owned_window [OF at q]
    have "unat pos' \<noteq> F" using w(4) pub by metis
    then have "F < unat pos'" using w(1) by simp
    have "cell_at ?bs' (unat pos') = cell_at ?bs (unat pos')"
      by (rule other, rule diff) (use w(2) \<open>F < unat pos'\<close> in simp_all)
    with w(4) show "ln (unat pos') = None \<and> cell_at ?bs' (unat pos') = cell_at ?bs (unat pos')" by simp
  qed (simp_all add: grow)
  moreover have "cells_ok ?bs' (cell_mask s)" by (rule cells_ok_put [OF a(1)]) (simp add: c(4))
  moreover have "md_ok ?bs' ln (Suc F) (dequeue_pos s) N_Pos" using dq by (simp add: md_ok_def)
  ultimately show ?thesis using a(4) by (simp add: mpsc_at_def)
qed

lemma Mpsc_DrainLoop_step_inv:
  assumes at: "mpsc_at cs ln F s" and step: "Mpsc_DrainLoop_step v s = Some (e, t)" and small: "length cs < 2 ^ 62"
  shows "md_result cs ln F s e t"
proof -
  note a = mpsc_atD [OF at] and ok = mpsc_atD(1) [OF at] and md = mpsc_atD(6) [OF at]
  have "F \<le> length cs" by (rule lines_okD(6) [OF a(3)])
  then have F62: "F < 2 ^ 62" using small by (rule le_less_trans)
  then have uF: "unat (of_nat F :: u64) = F" by (intro unat_of_nat_small) simp
  have get: "cell_of s (of_nat F) = Some (cell_at (cells s) F)" using cell_of_pos [OF ok, of "of_nat F"] by (simp only: uF)
  have read: "read_cell s (of_nat F) pc = (M_Drain_Step, s\<lparr>m_drain := pc (cell_at (cells s) F)\<rparr>)" for pc
    by (simp add: read_cell_def get)
  have line: "cell_holds (cell_at (cells s) F) (the (ln F))" if "ln F \<noteq> None"
    using lines_okD(3) [OF a(3)] that by auto
  have pc: "mpsc_at cs ln F (s\<lparr>m_drain := q\<rparr>)" if "md_ok (cells s) ln F (dequeue_pos s) q" for q
    by (rule drain_pc_at [OF at]) (simp_all add: that)
  show ?thesis
  proof (cases "m_drain s")
    case (N_Seq pos)
    with md have pos: "pos = of_nat F" "dequeue_pos s = of_nat F" by (simp_all add: md_ok_def)
    from step N_Seq have le: "v \<le> sequence (cell_at (cells s) F)"
      by (auto simp: Mpsc_DrainLoop_step_def pos get split: if_splits)
    then have v: "unat v \<le> unat (sequence (cell_at (cells s) F))" by (simp add: word_le_nat_alt)
    then have v63: "unat v < 2 ^ 63" using seq_bound [OF a(2,3) ok small] by (rule le_less_trans)
    have u1: "unat (of_nat F + 1 :: u64) = Suc F"
      using unat_of_nat_small [of "Suc F"] F62 by (simp add: add.commute)
    then have "unat (of_nat F + 1 :: u64) < 2 ^ 63" using F62 by simp
    from signed_diff_zero [OF v63 this] obtain d where
      d: "signed_diff v (of_nat F + 1) = Some d" "d = 0 \<longleftrightarrow> unat v = Suc F" by (auto simp only: u1)
    from step N_Seq le d(1) have t: "e = M_Drain_Step" "t = s\<lparr>m_drain := (if d = 0 then N_Time pos else N_Running)\<rparr>"
      by (auto simp: Mpsc_DrainLoop_step_def pos get)
    have "F < F + length (cells s)" using cells_okD(3) [OF ok] by simp
    then have "unat (sequence (cell_at (cells s) F)) = (if ln F = None then F else Suc F)"
      using a(2) unfolding seqs_ok_def by blast
    then have "ln F \<noteq> None" if "d = 0" using that d(2) v by (auto split: if_splits)
    then have "md_ok (cells s) ln F (dequeue_pos s) (if d = 0 then N_Time pos else N_Running)"
      using pos by (simp add: md_ok_def)
    from pc [OF this] t N_Seq show ?thesis by (simp add: md_result_def)
  next
    case (N_Time pos)
    with md step line pc [of "N_Level pos (cell_time (cell_at (cells s) F))"] show ?thesis
      by (auto simp: Mpsc_DrainLoop_step_def md_ok_def read md_result_def cell_holds_def split: prod.splits)
  next
    case (N_Level pos time)
    with md step line pc [of "N_Len pos time (cell_level (cell_at (cells s) F))"] show ?thesis
      by (auto simp: Mpsc_DrainLoop_step_def md_ok_def read md_result_def cell_holds_def split: prod.splits)
  next
    case (N_Len pos time level)
    with md step line pc [of "N_Msg pos time level (cell_len (cell_at (cells s) F))"] show ?thesis
      by (auto simp: Mpsc_DrainLoop_step_def md_ok_def read md_result_def cell_holds_def split: prod.splits)
  next
    case (N_Msg pos time level len)
    with md obtain tm lv tx where l: "ln F = Some (tm, lv, tx)" by (auto simp: md_ok_def)
    with md N_Msg line have p: "pos = of_nat F" "dequeue_pos s = of_nat F" "time = tm" "level = lv" "unat len = length tx"
      "take (length tx) (cell_msg (cell_at (cells s) F)) = tx"
      by (simp_all add: md_ok_def cell_holds_def)
    from p(6) have "length tx \<le> length (cell_msg (cell_at (cells s) F))" by (metis length_take min.cobounded1)
    with step N_Msg p have "e = M_Sink_Log tm (ToSpdlogLevel lv) tx" "t = s\<lparr>m_drain := N_Advance (of_nat F)\<rparr>"
      by (auto simp: Mpsc_DrainLoop_step_def emit_cell_def get)
    with pc [of "N_Advance (of_nat F)"] N_Msg l p show ?thesis
      by (simp add: md_result_def md_ok_def sink_line_def)
  next
    case (N_Advance pos)
    with step md have t: "e = M_Drain_Step" "t = s\<lparr>dequeue_pos := of_nat (Suc F), m_drain := N_Free (of_nat F)\<rparr>" "ln F \<noteq> None"
      by (auto simp: Mpsc_DrainLoop_step_def md_ok_def)
    have "mpsc_at cs ln F t"
      by (rule drain_pc_at [OF at]) (use t in \<open>simp_all add: md_ok_def\<close>)
    with t N_Advance show ?thesis by (simp add: md_result_def)
  next
    case (N_Free pos)
    with step drain_free [OF at N_Free small] show ?thesis
      by (auto simp: Mpsc_DrainLoop_step_def set_cell_pos [OF ok] md_result_def)
  next
    case N_Pos
    with step md pc [of "N_Seq (of_nat F)"] show ?thesis
      by (auto simp: Mpsc_DrainLoop_step_def md_result_def md_ok_def)
  next
    case N_Running
    with step md pc [of N_Flush] pc [of N_Sleep] show ?thesis
      by (cases "m_running s \<or> v \<noteq> 0") (auto simp: Mpsc_DrainLoop_step_def md_result_def md_ok_def)
  next
    case N_Sleep
    with step md pc [of N_Pos] show ?thesis by (auto simp: Mpsc_DrainLoop_step_def md_result_def md_ok_def)
  next
    case N_Flush
    with step md pc [of N_Done] show ?thesis by (auto simp: Mpsc_DrainLoop_step_def md_result_def md_ok_def)
  qed (use step in \<open>simp add: Mpsc_DrainLoop_step_def\<close>)
qed

end
