(* ===== verification/Mpsc_Invariants.thy ===== *)
theory Mpsc_Invariants
  imports Mpsc_Logger
begin

text \<open>
  What the steps of \<open>MpscRtLogger\<close> keep, for every interleaving of producers, drain thread,
  flusher, level changes and destruction: the ring invariant, one outcome per call, and that a
  claimed position without a line is still being written.
\<close>

section \<open>The ring invariant on every run\<close>

text \<open>
  Construction with a requested capacity between 2 and \<open>2 ^ 61\<close>. Capacity 1 breaks the
  algorithm (\<open>mpsc_capacity_one_loses_records\<close> in \<open>Mpsc_Properties\<close>), and beyond \<open>2 ^ 61\<close> sequence numbers could pass
  \<open>2 ^ 63\<close>.
\<close>

definition mpsc_start :: "mpsc_logger \<Rightarrow> bool" where
  "mpsc_start s \<longleftrightarrow> (\<exists>env n garbage. MpscRtLogger env n garbage = Some s \<and> 2 \<le> n \<and> n \<le> 2 ^ 61)"

lemma ring_size_between:
  assumes "2 \<le> n" and "n \<le> 2 ^ 61" and "ring_size n = Some cap"
  shows "\<exists>k. 1 \<le> k \<and> k \<le> 61 \<and> cap = 2 ^ k"
proof -
  have "n \<le> 2 ^ 63" by (rule order_trans [OF assms(2)]) simp
  with round_up_pow2 [of 0 n] assms(3) obtain j where
    j: "j < 64" "cap = 2 ^ j" "unat n \<le> 2 ^ j" "j = 0 \<or> 2 ^ (j - 1) < unat n"
    by (auto simp: ring_size_def)
  have n: "2 \<le> unat n" "unat n \<le> 2 ^ 61" using assms(1,2) by (simp_all add: word_le_nat_alt)
  from n(1) j(3) have "j \<noteq> 0" by (cases j) simp_all
  with j(4) n(2) have "(2 :: nat) ^ (j - 1) < 2 ^ 61" by linarith
  then have "j - 1 < 61" by (rule power_less_imp_less_exp [rotated]) simp
  with \<open>j \<noteq> 0\<close> j(2) show ?thesis by (intro exI [of _ j]) simp
qed

lemma mpsc_start_fields:
  assumes "mpsc_start s"
  shows "producers s = (\<lambda>_. M_Idle) \<and> m_dropped s = 0 \<and> enqueue_pos s = 0 \<and> dequeue_pos s = 0
    \<and> m_flusher s = F_Idle \<and> m_known s = 0 \<and> m_running s \<and> m_owner s = O_Alive \<and> m_drain s = N_Pos"
  using assms by (auto simp: mpsc_start_def MpscRtLogger_def split: option.splits if_splits)

lemma mpsc_inv_start:
  assumes "mpsc_start s"
  shows "mpsc_inv [] s"
proof -
  from assms obtain env n garbage where "MpscRtLogger env n garbage = Some s" and n: "2 \<le> n" "n \<le> 2 ^ 61"
    by (auto simp: mpsc_start_def)
  then obtain cap where cap: "ring_size n = Some cap" "length garbage = unat cap"
    "list_all (\<lambda>m. length m = kMaxMsgLen) garbage"
    and s: "cells s = map (\<lambda>i. new_cell i (garbage ! i)) [0 ..< length garbage]" "cell_mask s = cap - 1"
    by (auto simp: MpscRtLogger_def split: option.splits if_splits)
  from ring_size_between [OF n cap(1)] obtain k where k: "1 \<le> k" "k \<le> 61" "cap = 2 ^ k" by blast
  then have len: "length garbage = 2 ^ k" using cap(2) by (simp add: unat_pow2)
  have "cells_ok (cells s) (cell_mask s)"
    using k len cap(3) by (auto simp: cells_ok_def s new_cell_def list_all_length)
  moreover have "seqs_ok (cells s) Map.empty 0"
    unfolding seqs_ok_def
  proof (intro allI impI)
    fix i assume "i < 0 + length (cells s)"
    then have i: "i < length garbage" by (simp add: s)
    moreover have "(2 :: nat) ^ k \<le> 2 ^ 61" using k(2) by (rule power_increasing) simp
    ultimately have "i < 2 ^ 64" by (simp add: len)
    then show "unat (sequence (cell_at (cells s) i)) = (if Map.empty i = None then i else Suc i)"
      using i by (simp add: s cell_at_def new_cell_def unat_of_nat_small)
  qed
  moreover have "lines_ok (cells s) [] Map.empty 0" by (simp add: lines_ok_def)
  ultimately show ?thesis
    using mpsc_start_fields [OF assms] by (simp add: mpsc_inv_def mpsc_at_def m_freed_def mp_ok_def owned_def md_ok_def)
qed

lemma add_line_keeps:
  assumes "mpsc_at cs ln F s" and "Mpsc_Log_step p v ok now s = Some (e, t)" and "ln i \<noteq> None"
  shows "add_line ln e i = ln i"
proof (cases e)
  case (M_Published q pos time level txt0)
  with assms(2) have "owned (producers s p) = Some pos"
    by (cases "producers s p")
      (auto simp: Mpsc_Log_step_def with_cell_def format_cell_def owned_def split: if_splits option.splits prod.splits)
  from owned_window(4) [OF assms(1) this] assms(3) M_Published show ?thesis by auto
qed simp_all

lemma mpsc_at_frame:
  assumes "mpsc_at cs ln F s" and "cells t = cells s" "cell_mask t = cell_mask s" "enqueue_pos t = enqueue_pos s"
    "dequeue_pos t = dequeue_pos s" "m_drain t = m_drain s"
    and "\<And>q. producers t q = producers s q \<or> (\<exists>l out. producers t q = M_Filter l out)"
  shows "mpsc_at cs ln F t"
proof -
  have "mp_ok (cells s) cs ln q (producers t q)" for q
    using assms(7) [of q] mpsc_atD(5) [OF assms(1), of q] by (auto simp: mp_ok_def owned_def)
  with assms show ?thesis by (simp add: mpsc_at_def)
qed

lemma mpsc_invI:
  assumes "length (claims (es @ [e])) < 2 ^ 62 \<Longrightarrow>
      mpsc_at (claims (es @ [e])) (line_at (es @ [e])) (m_freed (m_drain t) (length (m_delivered (es @ [e])))) t
    \<and> (emitted (m_drain t) \<longrightarrow> m_delivered (es @ [e]) \<noteq> [])
    \<and> (\<forall>i<length (m_delivered (es @ [e])). line_at (es @ [e]) i \<noteq> None
         \<and> m_delivered (es @ [e]) ! i = sink_line (the (line_at (es @ [e]) i)))
    \<and> M_Undefined \<notin> set (es @ [e])"
  shows "mpsc_inv (es @ [e]) t"
  using assms unfolding mpsc_inv_def by blast

lemma mpsc_invD:
  assumes "mpsc_inv es s" and "length (claims es) < 2 ^ 62"
  shows "mpsc_at (claims es) (line_at es) (m_freed (m_drain s) (length (m_delivered es))) s"
    and "emitted (m_drain s) \<Longrightarrow> m_delivered es \<noteq> []"
    and "i < length (m_delivered es) \<Longrightarrow> line_at es i \<noteq> None"
    and "i < length (m_delivered es) \<Longrightarrow> m_delivered es ! i = sink_line (the (line_at es i))"
    and "M_Undefined \<notin> set es"
  using assms unfolding mpsc_inv_def by blast+

lemma mpsc_inv_quiet:
  assumes inv: "mpsc_inv es s" and "claim_of e = []" "m_delivered_line e = []" "\<And>ln. add_line ln e = ln" "e \<noteq> M_Undefined"
    and "cells t = cells s" "cell_mask t = cell_mask s" "enqueue_pos t = enqueue_pos s"
    "dequeue_pos t = dequeue_pos s" "m_drain t = m_drain s"
    "\<And>q. producers t q = producers s q \<or> (\<exists>l out. producers t q = M_Filter l out)"
  shows "mpsc_inv (es @ [e]) t"
proof (rule mpsc_invI)
  assume "length (claims (es @ [e])) < 2 ^ 62"
  then have small: "length (claims es) < 2 ^ 62" by simp
  note i = mpsc_invD [OF inv small]
  from mpsc_at_frame [OF i(1) assms(6-11)] i(2-) assms(2-5,10)
  show "mpsc_at (claims (es @ [e])) (line_at (es @ [e])) (m_freed (m_drain t) (length (m_delivered (es @ [e])))) t
    \<and> (emitted (m_drain t) \<longrightarrow> m_delivered (es @ [e]) \<noteq> [])
    \<and> (\<forall>i<length (m_delivered (es @ [e])). line_at (es @ [e]) i \<noteq> None
         \<and> m_delivered (es @ [e]) ! i = sink_line (the (line_at (es @ [e]) i)))
    \<and> M_Undefined \<notin> set (es @ [e])"
    by simp
qed

lemma mpsc_inv_log:
  assumes inv: "mpsc_inv es s" and step: "Mpsc_Log_step p v ok now s = Some (e, t)"
  shows "mpsc_inv (es @ [e]) t"
proof (rule mpsc_invI)
  assume "length (claims (es @ [e])) < 2 ^ 62"
  then have small: "length (claims es) < 2 ^ 62" by simp
  note i = mpsc_invD [OF inv small]
  have r: "e \<noteq> M_Undefined" "m_delivered_line e = []" "m_drain t = m_drain s"
    "mpsc_at (claims es @ claim_of e) (add_line (line_at es) e) (m_freed (m_drain s) (length (m_delivered es))) t"
    using Mpsc_Log_step_inv [OF i(1) step small] by (simp_all add: mp_result_def)
  from add_line_keeps [OF i(1) step] i(3) have keep: "add_line (line_at es) e j = line_at es j" if "j < length (m_delivered es)" for j
    using that by blast
  from r i(2-) keep
  show "mpsc_at (claims (es @ [e])) (line_at (es @ [e])) (m_freed (m_drain t) (length (m_delivered (es @ [e])))) t
    \<and> (emitted (m_drain t) \<longrightarrow> m_delivered (es @ [e]) \<noteq> [])
    \<and> (\<forall>i<length (m_delivered (es @ [e])). line_at (es @ [e]) i \<noteq> None
         \<and> m_delivered (es @ [e]) ! i = sink_line (the (line_at (es @ [e]) i)))
    \<and> M_Undefined \<notin> set (es @ [e])"
    by simp
qed

lemma mpsc_inv_drain:
  assumes inv: "mpsc_inv es s" and step: "Mpsc_DrainLoop_step v s = Some (e, t)"
  shows "mpsc_inv (es @ [e]) t"
proof (rule mpsc_invI)
  assume "length (claims (es @ [e])) < 2 ^ 62"
  then have small: "length (claims es) < 2 ^ 62" by simp
  note i = mpsc_invD [OF inv small]
  let ?n = "length (m_delivered es)"
  note r = Mpsc_DrainLoop_step_inv [OF i(1) step small, unfolded md_result_def]
  have e: "e \<noteq> M_Undefined" "claim_of e = []" "add_line (line_at es) e = line_at es" using r by simp_all
  have "mpsc_at (claims es) (line_at es) (m_freed (m_drain t) (length (m_delivered (es @ [e])))) t
    \<and> (emitted (m_drain t) \<longrightarrow> m_delivered (es @ [e]) \<noteq> [])
    \<and> (m_delivered_line e = [] \<or> line_at es ?n \<noteq> None \<and> m_delivered_line e = [sink_line (the (line_at es ?n))])"
    using r i(2) by (cases "m_drain s") (auto simp: m_freed_def)
  moreover have "\<forall>j<length (m_delivered (es @ [e])). line_at es j \<noteq> None
      \<and> m_delivered (es @ [e]) ! j = sink_line (the (line_at es j))"
    using calculation i(3,4) by (auto simp: nth_append less_Suc_eq)
  ultimately show "mpsc_at (claims (es @ [e])) (line_at (es @ [e])) (m_freed (m_drain t) (length (m_delivered (es @ [e])))) t
    \<and> (emitted (m_drain t) \<longrightarrow> m_delivered (es @ [e]) \<noteq> [])
    \<and> (\<forall>i<length (m_delivered (es @ [e])). line_at (es @ [e]) i \<noteq> None
         \<and> m_delivered (es @ [e]) ! i = sink_line (the (line_at (es @ [e]) i)))
    \<and> M_Undefined \<notin> set (es @ [e])"
    using e i(5) by simp
qed

lemma mpsc_inv_step:
  assumes inv: "mpsc_inv es s" and "mpsc_step s e t"
  shows "mpsc_inv (es @ [e]) t"
  using assms(2)
proof cases
  case (m_log p v ok now)
  with inv show ?thesis by (blast intro: mpsc_inv_log)
next
  case (m_drain v)
  with inv show ?thesis by (blast intro: mpsc_inv_drain)
next
  case (m_flush v)
  then show ?thesis
    by (intro mpsc_inv_quiet [OF inv]) (auto simp: Mpsc_Flush_step_def split: flush_pc.splits if_splits)
qed (rule mpsc_inv_quiet [OF inv]; simp add: Mpsc_SetLevel_def)+

interpretation mpsc: trace_invariant mpsc_step mpsc_start mpsc_inv
  by unfold_locales (auto intro: mpsc_inv_start mpsc_inv_step)

section \<open>Accounting for every call\<close>

fun m_call_of :: "nat \<Rightarrow> mpsc_event \<Rightarrow> (LogLevel \<times> fmt_outcome) list" where
  "m_call_of p (M_Call q level out) = (if q = p then [(level, out)] else [])"
| "m_call_of p _ = []"

fun m_outcome_of :: "nat \<Rightarrow> mpsc_event \<Rightarrow> mpsc_event list" where
  "m_outcome_of p (M_Filtered q) = (if q = p then [M_Filtered q] else [])"
| "m_outcome_of p (M_Dropped q) = (if q = p then [M_Dropped q] else [])"
| "m_outcome_of p (M_Published q pos time level text) = (if q = p then [M_Published q pos time level text] else [])"
| "m_outcome_of p _ = []"

fun m_line_of :: "mpsc_event \<Rightarrow> (LogLevel \<times> string) list" where
  "m_line_of (M_Published p pos time level text) = [(level, text)]"
| "m_line_of _ = []"

fun m_is_drop :: "mpsc_event \<Rightarrow> bool" where
  "m_is_drop (M_Dropped _) \<longleftrightarrow> True"
| "m_is_drop _ \<longleftrightarrow> False"

definition m_calls :: "nat \<Rightarrow> mpsc_event list \<Rightarrow> (LogLevel \<times> fmt_outcome) list" where
  "m_calls p es = concat (map (m_call_of p) es)"

definition m_outcomes :: "nat \<Rightarrow> mpsc_event list \<Rightarrow> mpsc_event list" where
  "m_outcomes p es = concat (map (m_outcome_of p) es)"

definition m_lines :: "mpsc_event list \<Rightarrow> (LogLevel \<times> string) list" where
  "m_lines es = concat (map m_line_of es)"

definition claims_by :: "nat \<Rightarrow> mpsc_event list \<Rightarrow> (LogLevel \<times> string) list" where
  "claims_by p es = map snd (filter (\<lambda>c. fst c = p) (claims es))"

lemma m_history_simps [simp]:
  "m_calls p [] = []" "m_calls p (es @ fs) = m_calls p es @ m_calls p fs" "m_calls p (e # es) = m_call_of p e @ m_calls p es"
  "m_outcomes p [] = []" "m_outcomes p (es @ fs) = m_outcomes p es @ m_outcomes p fs"
  "m_outcomes p (e # es) = m_outcome_of p e @ m_outcomes p es"
  "m_lines [] = []" "m_lines (es @ fs) = m_lines es @ m_lines fs" "m_lines (e # es) = m_line_of e @ m_lines es"
  "claims_by p [] = []" "claims_by p (es @ fs) = claims_by p es @ claims_by p fs"
  by (simp_all add: m_calls_def m_outcomes_def m_lines_def claims_by_def)

definition m_outcome_matches :: "LogLevel \<times> fmt_outcome \<Rightarrow> mpsc_event \<Rightarrow> bool" where
  "m_outcome_matches c e \<longleftrightarrow> (\<exists>p. e = M_Filtered p) \<or> (\<exists>p. e = M_Dropped p)
     \<or> (\<exists>p pos time. e = M_Published p pos time (fst c) (slot_text kMaxMsgLen (snd c)))"

text \<open>The line a producer has claimed a cell for and not yet published.\<close>

definition m_pending :: "mp_pc \<Rightarrow> (LogLevel \<times> string) list" where
  "m_pending pc = (case (owned pc, pc_call pc) of (Some _, Some (level, out)) \<Rightarrow> [(level, slot_text kMaxMsgLen out)] | _ \<Rightarrow> [])"

definition m_account :: "nat \<Rightarrow> mpsc_event list \<Rightarrow> mpsc_logger \<Rightarrow> bool" where
  "m_account p es s \<longleftrightarrow>
     (if producers s p = M_Idle then list_all2 m_outcome_matches (m_calls p es) (m_outcomes p es)
      else \<exists>cs c. m_calls p es = cs @ [c] \<and> (\<forall>c'. pc_call (producers s p) = Some c' \<longrightarrow> c' = c)
        \<and> list_all2 m_outcome_matches cs (m_outcomes p es))
     \<and> claims_by p es = m_lines (m_outcomes p es) @ m_pending (producers s p)
     \<and> m_dropped s = of_nat (length (filter m_is_drop es))"

lemmas m_pc_simps = owned_def pc_call_def m_pending_def

lemma m_account_same:
  "m_account p es s \<Longrightarrow> producers t p = producers s p \<Longrightarrow> m_dropped t = m_dropped s + of_bool (m_is_drop e) \<Longrightarrow>
     m_call_of p e = [] \<Longrightarrow> m_outcome_of p e = [] \<Longrightarrow> claims_by p [e] = [] \<Longrightarrow> m_account p (es @ [e]) t"
  by (auto simp: m_account_def)

lemma m_account_call:
  "m_account p es s \<Longrightarrow> producers s q = M_Idle \<Longrightarrow> m_account p (es @ [M_Call q l out]) (set_pc q (M_Filter l out) s)"
  by (auto simp: m_account_def m_pc_simps claims_by_def)

text \<open>A store to a cell changes nothing but the cells, and only within range.\<close>

lemma with_cell_cases:
  obtains "with_cell p s pos f pc e = (M_Undefined, s)"
  | bs where "with_cell p s pos f pc e = (e, set_pc p pc (s\<lparr>cells := bs\<rparr>))"
  by (cases "cell_of s pos"; cases "set_cell s pos f") (auto simp: with_cell_def set_cell_def)

lemma format_cell_cases:
  obtains "format_cell p s level out pos now = (M_Undefined, s)"
  | bs len where "format_cell p s level out pos now = (M_Step p, set_pc p (M_Len level out pos now len) (s\<lparr>cells := bs\<rparr>))"
proof (cases "cell_of s pos")
  case (Some c)
  show ?thesis
  proof (cases "FormatInto (cell_msg c) kMaxMsgLen out")
    case (Some r)
    obtain msg len where "r = (msg, len)" by (cases r)
    with Some \<open>cell_of s pos = Some c\<close> that show ?thesis
      by (cases rule: with_cell_cases [of p s pos "\<lambda>c. c\<lparr>cell_msg := msg\<rparr>" "M_Len level out pos now len" "M_Step p"])
        (simp_all add: format_cell_def)
  qed (use Some that in \<open>simp add: format_cell_def\<close>)
qed (use that in \<open>simp add: format_cell_def\<close>)

text \<open>A step of a call goes on with the call or ends it with an outcome.\<close>

lemma Mpsc_Log_step_progress:
  assumes step: "Mpsc_Log_step p v ok now s = Some (e, t)"
    and call: "pc_call (producers s p) = None \<or> pc_call (producers s p) = Some c"
  shows "(producers t p \<noteq> M_Idle \<and> m_outcome_of p e = [] \<and> m_dropped t = m_dropped s \<and> \<not> m_is_drop e \<and> m_call_of p e = []
        \<and> (pc_call (producers t p) = None \<or> pc_call (producers t p) = Some c)
        \<and> m_pending (producers s p) @ claims_by p [e] = m_pending (producers t p))
    \<or> (producers t p = M_Idle \<and> m_outcome_of p e = [e] \<and> m_call_of p e = [] \<and> m_outcome_matches c e \<and> claims_by p [e] = []
        \<and> m_pending (producers s p) = m_line_of e \<and> m_dropped t = m_dropped s + of_bool (m_is_drop e))"
proof (cases "producers s p")
  case (M_Time l out pos)
  with step call show ?thesis
    by (cases rule: with_cell_cases [of p s pos "\<lambda>c. c\<lparr>cell_time := now\<rparr>" "M_Level l out pos now" "M_Step p"])
      (auto simp: Mpsc_Log_step_def m_pc_simps claims_by_def)
next
  case (M_Level l out pos time)
  with step call show ?thesis
    by (cases rule: with_cell_cases [of p s pos "\<lambda>c. c\<lparr>cell_level := l\<rparr>" "M_Format l out pos time" "M_Step p"])
      (auto simp: Mpsc_Log_step_def m_pc_simps claims_by_def)
next
  case (M_Format l out pos time)
  with step call show ?thesis
    by (cases rule: format_cell_cases [of p s l out pos time]) (auto simp: Mpsc_Log_step_def m_pc_simps claims_by_def)
next
  case (M_Len l out pos time len)
  with step call show ?thesis
    by (cases rule: with_cell_cases [of p s pos "\<lambda>c. c\<lparr>cell_len := len\<rparr>" "M_Publish l out pos time" "M_Step p"])
      (auto simp: Mpsc_Log_step_def m_pc_simps claims_by_def)
next
  case (M_Publish l out pos time)
  with step call show ?thesis
    by (cases rule: with_cell_cases [of p s pos "\<lambda>c. c\<lparr>sequence := pos + 1\<rparr>" M_Idle
          "M_Published p pos time l (slot_text kMaxMsgLen out)"])
      (auto simp: Mpsc_Log_step_def m_pc_simps claims_by_def m_outcome_matches_def)
next
  case (M_Seq l out pos)
  from step M_Seq have "(e = M_Undefined \<and> t = s) \<or> (e = M_Step p \<and>
      (t = set_pc p (M_Cas l out pos) s \<or> t = set_pc p M_Drop s \<or> t = set_pc p (M_Load l out) s))"
    by (simp add: Mpsc_Log_step_def split: option.splits if_splits)
  with M_Seq call show ?thesis by (elim disjE conjE) (simp_all add: m_pc_simps claims_by_def)
next
  case (M_Cas l out pos)
  with step call show ?thesis
    by (auto simp: Mpsc_Log_step_def m_pc_simps m_outcome_matches_def claims_by_def split: if_splits)
qed (insert step call, auto simp: Mpsc_Log_step_def m_pc_simps m_outcome_matches_def claims_by_def split: if_splits)

lemma Mpsc_Log_step_other:
  assumes "Mpsc_Log_step q v ok now s = Some (e, t)" and "p \<noteq> q"
  shows "producers t p = producers s p \<and> m_call_of p e = [] \<and> m_outcome_of p e = [] \<and> claims_by p [e] = []
    \<and> m_dropped t = m_dropped s + of_bool (m_is_drop e)"
  using assms
  by (cases "producers s q")
    (auto simp: Mpsc_Log_step_def with_cell_def format_cell_def set_cell_def claims_by_def
      split: if_splits option.splits prod.splits)

lemma Mpsc_DrainLoop_step_frame:
  assumes "Mpsc_DrainLoop_step v s = Some (e, t)"
  shows "producers t = producers s \<and> m_dropped t = m_dropped s \<and> \<not> m_is_drop e \<and> m_call_of p e = [] \<and> m_outcome_of p e = []
    \<and> claim_of e = [] \<and> enqueue_pos t = enqueue_pos s \<and> m_running t = m_running s \<and> m_owner t = m_owner s
    \<and> m_flusher t = m_flusher s \<and> m_known t = m_known s \<and> m_min_level t = m_min_level s"
  using assms
  by (cases "m_drain s")
    (auto simp: Mpsc_DrainLoop_step_def read_cell_def emit_cell_def set_cell_def split: if_splits option.splits)

lemma Mpsc_Flush_step_frame:
  assumes "Mpsc_Flush_step v s = Some (e, t)"
  shows "producers t = producers s \<and> m_dropped t = m_dropped s \<and> \<not> m_is_drop e \<and> m_call_of p e = [] \<and> m_outcome_of p e = []
    \<and> claim_of e = [] \<and> enqueue_pos t = enqueue_pos s \<and> dequeue_pos t = dequeue_pos s \<and> m_known t = m_known s"
  using assms by (cases "m_flusher s") (auto simp: Mpsc_Flush_step_def split: if_splits)

lemma m_account_log:
  assumes inv: "m_account p es s" and step: "Mpsc_Log_step q v ok now s = Some (e, t)"
  shows "m_account p (es @ [e]) t"
proof (cases "p = q")
  case False
  with m_account_same [OF inv] Mpsc_Log_step_other [OF step False] show ?thesis by blast
next
  case True
  with step have busy: "producers s p \<noteq> M_Idle" by (auto simp: Mpsc_Log_step_def)
  with inv obtain cs c where c: "m_calls p es = cs @ [c]" "pc_call (producers s p) = None \<or> pc_call (producers s p) = Some c"
    "list_all2 m_outcome_matches cs (m_outcomes p es)"
    and d: "claims_by p es = m_lines (m_outcomes p es) @ m_pending (producers s p)"
      "m_dropped s = of_nat (length (filter m_is_drop es))"
    by (cases "pc_call (producers s p)") (auto simp: m_account_def simp del: split_paired_Ex)
  note pr = Mpsc_Log_step_progress [OF step [folded True] c(2)]
  have idle: "m_pending M_Idle = []" by (simp add: m_pc_simps)
  show ?thesis
  proof (cases "producers t p = M_Idle")
    case True
    with pr c d show ?thesis by (auto simp: m_account_def idle list_all2_appendI)
  next
    case False
    with pr c d show ?thesis by (auto simp: m_account_def)
  qed
qed

lemma m_account_step:
  assumes inv: "m_account p es s" and "mpsc_step s e t"
  shows "m_account p (es @ [e]) t"
  using assms(2)
proof cases
  case (m_log q v ok now)
  with inv show ?thesis by (blast intro: m_account_log)
next
  case (m_drain v)
  from m_account_same [OF inv] Mpsc_DrainLoop_step_frame [OF this, of p] show ?thesis by (simp add: claims_by_def)
next
  case (m_flush v)
  from m_account_same [OF inv] Mpsc_Flush_step_frame [OF this, of p] show ?thesis by (simp add: claims_by_def)
next
  case (m_call q l out)
  with inv show ?thesis by (simp add: m_account_call)
qed (rule m_account_same [OF inv]; simp add: Mpsc_SetLevel_def claims_by_def)+

interpretation mpsc_account: trace_invariant mpsc_step mpsc_start "m_account p" for p
proof
  show "mpsc_start s \<Longrightarrow> m_account p [] s" for s
    by (simp add: mpsc_start_fields m_account_def m_pc_simps)
qed (rule m_account_step)

section \<open>Claims without a line, and the running drain thread\<close>

text \<open>
  A claimed position that has no published line belongs to a producer that is still writing it;
  and the drain thread of a running logger has not left its loop.
\<close>

definition unpublished_owned :: "mpsc_event list \<Rightarrow> mpsc_logger \<Rightarrow> bool" where
  "unpublished_owned es s \<longleftrightarrow> (\<forall>i<length (claims es). line_at es i = None \<longrightarrow>
     (\<exists>p pos. owned (producers s p) = Some pos \<and> unat pos = i))"

definition mpsc_live_inv :: "mpsc_event list \<Rightarrow> mpsc_logger \<Rightarrow> bool" where
  "mpsc_live_inv es s \<longleftrightarrow> mpsc_inv es s \<and> (length (claims es) < 2 ^ 62 \<longrightarrow> unpublished_owned es s)
     \<and> (m_running s \<longrightarrow> m_drain s \<noteq> N_Flush \<and> m_drain s \<noteq> N_Done)"

text \<open>How a step of \<open>Log\<close> changes which position its producer owns.\<close>

lemma Mpsc_Log_step_owned:
  assumes "Mpsc_Log_step p v ok now s = Some (e, t)"
  shows "(owned (producers t p) = owned (producers s p) \<and> claim_of e = [] \<and> (\<forall>ln. add_line ln e = ln))
    \<or> (owned (producers s p) = None \<and> owned (producers t p) = Some (enqueue_pos s) \<and> length (claim_of e) = 1 \<and> (\<forall>ln. add_line ln e = ln))
    \<or> (\<exists>pos l. owned (producers s p) = Some pos \<and> claim_of e = [] \<and> (\<forall>ln. add_line ln e = ln(unat pos \<mapsto> l)))"
proof (cases "producers s p")
  case (M_Seq l out pos)
  from assms M_Seq have "(e = M_Undefined \<and> t = s) \<or> (e = M_Step p \<and>
      (t = set_pc p (M_Cas l out pos) s \<or> t = set_pc p M_Drop s \<or> t = set_pc p (M_Load l out) s))"
    by (simp add: Mpsc_Log_step_def split: option.splits if_splits)
  with M_Seq show ?thesis by (elim disjE conjE) (simp_all add: owned_def)
next
  case (M_Time l out pos)
  with assms show ?thesis
    by (cases rule: with_cell_cases [of p s pos "\<lambda>c. c\<lparr>cell_time := now\<rparr>" "M_Level l out pos now" "M_Step p"])
      (auto simp: Mpsc_Log_step_def owned_def)
next
  case (M_Level l out pos time)
  with assms show ?thesis
    by (cases rule: with_cell_cases [of p s pos "\<lambda>c. c\<lparr>cell_level := l\<rparr>" "M_Format l out pos time" "M_Step p"])
      (auto simp: Mpsc_Log_step_def owned_def)
next
  case (M_Format l out pos time)
  with assms show ?thesis
    by (cases rule: format_cell_cases [of p s l out pos time]) (auto simp: Mpsc_Log_step_def owned_def)
next
  case (M_Len l out pos time len)
  with assms show ?thesis
    by (cases rule: with_cell_cases [of p s pos "\<lambda>c. c\<lparr>cell_len := len\<rparr>" "M_Publish l out pos time" "M_Step p"])
      (auto simp: Mpsc_Log_step_def owned_def)
next
  case (M_Publish l out pos time)
  with assms have "claim_of e = [] \<and> ((\<forall>ln. add_line ln e = ln(unat pos \<mapsto> (time, l, slot_text kMaxMsgLen out)))
      \<or> ((\<forall>ln. add_line ln e = ln) \<and> t = s))"
    by (cases rule: with_cell_cases [of p s pos "\<lambda>c. c\<lparr>sequence := pos + 1\<rparr>" M_Idle
          "M_Published p pos time l (slot_text kMaxMsgLen out)"])
      (auto simp: Mpsc_Log_step_def)
  moreover have "owned (producers s p) = Some pos" using M_Publish by (simp add: owned_def)
  ultimately show ?thesis by blast
qed (insert assms, auto simp: Mpsc_Log_step_def owned_def split: if_splits)

lemma unpublished_owned_log:
  assumes inv: "mpsc_inv es s" and "unpublished_owned es s" and step: "Mpsc_Log_step p v ok now s = Some (e, t)"
    and small: "length (claims (es @ [e])) < 2 ^ 62"
  shows "unpublished_owned (es @ [e]) t"
proof -
  have small': "length (claims es) < 2 ^ 62" using small by simp
  have other: "producers t q = producers s q" if "q \<noteq> p" for q using Mpsc_Log_step_other [OF step that] by simp
  have "enqueue_pos s = of_nat (length (claims es))" using mpsc_invD(1) [OF inv small'] by (simp add: mpsc_at_def)
  moreover have "length (claims es) < 2 ^ 64" using small' by simp
  ultimately have enq: "unat (enqueue_pos s) = length (claims es)" by (simp only: unat_of_nat_small)
  have old: "\<exists>q pos. owned (producers s q) = Some pos \<and> unat pos = i" if "i < length (claims es)" "line_at es i = None" for i
    using assms(2) that by (simp add: unpublished_owned_def)
  have "\<exists>q pos. owned (producers t q) = Some pos \<and> unat pos = i"
    if i: "i < length (claims es @ claim_of e)" "add_line (line_at es) e i = None" for i
    using Mpsc_Log_step_owned [OF step]
  proof (elim disjE conjE exE)
    assume *: "owned (producers t p) = owned (producers s p)" "claim_of e = []" "\<forall>ln. add_line ln e = ln"
    with i old [of i] obtain q pos where "owned (producers s q) = Some pos" "unat pos = i" by auto
    with * other show ?thesis by (cases "q = p") (metis, metis)
  next
    assume *: "owned (producers s p) = None" "owned (producers t p) = Some (enqueue_pos s)" "length (claim_of e) = 1"
      "\<forall>ln. add_line ln e = ln"
    show ?thesis
    proof (cases "i < length (claims es)")
      case True
      with i * old [of i] obtain q pos where "owned (producers s q) = Some pos" "unat pos = i" by auto
      with * other show ?thesis by (cases "q = p") (simp, metis)
    next
      case False
      with i * have "i = length (claims es)" by simp
      with * enq show ?thesis by auto
    qed
  next
    fix pos l
    assume *: "owned (producers s p) = Some pos" "claim_of e = []" "\<forall>ln. add_line ln e = ln(unat pos \<mapsto> l)"
    then have "line_at es i = None" "i \<noteq> unat pos" using i by (auto split: if_splits)
    with i * old [of i] obtain q pos' where q: "owned (producers s q) = Some pos'" "unat pos' = i" by auto
    with * \<open>i \<noteq> unat pos\<close> have "q \<noteq> p" by auto
    with q other show ?thesis by metis
  qed
  then show ?thesis by (simp add: unpublished_owned_def)
qed

lemma unpublished_owned_quiet:
  assumes "unpublished_owned es s" and "claim_of e = []" "\<And>ln. add_line ln e = ln"
    and "\<And>q. producers t q = producers s q \<or> owned (producers s q) = None"
  shows "unpublished_owned (es @ [e]) t"
  unfolding unpublished_owned_def
proof (intro allI impI)
  fix i assume "i < length (claims (es @ [e]))" "line_at (es @ [e]) i = None"
  with assms(1-3) obtain q pos where "owned (producers s q) = Some pos" "unat pos = i"
    by (auto simp: unpublished_owned_def)
  with assms(4) [of q] show "\<exists>q pos. owned (producers t q) = Some pos \<and> unat pos = i" by (metis option.distinct(1))
qed

lemma Mpsc_Log_step_frame:
  assumes "Mpsc_Log_step p v ok now s = Some (e, t)"
  shows "m_drain t = m_drain s \<and> m_running t = m_running s \<and> m_owner t = m_owner s \<and> m_flusher t = m_flusher s
    \<and> m_known t = m_known s \<and> dequeue_pos t = dequeue_pos s \<and> m_min_level t = m_min_level s"
  using assms
  by (cases "producers s p")
    (auto simp: Mpsc_Log_step_def with_cell_def format_cell_def set_cell_def split: if_splits option.splits prod.splits)

lemma Mpsc_DrainLoop_step_running:
  assumes "Mpsc_DrainLoop_step v s = Some (e, t)" and "m_running s \<longrightarrow> m_drain s \<noteq> N_Flush \<and> m_drain s \<noteq> N_Done"
  shows "m_running t \<longrightarrow> m_drain t \<noteq> N_Flush \<and> m_drain t \<noteq> N_Done"
  using assms
  by (cases "m_drain s")
    (auto simp: Mpsc_DrainLoop_step_def read_cell_def emit_cell_def set_cell_def split: if_splits option.splits)

lemma Mpsc_DrainLoop_step_lines:
  "Mpsc_DrainLoop_step v s = Some (e, t) \<Longrightarrow> add_line ln e = ln"
  by (cases "m_drain s")
    (auto simp: Mpsc_DrainLoop_step_def read_cell_def emit_cell_def split: if_splits option.splits)

lemma mpsc_live_inv_step:
  assumes inv: "mpsc_live_inv es s" and step: "mpsc_step s e t"
  shows "mpsc_live_inv (es @ [e]) t"
proof -
  have i: "mpsc_inv es s" and r: "m_running s \<longrightarrow> m_drain s \<noteq> N_Flush \<and> m_drain s \<noteq> N_Done"
    and o: "length (claims es) < 2 ^ 62 \<Longrightarrow> unpublished_owned es s"
    using inv by (simp_all add: mpsc_live_inv_def)
  have "length (claims (es @ [e])) < 2 ^ 62 \<longrightarrow> unpublished_owned (es @ [e]) t"
  proof
    assume small: "length (claims (es @ [e])) < 2 ^ 62"
    then have o': "unpublished_owned es s" by (intro o) simp
    from step show "unpublished_owned (es @ [e]) t"
    proof cases
      case (m_log p v ok now)
      with i o' small show ?thesis by (intro unpublished_owned_log)
    next
      case (m_drain v)
      with Mpsc_DrainLoop_step_frame [OF this] Mpsc_DrainLoop_step_lines [OF this] show ?thesis
        by (intro unpublished_owned_quiet [OF o']) simp_all
    next
      case (m_flush v)
      then show ?thesis
        by (intro unpublished_owned_quiet [OF o']) (auto simp: Mpsc_Flush_step_def split: flush_pc.splits if_splits)
    qed (rule unpublished_owned_quiet [OF o']; simp add: Mpsc_SetLevel_def owned_def)+
  qed
  moreover have "m_running t \<longrightarrow> m_drain t \<noteq> N_Flush \<and> m_drain t \<noteq> N_Done"
    using step
  proof cases
    case (m_log p v ok now)
    with r Mpsc_Log_step_frame [OF this] show ?thesis by simp
  next
    case (m_drain v)
    then show ?thesis using r by (rule Mpsc_DrainLoop_step_running)
  next
    case (m_flush v)
    with r show ?thesis by (auto simp: Mpsc_Flush_step_def split: flush_pc.splits if_splits)
  qed (use r in \<open>simp_all add: Mpsc_SetLevel_def\<close>)
  ultimately show ?thesis using mpsc_inv_step [OF i step] by (simp add: mpsc_live_inv_def)
qed

interpretation mpsc_live: trace_invariant mpsc_step mpsc_start mpsc_live_inv
proof
  show "mpsc_start s \<Longrightarrow> mpsc_live_inv [] s" for s
    by (simp add: mpsc_live_inv_def mpsc_inv_start unpublished_owned_def mpsc_start_fields)
qed (rule mpsc_live_inv_step)

end
