(* ===== verification/Mpsc_Properties.thy ===== *)
theory Mpsc_Properties
  imports Mpsc_Invariants
begin

text \<open>
  \<open>Flush\<close> and the progress of the drain thread of \<open>MpscRtLogger\<close>, an executable replay of
  schedules, and the properties of the multi-producer logger, together with the runs that show
  what goes wrong outside their hypotheses.
\<close>

section \<open>Flush\<close>

fun m_known_after :: "u64 \<Rightarrow> mpsc_event \<Rightarrow> u64" where
  "m_known_after v (M_Flush_Call known) = known"
| "m_known_after v _ = v"

definition m_flush_known :: "mpsc_event list \<Rightarrow> u64" where
  "m_flush_known es = foldl m_known_after 0 es"

lemma m_flush_known_simps [simp]:
  "m_flush_known [] = 0" "m_flush_known (es @ [e]) = m_known_after (m_flush_known es) e"
  by (simp_all add: m_flush_known_def)

definition m_flush_ok :: "mpsc_logger \<Rightarrow> bool" where
  "m_flush_ok s \<longleftrightarrow> (case m_flusher s of
     F_Head pos \<Rightarrow> pos \<le> dequeue_pos s
   | F_Sink pos \<Rightarrow> pos \<le> dequeue_pos s \<and> m_known s \<le> pos
   | _ \<Rightarrow> True)"

definition m_flush_inv :: "mpsc_event list \<Rightarrow> mpsc_logger \<Rightarrow> bool" where
  "m_flush_inv es s \<longleftrightarrow> mpsc_inv es s \<and> m_known s = m_flush_known es
     \<and> (length (claims es) < 2 ^ 62 \<longrightarrow> m_flush_ok s)"

lemma m_known_after_id:
  "Mpsc_Log_step p v ok now s = Some (e, t) \<Longrightarrow> m_known_after k e = k"
  "Mpsc_DrainLoop_step v s = Some (e, t) \<Longrightarrow> m_known_after k e = k"
  "Mpsc_Flush_step v s = Some (e, t) \<Longrightarrow> m_known_after k e = k"
proof -
  show "Mpsc_Log_step p v ok now s = Some (e, t) \<Longrightarrow> m_known_after k e = k"
    by (cases "producers s p")
      (auto simp: Mpsc_Log_step_def with_cell_def format_cell_def split: if_splits option.splits prod.splits)
  show "Mpsc_DrainLoop_step v s = Some (e, t) \<Longrightarrow> m_known_after k e = k"
    by (cases "m_drain s")
      (auto simp: Mpsc_DrainLoop_step_def read_cell_def emit_cell_def split: if_splits option.splits)
  show "Mpsc_Flush_step v s = Some (e, t) \<Longrightarrow> m_known_after k e = k"
    by (cases "m_flusher s") (auto simp: Mpsc_Flush_step_def split: if_splits)
qed

text \<open>The dequeue position counts what has been delivered, and only grows.\<close>

lemma dequeue_pos_delivered:
  assumes "mpsc_inv es s" and "length (claims es) < 2 ^ 62"
  shows "unat (dequeue_pos s) \<le> length (m_delivered es)" and "unat (dequeue_pos s) < 2 ^ 63"
proof -
  let ?n = "length (m_delivered es)"
  note at = mpsc_invD(1) [OF assms]
  define F where "F = m_freed (m_drain s) ?n"
  note md = mpsc_atD(6) [OF at, folded F_def] and le = lines_okD(6) [OF mpsc_atD(3) [OF at], folded F_def]
  have "F \<le> ?n" by (simp add: F_def m_freed_def)
  have "F < 2 ^ 62" using le assms(2) by linarith
  then have "F < 2 ^ 63" and "Suc F < 2 ^ 63" by simp_all
  then have u: "unat (of_nat F :: u64) = F" "unat (of_nat (Suc F) :: u64) = Suc F"
    using unat_of_nat_small [of F] unat_of_nat_small [of "Suc F"] by simp_all
  have "(\<exists>pos. m_drain s = N_Free pos) \<and> unat (dequeue_pos s) = Suc F \<or> unat (dequeue_pos s) = F"
    using md u by (auto simp: md_ok_def split: md_pc.splits)
  moreover have "Suc F \<le> ?n" if "m_drain s = N_Free pos" for pos
    using mpsc_invD(2) [OF assms] that by (cases "m_delivered es") (simp_all add: F_def m_freed_def)
  ultimately show "unat (dequeue_pos s) \<le> ?n" and "unat (dequeue_pos s) < 2 ^ 63"
    using \<open>F \<le> ?n\<close> \<open>F < 2 ^ 63\<close> \<open>Suc F < 2 ^ 63\<close> by auto
qed

lemma dequeue_pos_mono:
  assumes "mpsc_inv es s" and "length (claims es) < 2 ^ 62" and "Mpsc_DrainLoop_step v s = Some (e, t)"
  shows "dequeue_pos s \<le> dequeue_pos t"
proof -
  have "dequeue_pos t = dequeue_pos s \<or> (\<exists>pos. m_drain s = N_Advance pos \<and> dequeue_pos t = pos + 1)"
    using assms(3)
    by (cases "m_drain s")
      (auto simp: Mpsc_DrainLoop_step_def read_cell_def emit_cell_def set_cell_def split: if_splits option.splits)
  moreover have "pos = dequeue_pos s" if "m_drain s = N_Advance pos" for pos
    using mpsc_atD(6) [OF mpsc_invD(1) [OF assms(1,2)]] that by (simp add: md_ok_def)
  moreover have "dequeue_pos s \<le> dequeue_pos s + 1"
  proof -
    have "unat (dequeue_pos s) + 1 < 2 ^ 64" using dequeue_pos_delivered(2) [OF assms(1,2)] by simp
    then have "unat (dequeue_pos s + 1) = unat (dequeue_pos s) + 1"
      using unat_add_of_nat [of "dequeue_pos s" 1] by simp
    then show ?thesis by (simp add: word_le_nat_alt)
  qed
  ultimately show ?thesis by auto
qed

lemma m_flush_ok_frame:
  "m_flush_ok s \<Longrightarrow> m_flusher t = m_flusher s \<Longrightarrow> m_known t = m_known s \<Longrightarrow> dequeue_pos s \<le> dequeue_pos t \<Longrightarrow> m_flush_ok t"
  by (auto simp: m_flush_ok_def split: flush_pc.splits)

lemma m_flush_inv_step:
  assumes inv: "m_flush_inv es s" and step: "mpsc_step s e t"
  shows "m_flush_inv (es @ [e]) t"
proof -
  have i: "mpsc_inv es s" and k: "m_known s = m_flush_known es"
    and f: "length (claims es) < 2 ^ 62 \<Longrightarrow> m_flush_ok s"
    using inv by (simp_all add: m_flush_inv_def)
  have "m_known t = m_flush_known (es @ [e]) \<and> (length (claims es) < 2 ^ 62 \<longrightarrow> m_flush_ok t)"
    using step
  proof cases
    case (m_log p v ok now)
    with k f Mpsc_Log_step_frame [OF this] m_flush_ok_frame [of s t] show ?thesis
      by (simp add: m_known_after_id(1) [OF m_log])
  next
    case (m_drain v)
    with k f Mpsc_DrainLoop_step_frame [OF this] m_flush_ok_frame [of s t] dequeue_pos_mono [OF i _ m_drain] show ?thesis
      by (simp add: m_known_after_id(2) [OF m_drain])
  next
    case (m_flush v)
    have "m_flush_ok t" if "m_flush_ok s"
      using that m_flush by (cases "m_flusher s") (auto simp: Mpsc_Flush_step_def m_flush_ok_def split: if_splits)
    with k f Mpsc_Flush_step_frame [OF m_flush] show ?thesis by (simp add: m_known_after_id(3) [OF m_flush])
  next
    case (m_call p l out)
    with k f show ?thesis by (auto intro: m_flush_ok_frame)
  next
    case (m_set_level l)
    with k f show ?thesis by (auto simp: Mpsc_SetLevel_def intro: m_flush_ok_frame)
  next
    case (m_flush_call known)
    then show ?thesis by (simp add: m_flush_ok_def)
  next
    case m_stop
    with k f show ?thesis by (auto intro: m_flush_ok_frame)
  next
    case m_join
    with k f show ?thesis by (auto intro: m_flush_ok_frame)
  qed
  then show ?thesis using mpsc_inv_step [OF i step] by (simp add: m_flush_inv_def)
qed

interpretation mpsc_flush: trace_invariant mpsc_step mpsc_start m_flush_inv
proof
  show "mpsc_start s \<Longrightarrow> m_flush_inv [] s" for s
    by (simp add: m_flush_inv_def mpsc_inv_start mpsc_start_fields m_flush_ok_def)
qed (rule m_flush_inv_step)

section \<open>Progress of the drain thread\<close>

text \<open>Steps of the drain thread alone, its loads returning the current values.\<close>

definition m_drain_load :: "mpsc_logger \<Rightarrow> u64" where
  "m_drain_load s = (case m_drain s of
     N_Seq pos \<Rightarrow> (case cell_of s pos of None \<Rightarrow> 0 | Some c \<Rightarrow> sequence c)
   | _ \<Rightarrow> 0)"

definition m_drain_alone :: "mpsc_logger \<Rightarrow> mpsc_event \<Rightarrow> mpsc_logger \<Rightarrow> bool" where
  "m_drain_alone s e t \<longleftrightarrow> Mpsc_DrainLoop_step (m_drain_load s) s = Some (e, t)"

definition m_drain_steps_left :: "md_pc \<Rightarrow> nat" where
  "m_drain_steps_left pc = (case pc of
     N_Running \<Rightarrow> 10 | N_Sleep \<Rightarrow> 9 | N_Pos \<Rightarrow> 8 | N_Seq _ \<Rightarrow> 7 | N_Time _ \<Rightarrow> 6 | N_Level _ _ \<Rightarrow> 5 | N_Len _ _ _ \<Rightarrow> 4
   | N_Msg _ _ _ _ \<Rightarrow> 3 | N_Advance _ \<Rightarrow> 2 | N_Free _ \<Rightarrow> 1 | _ \<Rightarrow> 0)"

definition m_unread :: "mpsc_event list \<Rightarrow> mpsc_logger \<Rightarrow> nat" where
  "m_unread es s = length (claims es) - m_freed (m_drain s) (length (m_delivered es))"

lemma m_drain_alone_step: "m_drain_alone s e t \<Longrightarrow> mpsc_step s e t"
  by (auto simp: m_drain_alone_def intro: mpsc_step.m_drain)

lemma m_drain_alone_run: "run m_drain_alone s es t \<Longrightarrow> run mpsc_step s es t"
  by (induction rule: run.induct) (auto intro: run.intros m_drain_alone_step)

fun called_by :: "nat \<Rightarrow> mpsc_event \<Rightarrow> bool" where
  "called_by n (M_Call p level out) \<longleftrightarrow> p < n"
| "called_by n _ \<longleftrightarrow> True"

lemma Mpsc_DrainLoop_step_calls:
  "Mpsc_DrainLoop_step v s = Some (e, t) \<Longrightarrow> m_call_of p e = [] \<and> called_by n e"
  by (cases "m_drain s")
    (auto simp: Mpsc_DrainLoop_step_def read_cell_def emit_cell_def split: if_splits option.splits)

lemma m_drain_alone_frame:
  "run m_drain_alone s es t \<Longrightarrow> m_running t = m_running s \<and> producers t = producers s \<and> claims es = []
     \<and> m_owner t = m_owner s \<and> m_flusher t = m_flusher s \<and> enqueue_pos t = enqueue_pos s
     \<and> m_min_level t = m_min_level s \<and> m_calls p es = [] \<and> list_all (called_by n) es \<and> (\<forall>ln. foldl add_line ln es = ln)"
proof (induction rule: run.induct)
  case (run_snoc s es t e u)
  then have "Mpsc_DrainLoop_step (m_drain_load t) t = Some (e, u)" by (simp add: m_drain_alone_def)
  with run_snoc Mpsc_DrainLoop_step_frame [OF this] Mpsc_DrainLoop_step_lines [OF this] Mpsc_DrainLoop_step_calls [OF this]
  show ?case by simp
qed simp

lemma line_at_append: "line_at (es @ fs) = foldl add_line (line_at es) fs"
  by (simp add: line_at_def)

lemma no_owner_lines:
  assumes "mpsc_live_inv es s" and "length (claims es) < 2 ^ 62" and "\<forall>p. owned (producers s p) = None" and "i < length (claims es)"
  shows "line_at es i \<noteq> None"
  using assms by (auto simp: mpsc_live_inv_def unpublished_owned_def)

text \<open>
  Has the thread still to look for records before it leaves its loop? Not between the load of
  the sequence number that found the cell unpublished and the load of \<open>running_\<close>.
\<close>

definition m_reads_on :: "md_pc \<Rightarrow> bool" where
  "m_reads_on pc \<longleftrightarrow> pc \<noteq> N_Running \<and> pc \<noteq> N_Flush \<and> pc \<noteq> N_Done"

lemma m_drain_alone_progress:
  assumes live: "mpsc_live_inv es s" and small: "length (claims es) < 2 ^ 62" and idle: "\<forall>p. owned (producers s p) = None"
    and run: "m_running s \<or> m_reads_on (m_drain s)" and todo: "0 < m_unread es s"
  obtains e t where "m_drain_alone s e t" and "m_reads_on (m_drain s) \<longrightarrow> m_reads_on (m_drain t)"
    and "8 * m_unread (es @ [e]) t + m_drain_steps_left (m_drain t) < 8 * m_unread es s + m_drain_steps_left (m_drain s)"
proof -
  let ?D = "length (m_delivered es)"
  define F where "F = m_freed (m_drain s) ?D"
  have inv: "mpsc_inv es s" and pc: "m_drain s \<noteq> N_Flush" "m_drain s \<noteq> N_Done"
    using live run by (auto simp: mpsc_live_inv_def m_reads_on_def)
  note at = mpsc_invD(1) [OF inv small, folded F_def]
  note a = mpsc_atD [OF at] and ok = mpsc_atD(1) [OF at] and md = mpsc_atD(6) [OF at]
  have F: "F < length (claims es)" using todo by (simp add: m_unread_def F_def)
  then have ln: "line_at es F \<noteq> None" by (rule no_owner_lines [OF live small idle])
  have "F < 2 ^ 62" using F small by linarith
  then have "Suc F < 2 ^ 63" and "F < 2 ^ 64" by simp_all
  then have uF: "unat (of_nat F :: u64) = F" by (intro unat_of_nat_small)
  have get: "cell_of s (of_nat F) = Some (cell_at (cells s) F)" using cell_of_pos [OF ok, of "of_nat F"] by (simp only: uF)
  have left: "m_unread (es @ [e]) t = m_unread es s" if "claim_of e = []" "m_delivered_line e = []"
    "emitted (m_drain t) = emitted (m_drain s)" for e t
    using that by (simp add: m_unread_def m_freed_def)
  have "\<exists>e t. m_drain_alone s e t \<and> 8 * m_unread (es @ [e]) t + m_drain_steps_left (m_drain t)
      < 8 * m_unread es s + m_drain_steps_left (m_drain s) \<and> (m_reads_on (m_drain s) \<longrightarrow> m_reads_on (m_drain t))"
  proof (cases "m_drain s")
    case (N_Seq pos)
    with md have pos: "pos = of_nat F" by (simp add: md_ok_def)
    have "F < F + length (cells s)" using cells_okD(3) [OF ok] by simp
    with a(2) ln have sq: "unat (sequence (cell_at (cells s) F)) = Suc F" unfolding seqs_ok_def by auto
    have u1: "unat (of_nat F + 1 :: u64) = Suc F"
      using unat_of_nat_small [of "Suc F"] \<open>F < 2 ^ 62\<close> by (simp add: add.commute)
    from signed_diff_zero [of "sequence (cell_at (cells s) F)" "of_nat F + 1"] obtain d where
      "signed_diff (sequence (cell_at (cells s) F)) (of_nat F + 1) = Some d" "d = 0"
      using \<open>Suc F < 2 ^ 63\<close> by (auto simp only: sq u1)
    with N_Seq have "m_drain_alone s M_Drain_Step (s\<lparr>m_drain := N_Time pos\<rparr>)"
      by (simp add: m_drain_alone_def m_drain_load_def Mpsc_DrainLoop_step_def pos get)
    moreover have "m_unread (es @ [M_Drain_Step]) (s\<lparr>m_drain := N_Time pos\<rparr>) = m_unread es s"
      using N_Seq by (intro left) simp_all
    ultimately show ?thesis using N_Seq by (intro exI conjI) (assumption, simp_all add: m_drain_steps_left_def m_reads_on_def)
  next
    case (N_Msg pos time level len)
    with md have p: "pos = of_nat F" "unat len = length (snd (snd (the (line_at es F))))" by (simp_all add: md_ok_def)
    have "cell_holds (cell_at (cells s) F) (the (line_at es F))"
      by (rule lines_okD(3) [OF a(3)]) (use ln in auto)
    then have "take (unat len) (cell_msg (cell_at (cells s) F)) = snd (snd (the (line_at es F)))"
      using p(2) by (auto simp: cell_holds_def split: prod.splits)
    then have "\<not> length (cell_msg (cell_at (cells s) F)) < unat len"
      using p(2) by (metis length_take min.cobounded1 not_le)
    with N_Msg have "m_drain_alone s (M_Sink_Log time (ToSpdlogLevel level) (take (unat len) (cell_msg (cell_at (cells s) F))))
        (s\<lparr>m_drain := N_Advance pos\<rparr>)"
      by (simp add: m_drain_alone_def Mpsc_DrainLoop_step_def emit_cell_def p(1) get)
    with N_Msg show ?thesis
      by (intro exI conjI) (assumption, simp_all add: m_unread_def m_freed_def m_drain_steps_left_def m_reads_on_def)
  next
    case (N_Free pos)
    with mpsc_invD(2) [OF inv small] obtain n where "?D = Suc n" by (cases "m_delivered es") auto
    moreover have "m_drain_alone s M_Drain_Step (s\<lparr>cells := put (cells s) (unat pos) (\<lambda>c. c\<lparr>sequence := pos + cell_mask s + 1\<rparr>),
        m_drain := N_Pos\<rparr>)"
      using N_Free by (simp add: m_drain_alone_def Mpsc_DrainLoop_step_def set_cell_pos [OF ok])
    ultimately show ?thesis using N_Free F
      by (intro exI conjI) (assumption, simp_all add: m_unread_def m_freed_def m_drain_steps_left_def F_def m_reads_on_def)
  qed (use md run pc in \<open>auto simp: m_drain_alone_def Mpsc_DrainLoop_step_def md_ok_def read_cell_def get m_unread_def m_freed_def
      m_drain_steps_left_def m_reads_on_def m_drain_load_def\<close>)
  with that show ?thesis by blast
qed

lemma m_drain_alone_finishes:
  assumes "mpsc_live_inv es s" and "length (claims es) < 2 ^ 62" and "\<forall>p. owned (producers s p) = None"
    and "m_running s \<or> m_reads_on (m_drain s)"
  shows "\<exists>fs t. run m_drain_alone s fs t \<and> m_unread (es @ fs) t = 0
     \<and> length fs \<le> 8 * m_unread es s + m_drain_steps_left (m_drain s)"
  using assms
proof (induction "8 * m_unread es s + m_drain_steps_left (m_drain s)" arbitrary: es s rule: less_induct)
  case less
  show ?case
  proof (cases "m_unread es s = 0")
    case True
    then show ?thesis by (intro exI [of _ "[]"] exI [of _ s]) (simp add: run_nil)
  next
    case False
    then have "0 < m_unread es s" by simp
    with less.prems obtain e t where et: "m_drain_alone s e t" and on: "m_reads_on (m_drain s) \<longrightarrow> m_reads_on (m_drain t)" and
      dec: "8 * m_unread (es @ [e]) t + m_drain_steps_left (m_drain t) < 8 * m_unread es s + m_drain_steps_left (m_drain s)"
      by (rule m_drain_alone_progress)
    have live: "mpsc_live_inv (es @ [e]) t" by (rule mpsc_live_inv_step [OF less.prems(1) m_drain_alone_step [OF et]])
    have fr: "claims [e] = []" "producers t = producers s" "m_running t = m_running s"
      using m_drain_alone_frame [OF run_single [where step = m_drain_alone, OF et]] by simp_all
    then have "length (claims (es @ [e])) < 2 ^ 62" "\<forall>p. owned (producers t p) = None" "m_running t \<or> m_reads_on (m_drain t)"
      using less.prems on by auto
    from less.hyps [OF dec live this] obtain fs u where
      "run m_drain_alone t fs u" "m_unread ((es @ [e]) @ fs) u = 0"
      "length fs \<le> 8 * m_unread (es @ [e]) t + m_drain_steps_left (m_drain t)" by blast
    with et dec show ?thesis
      by (intro exI [of _ "e # fs"] exI [of _ u]) (auto intro: run_cons [where step = m_drain_alone])
  qed
qed

text \<open>Leaving the loop, once the flag is down and no claim is left to deliver.\<close>

lemma m_drain_leaves_running:
  assumes "m_drain s = N_Running" and "\<not> m_running s"
  shows "run m_drain_alone s [M_Drain_Step, M_Sink_Flush] (s\<lparr>m_drain := N_Done\<rparr>)"
proof -
  have "m_drain_alone s M_Drain_Step (s\<lparr>m_drain := N_Flush\<rparr>)"
    using assms by (simp add: m_drain_alone_def m_drain_load_def Mpsc_DrainLoop_step_def)
  moreover have "m_drain_alone (s\<lparr>m_drain := N_Flush\<rparr>) M_Sink_Flush (s\<lparr>m_drain := N_Done\<rparr>)"
    by (simp add: m_drain_alone_def Mpsc_DrainLoop_step_def)
  ultimately show ?thesis by (auto intro!: run_cons [where step = m_drain_alone] run_nil)
qed

lemma m_drain_leaves_seq:
  assumes "mpsc_inv es s" and "length (claims es) < 2 ^ 62" and "m_drain s = N_Seq pos" and "m_unread es s = 0"
    and "\<not> m_running s"
  shows "run m_drain_alone s [M_Drain_Step, M_Drain_Step, M_Sink_Flush] (s\<lparr>m_drain := N_Done\<rparr>)"
proof -
  define F where "F = m_freed (m_drain s) (length (m_delivered es))"
  note at = mpsc_invD(1) [OF assms(1,2), folded F_def]
  note a = mpsc_atD [OF at] and ok = mpsc_atD(1) [OF at] and md = mpsc_atD(6) [OF at]
  note l = lines_okD [OF a(3)]
  have "length (claims es) \<le> F" using assms(4) by (simp add: m_unread_def F_def)
  then have ln: "line_at es F = None" using l(1) [of F] by (cases "line_at es F") auto
  have F: "F < 2 ^ 62" using l(6) assms(2) by linarith
  then have "F < 2 ^ 64" and F1: "Suc F < 2 ^ 63" and "F < 2 ^ 63" by simp_all
  then have uF: "unat (of_nat F :: u64) = F" by (intro unat_of_nat_small)
  have get: "cell_of s (of_nat F) = Some (cell_at (cells s) F)" using cell_of_pos [OF ok, of "of_nat F"] by (simp only: uF)
  have "F < F + length (cells s)" using cells_okD(3) [OF ok] by simp
  with a(2) ln have sq: "unat (sequence (cell_at (cells s) F)) = F" unfolding seqs_ok_def by auto
  have u1: "unat (of_nat F + 1 :: u64) = Suc F"
    using unat_of_nat_small [of "Suc F"] F by (simp add: add.commute)
  from signed_diff_zero [of "sequence (cell_at (cells s) F)" "of_nat F + 1"] obtain d where
    "signed_diff (sequence (cell_at (cells s) F)) (of_nat F + 1) = Some d" "d \<noteq> 0"
    using F1 \<open>F < 2 ^ 63\<close> by (auto simp only: sq u1)
  moreover have "pos = of_nat F" using md assms(3) by (simp add: md_ok_def)
  ultimately have "m_drain_alone s M_Drain_Step (s\<lparr>m_drain := N_Running\<rparr>)"
    by (simp add: m_drain_alone_def m_drain_load_def Mpsc_DrainLoop_step_def assms(3) get)
  moreover have "run m_drain_alone (s\<lparr>m_drain := N_Running\<rparr>) [M_Drain_Step, M_Sink_Flush] (s\<lparr>m_drain := N_Done\<rparr>)"
    using m_drain_leaves_running [of "s\<lparr>m_drain := N_Running\<rparr>"] assms(5) by simp
  ultimately show ?thesis by (rule run_cons)
qed

lemma m_drain_leaves_pos:
  assumes "mpsc_inv es s" and "length (claims es) < 2 ^ 62" and "m_drain s = N_Pos" and "m_unread es s = 0"
    and "\<not> m_running s"
  shows "run m_drain_alone s (replicate 3 M_Drain_Step @ [M_Sink_Flush]) (s\<lparr>m_drain := N_Done\<rparr>)"
proof -
  let ?t = "s\<lparr>m_drain := N_Seq (dequeue_pos s)\<rparr>"
  have st: "m_drain_alone s M_Drain_Step ?t"
    using assms(3) by (simp add: m_drain_alone_def Mpsc_DrainLoop_step_def)
  have inv: "mpsc_inv (es @ [M_Drain_Step]) ?t" by (rule mpsc_inv_step [OF assms(1) m_drain_alone_step [OF st]])
  have "m_unread (es @ [M_Drain_Step]) ?t = 0" using assms(3,4) by (simp add: m_unread_def m_freed_def)
  from m_drain_leaves_seq [OF inv _ _ this] assms(2,5)
  have "run m_drain_alone ?t [M_Drain_Step, M_Drain_Step, M_Sink_Flush] (s\<lparr>m_drain := N_Done\<rparr>)" by simp
  from run_cons [where step = m_drain_alone, OF st this] show ?thesis by (simp add: numeral_eq_Suc)
qed

lemma m_drain_alone_leaves:
  assumes inv: "mpsc_inv es s" and small: "length (claims es) < 2 ^ 62" and stop: "\<not> m_running s"
    and none: "m_reads_on (m_drain s) \<longrightarrow> m_unread es s = 0"
  shows "\<exists>fs t. run m_drain_alone s fs t \<and> m_drain t = N_Done \<and> length fs \<le> 5 \<and> m_delivered fs = []"
proof -
  define F where "F = m_freed (m_drain s) (length (m_delivered es))"
  note at = mpsc_invD(1) [OF inv small, folded F_def]
  note md = mpsc_atD(6) [OF at] and l = lines_okD [OF mpsc_atD(3) [OF at]]
  have busy: "line_at es F = None" if "m_reads_on (m_drain s)"
    using none that l(1) [of F] by (cases "line_at es F") (auto simp: m_unread_def F_def)
  show ?thesis
  proof (cases "m_drain s")
    case N_Pos
    with none have "m_unread es s = 0" by (simp add: m_reads_on_def)
    from m_drain_leaves_pos [OF inv small N_Pos this stop] show ?thesis
      by (intro exI conjI) (assumption, simp_all add: numeral_eq_Suc)
  next
    case (N_Seq pos)
    with none have "m_unread es s = 0" by (simp add: m_reads_on_def)
    from m_drain_leaves_seq [OF inv small N_Seq this stop] show ?thesis
      by (intro exI conjI) (assumption, simp_all)
  next
    case N_Sleep
    let ?t = "s\<lparr>m_drain := N_Pos\<rparr>"
    from N_Sleep have st: "m_drain_alone s M_Drain_Step ?t" by (simp add: m_drain_alone_def Mpsc_DrainLoop_step_def)
    have inv': "mpsc_inv (es @ [M_Drain_Step]) ?t" by (rule mpsc_inv_step [OF inv m_drain_alone_step [OF st]])
    have "m_unread (es @ [M_Drain_Step]) ?t = 0"
      using N_Sleep none by (simp add: m_unread_def m_freed_def m_reads_on_def)
    from m_drain_leaves_pos [OF inv' _ _ this] small stop
    have "run m_drain_alone ?t (replicate 3 M_Drain_Step @ [M_Sink_Flush]) (?t\<lparr>m_drain := N_Done\<rparr>)" by simp
    from run_cons [where step = m_drain_alone, OF st this] show ?thesis
      by (intro exI conjI) (assumption, simp_all add: numeral_eq_Suc)
  next
    case N_Running
    from m_drain_leaves_running [OF this stop] show ?thesis by (intro exI conjI) (assumption, simp_all)
  next
    case N_Flush
    then have "m_drain_alone s M_Sink_Flush (s\<lparr>m_drain := N_Done\<rparr>)" by (simp add: m_drain_alone_def Mpsc_DrainLoop_step_def)
    from run_single [where step = m_drain_alone, OF this] show ?thesis by (intro exI conjI) (assumption, simp_all)
  next
    case N_Done
    then show ?thesis by (intro exI [of _ "[]"] exI [of _ s]) (simp add: run_nil)
  qed (use md busy in \<open>auto simp: md_ok_def m_reads_on_def\<close>)
qed

text \<open>What has been delivered are the first claims, in order.\<close>

definition claim_line :: "nat \<times> LogLevel \<times> string \<Rightarrow> spd_level \<times> string" where
  "claim_line c = (case c of (p, level, txt) \<Rightarrow> (ToSpdlogLevel level, txt))"

lemma delivered_claims:
  assumes "mpsc_inv es s" and "length (claims es) < 2 ^ 62"
  shows "length (m_delivered es) \<le> length (claims es)"
    and "map snd (m_delivered es) = map claim_line (take (length (m_delivered es)) (claims es))"
proof -
  note i = mpsc_invD [OF assms]
  note l = lines_okD [OF mpsc_atD(3) [OF i(1)]]
  let ?ds = "m_delivered es"
  have n: "j < length (claims es)" if "j < length ?ds" for j using i(3) [OF that] l(1) by blast
  then show le: "length ?ds \<le> length (claims es)" by (meson not_le nat_less_le)
  have "snd (?ds ! j) = claim_line (claims es ! j)" if j: "j < length ?ds" for j
  proof -
    obtain tm lv tx where ln: "line_at es j = Some (tm, lv, tx)" using i(3) [OF j] by auto
    then have "snd (claims es ! j) = (lv, tx)" using l(2) by fastforce
    then show ?thesis using i(4) [OF j] ln by (cases "claims es ! j") (simp add: sink_line_def claim_line_def)
  qed
  then show "map snd ?ds = map claim_line (take (length ?ds) (claims es))"
    using le by (intro nth_equalityI) simp_all
qed

lemma delivered_all:
  assumes "mpsc_inv es s" and "length (claims es) < 2 ^ 62" and "m_unread es s = 0"
  shows "map snd (m_delivered es) = map claim_line (claims es)"
proof -
  have "length (claims es) \<le> length (m_delivered es)"
    using assms(3) unfolding m_unread_def m_freed_def by (simp split: if_splits)
  with delivered_claims [OF assms(1,2)] show ?thesis by simp
qed

section \<open>Replaying a schedule\<close>

text \<open>
  A schedule is a list of actions: which thread moves next, and what its load returns. It is
  executable, so concrete runs are computed. \<open>Log_Action p v ok now\<close> is a step of a call of
  producer \<open>p\<close> as in \<open>Mpsc_Log_step\<close>.
\<close>

datatype mpsc_action =
    Call_Log nat LogLevel string
  | Log_Action nat u64 bool time_point
  | Drain_Action u64
  | Call_Flush u64
  | Flush_Action u64

fun mpsc_do :: "mpsc_logger \<Rightarrow> mpsc_action \<Rightarrow> (mpsc_event \<times> mpsc_logger) option" where
  "mpsc_do s (Call_Log p level txt) =
     (if m_owner s = O_Alive \<and> producers s p = M_Idle
      then Some (M_Call p level (Formatted txt), set_pc p (M_Filter level (Formatted txt)) s) else None)"
| "mpsc_do s (Log_Action p v ok now) = Mpsc_Log_step p v ok now s"
| "mpsc_do s (Drain_Action v) = Mpsc_DrainLoop_step v s"
| "mpsc_do s (Call_Flush known) =
     (if m_owner s = O_Alive \<and> m_flusher s = F_Idle \<and> known \<le> enqueue_pos s
      then Some (M_Flush_Call known, s\<lparr>m_flusher := F_Tail, m_known := known\<rparr>) else None)"
| "mpsc_do s (Flush_Action v) = Mpsc_Flush_step v s"

lemma mpsc_do_step: "mpsc_do s a = Some (e, t) \<Longrightarrow> mpsc_step s e t"
  by (cases a) (auto intro: mpsc_step.intros split: if_splits)

lemma mpsc_do_run: "run_ops mpsc_do s as = Some (es, t) \<Longrightarrow> run mpsc_step s es t"
proof (induction as arbitrary: s es)
  case Nil
  then show ?case by (simp add: run_nil)
next
  case (Cons a as)
  then obtain e u fs where "mpsc_do s a = Some (e, u)" "run_ops mpsc_do u as = Some (fs, t)" "es = e # fs"
    by (auto split: option.splits)
  with Cons.IH show ?case by (auto intro: run_cons [where step = mpsc_step] mpsc_do_step)
qed

definition demo_mpsc :: "nat \<Rightarrow> mpsc_logger" where
  "demo_mpsc n = \<lparr>cells = map (\<lambda>i. new_cell i (replicate 256 CHR ''.'')) [0 ..< n], cell_mask = of_nat n - 1,
     m_min_level = kInfo, m_stale_levels = [], enqueue_pos = 0, dequeue_pos = 0, m_dropped = 0, m_running = True,
     producers = (\<lambda>_. M_Idle), m_drain = N_Pos, m_flusher = F_Idle, m_known = 0, m_owner = O_Alive\<rparr>"

lemma demo_mpsc_built:
  assumes "ring_size ring_capacity = Some (of_nat n)" and "n < 2 ^ 64"
  shows "MpscRtLogger (\<lambda>_. None) ring_capacity (replicate n (replicate 256 CHR ''.'')) = Some (demo_mpsc n)"
proof -
  have "unat (of_nat n :: u64) = n" by (rule unat_of_nat_small [OF assms(2)])
  then show ?thesis
    by (simp add: MpscRtLogger_def assms(1) kMaxMsgLen_def list_all_iff demo_mpsc_def ResolveLogLevelFromEnv_def
        GetEnvironmentVariable_def default_log_level_def)
qed

lemma demo_mpsc_start: "mpsc_start (demo_mpsc 4)"
proof -
  have "ring_size 4 = Some (of_nat 4)"
    unfolding ring_size_def by (simp add: round_up.simps [of 1] round_up.simps [of 2] round_up.simps [of 4])
  from demo_mpsc_built [OF this] have "MpscRtLogger (\<lambda>_. None) 4 (replicate 4 (replicate 256 CHR ''.'')) = Some (demo_mpsc 4)"
    by simp
  then show ?thesis unfolding mpsc_start_def by (intro exI conjI) (assumption, simp_all add: word_le_nat_alt)
qed

text \<open>A call that is not interrupted: the slot at \<open>pos\<close> has sequence number \<open>pos\<close>.\<close>

definition log_until_claim :: "nat \<Rightarrow> LogLevel \<Rightarrow> string \<Rightarrow> u64 \<Rightarrow> mpsc_action list" where
  "log_until_claim p level txt pos =
     [Call_Log p level txt, Log_Action p 0 False 0, Log_Action p pos False 0, Log_Action p pos False 0, Log_Action p 0 True 0]"

definition log_actions :: "nat \<Rightarrow> LogLevel \<Rightarrow> string \<Rightarrow> u64 \<Rightarrow> time_point \<Rightarrow> mpsc_action list" where
  "log_actions p level txt pos now = log_until_claim p level txt pos @ Log_Action p 0 False now # replicate 4 (Log_Action p 0 False 0)"

text \<open>The drain thread taking the record at \<open>pos\<close>.\<close>

definition drain_actions :: "u64 \<Rightarrow> mpsc_action list" where
  "drain_actions pos = Drain_Action 0 # Drain_Action (pos + 1) # replicate 6 (Drain_Action 0)"

lemma replayE:
  assumes "(case run_ops mpsc_do s as of None \<Rightarrow> False | Some (es, t) \<Rightarrow> P es t)"
  obtains es t where "run mpsc_step s es t" and "P es t"
  using assms by (rule run_opsE) (blast intro: mpsc_do_run)

section \<open>Properties\<close>

definition m_reading :: "md_pc \<Rightarrow> u64 option" where
  "m_reading pc = (case pc of N_Time pos \<Rightarrow> Some pos | N_Level pos _ \<Rightarrow> Some pos | N_Len pos _ _ \<Rightarrow> Some pos
     | N_Msg pos _ _ _ \<Rightarrow> Some pos | _ \<Rightarrow> None)"

text \<open>C9. Delivery in claim order: whatever the interleaving of any number of producers with the
  drain thread, flushers, level changes and destruction, the sink has been handed exactly the
  records of the first successful compare-and-swaps, in their order, each with the level and
  the text of its call, although producers publish out of order; at most a ring's worth of
  claims is waiting, and no access leaves the ring or a buffer and no signed difference
  overflows (for fewer than \<open>2 ^ 62\<close> records and a capacity between 2 and \<open>2 ^ 61\<close>).\<close>

theorem mpsc_delivers_in_claim_order:
  assumes "mpsc_start s0" and "run mpsc_step s0 es s" and "length (claims es) < 2 ^ 62"
  shows "map snd (m_delivered es) = map claim_line (take (length (m_delivered es)) (claims es))
    \<and> length (m_delivered es) \<le> length (claims es) \<and> length (claims es) \<le> length (m_delivered es) + length (cells s)
    \<and> M_Undefined \<notin> set es"
proof -
  have inv: "mpsc_inv es s" by (rule mpsc.inv_run [OF assms(2,1)])
  note i = mpsc_invD [OF inv assms(3)]
  have "length (claims es) \<le> length (m_delivered es) + length (cells s)"
    using lines_okD(7) [OF mpsc_atD(3) [OF i(1)]] by (simp add: m_freed_def split: if_splits)
  then show ?thesis using delivered_claims [OF inv assms(3)] i(5) by simp
qed

theorem mpsc_delivers_in_claim_order_witness:
  "\<exists>es s. run mpsc_step (demo_mpsc 4) es s \<and> claims es = [(0, kInfo, ''a''), (1, kWarn, ''b'')]
     \<and> map snd (m_delivered es) = [(spd_info, ''a'')] \<and> M_Undefined \<notin> set es"
proof -
  have "case run_ops mpsc_do (demo_mpsc 4)
      (log_until_claim 0 kInfo ''a'' 0 @ log_actions 1 kWarn ''b'' 1 9 @ replicate 5 (Log_Action 0 0 False 0) @ drain_actions 0) of
      None \<Rightarrow> False
    | Some (es, s) \<Rightarrow> claims es = [(0, kInfo, ''a''), (1, kWarn, ''b'')] \<and> length (m_delivered es) = 1"
    by code_simp
  then obtain es s where r: "run mpsc_step (demo_mpsc 4) es s" and es: "claims es = [(0, kInfo, ''a''), (1, kWarn, ''b'')]"
    "length (m_delivered es) = 1"
    by (rule replayE) blast
  have "length (claims es) < 2 ^ 62" using es by simp
  from mpsc_delivers_in_claim_order [OF demo_mpsc_start r this] es
  have "map snd (m_delivered es) = [(spd_info, ''a'')]" "M_Undefined \<notin> set es" by (simp_all add: claim_line_def ToSpdlogLevel_def)
  with r es(1) show ?thesis by (intro exI conjI)
qed

lemma called_by_more: "list_all (called_by m) es \<Longrightarrow> m \<le> n \<Longrightarrow> list_all (called_by n) es"
proof (induction es)
  case (Cons e es)
  then show ?case by (cases e) auto
qed simp

lemma mpsc_log_complete:
  assumes "mpsc_start s0" and "run mpsc_step s0 es s" and "producers s p = M_Idle"
  shows "list_all2 m_outcome_matches (m_calls p es) (m_outcomes p es)"
  using mpsc_account.inv_run [OF assms(2,1), of p] assms(3) by (simp add: m_account_def)

text \<open>C11. Every call is accounted for, per producer: the finished \<open>Log\<close> calls of a producer that
  is not inside one are, in order, filtered, dropped or published with their own level and
  text; its claims are its published lines in the order of its calls, so that delivery in claim
  order keeps the order of each producer; and \<open>dropped()\<close> is the number of dropped calls of all
  producers, modulo \<open>2 ^ 64\<close>.\<close>

theorem mpsc_log_outcomes:
  assumes "mpsc_start s0" and "run mpsc_step s0 es s" and "producers s p = M_Idle"
  shows "list_all2 m_outcome_matches (m_calls p es) (m_outcomes p es)
    \<and> claims_by p es = m_lines (m_outcomes p es)
    \<and> m_dropped s = of_nat (length (filter m_is_drop es))"
  using mpsc_account.inv_run [OF assms(2,1), of p] assms(3) by (simp add: m_account_def m_pc_simps)

theorem mpsc_log_outcomes_witness:
  "\<exists>es s. run mpsc_step (demo_mpsc 4) es s \<and> producers s 1 = M_Idle \<and> m_calls 1 es = [(kWarn, Formatted ''b'')]
     \<and> list_all2 m_outcome_matches (m_calls 1 es) (m_outcomes 1 es) \<and> claims_by 1 es = m_lines (m_outcomes 1 es)"
proof -
  have "case run_ops mpsc_do (demo_mpsc 4) (log_until_claim 0 kInfo ''a'' 0 @ log_actions 1 kWarn ''b'' 1 9) of
      None \<Rightarrow> False | Some (es, s) \<Rightarrow> producers s 1 = M_Idle \<and> m_calls 1 es = [(kWarn, Formatted ''b'')]"
    by code_simp
  then obtain es s where r: "run mpsc_step (demo_mpsc 4) es s" and es: "producers s 1 = M_Idle"
    "m_calls 1 es = [(kWarn, Formatted ''b'')]"
    by (rule replayE) blast
  from mpsc_log_outcomes [OF demo_mpsc_start r es(1)] r es show ?thesis by blast
qed

text \<open>C10. No data race: two producers that are writing a cell write different cells, and the drain
  thread never reads a cell a producer is writing; all of these indices lie in the ring.\<close>

theorem mpsc_no_data_race:
  assumes "mpsc_start s0" and "run mpsc_step s0 es s" and "length (claims es) < 2 ^ 62"
    and "owned (producers s p) = Some pos"
    and "(q \<noteq> p \<and> owned (producers s q) = Some pos') \<or> m_reading (m_drain s) = Some pos'"
  shows "pos AND cell_mask s \<noteq> pos' AND cell_mask s
    \<and> unat (pos AND cell_mask s) < length (cells s) \<and> unat (pos' AND cell_mask s) < length (cells s)"
proof -
  let ?n = "length (cells s)" and ?F = "m_freed (m_drain s) (length (m_delivered es))"
  have inv: "mpsc_inv es s" by (rule mpsc.inv_run [OF assms(2,1)])
  note at = mpsc_invD(1) [OF inv assms(3)]
  note a = mpsc_atD [OF at] and w = owned_window [OF at assms(4)]
  have n: "0 < ?n" using cells_okD(3) [OF a(1)] by simp
  have "?F < 2 ^ 62" using lines_okD(6) [OF a(3)] assms(3) by linarith
  then have uF: "unat (of_nat ?F :: u64) = ?F" by (intro unat_of_nat_small) simp
  have "unat pos' \<noteq> unat pos \<and> ?F \<le> unat pos' \<and> unat pos' < ?F + ?n"
    using assms(5)
  proof (elim disjE conjE)
    assume q: "q \<noteq> p" "owned (producers s q) = Some pos'"
    then show ?thesis using owned_window [OF at q(2)] owned_distinct [OF at q(2) assms(4)] by auto
  next
    assume "m_reading (m_drain s) = Some pos'"
    then have "pos' = of_nat ?F" "line_at es ?F \<noteq> None"
      using a(6) by (auto simp: m_reading_def md_ok_def split: md_pc.splits)
    then show ?thesis using w(4) n uF by auto
  qed
  with w slots_distinct_window [of "unat pos" ?n "unat pos'" ?F]
  have "unat pos mod ?n \<noteq> unat pos' mod ?n" by auto
  then show ?thesis using n by (auto simp: cell_index [OF a(1)] dest!: arg_cong [where f = unat])
qed

theorem mpsc_no_data_race_witness:
  "\<exists>es s. run mpsc_step (demo_mpsc 4) es s \<and> owned (producers s 0) = Some 0 \<and> owned (producers s 1) = Some 1
     \<and> 0 AND cell_mask s \<noteq> 1 AND cell_mask s"
proof -
  have "case run_ops mpsc_do (demo_mpsc 4) (log_until_claim 0 kInfo ''a'' 0 @ log_until_claim 1 kWarn ''b'' 1) of
      None \<Rightarrow> False
    | Some (es, s) \<Rightarrow> owned (producers s 0) = Some 0 \<and> owned (producers s 1) = Some 1 \<and> length (claims es) = 2"
    by code_simp
  then obtain es s where r: "run mpsc_step (demo_mpsc 4) es s" and es: "owned (producers s 0) = Some 0"
    "owned (producers s 1) = Some 1" "length (claims es) = 2"
    by (rule replayE) blast
  have "length (claims es) < 2 ^ 62" using es(3) by simp
  from mpsc_no_data_race [OF demo_mpsc_start r this es(1), of 1 1] r es show ?thesis by auto
qed

lemma m_Flush_returned:
  assumes "mpsc_start s0" and "run mpsc_step s0 (es @ [M_Flush_Return]) t" and "length (claims es) < 2 ^ 62"
  shows "unat (m_flush_known es) \<le> length (m_delivered es)
    \<and> map snd (take (unat (m_flush_known es)) (m_delivered es)) = map claim_line (take (unat (m_flush_known es)) (claims es))"
proof -
  let ?k = "unat (m_flush_known es)" and ?ds = "m_delivered es"
  from assms(2) obtain s where s: "run mpsc_step s0 es s" "mpsc_step s M_Flush_Return t" by (auto elim: run.cases)
  have inv: "mpsc_inv es s" and "m_flush_inv es s"
    by (rule mpsc.inv_run [OF s(1) assms(1)], rule mpsc_flush.inv_run [OF s(1) assms(1)])
  then have ok: "m_flush_ok s" "m_known s = m_flush_known es" using assms(3) by (simp_all add: m_flush_inv_def)
  from s(2) obtain pos where "m_flusher s = F_Sink pos"
    by cases (auto simp: Mpsc_Log_step_def with_cell_def format_cell_def Mpsc_DrainLoop_step_def read_cell_def emit_cell_def
        Mpsc_Flush_step_def split: mp_pc.splits md_pc.splits flush_pc.splits if_splits option.splits prod.splits)
  with ok have "?k \<le> unat (dequeue_pos s)" by (auto simp: m_flush_ok_def word_le_nat_alt)
  also have "\<dots> \<le> length ?ds" by (rule dequeue_pos_delivered(1) [OF inv assms(3)])
  finally have le: "?k \<le> length ?ds" .
  note d = delivered_claims [OF inv assms(3)]
  have "map snd (take ?k ?ds) = take ?k (map snd ?ds)" by (rule take_map [symmetric])
  also have "\<dots> = take ?k (map claim_line (take (length ?ds) (claims es)))" by (simp only: d(2))
  also have "\<dots> = map claim_line (take ?k (claims es))" using le by (simp add: take_map min_absorb1)
  finally show ?thesis using le by simp
qed

lemma idle_without_calls:
  assumes "mpsc_start s0" and "run mpsc_step s0 es s" and "m_calls p es = []"
  shows "producers s p = M_Idle"
  using mpsc_account.inv_run [OF assms(2,1), of p] assms(3) by (simp add: m_account_def split: if_splits)

lemma called_by_none: "list_all (called_by n) es \<Longrightarrow> n \<le> p \<Longrightarrow> m_calls p es = []"
proof (induction es)
  case (Cons e es)
  then show ?case by (cases e) auto
qed simp

lemma all_idle:
  assumes "mpsc_start s0" and "run mpsc_step s0 es s" and "list_all (called_by 1) es" and "producers s 0 = M_Idle"
  shows "\<forall>p. producers s p = M_Idle"
proof
  fix p
  show "producers s p = M_Idle"
    using assms(4) idle_without_calls [OF assms(1,2) called_by_none [OF assms(3)], of p] by (cases "p = 0") simp_all
qed

text \<open>C12. \<open>Flush\<close> keeps its promise with many producers: when it returns, every claim its caller
  knew of when it called has been handed to the sink, in claim order.\<close>

theorem mpsc_flush_delivers:
  assumes "mpsc_start s0" and "run mpsc_step s0 (es @ [M_Flush_Return]) t" and "length (claims es) < 2 ^ 62"
  shows "unat (m_flush_known es) \<le> length (m_delivered es)
    \<and> map snd (take (unat (m_flush_known es)) (m_delivered es)) = map claim_line (take (unat (m_flush_known es)) (claims es))"
  using assms by (rule m_Flush_returned)

theorem mpsc_flush_delivers_witness:
  "\<exists>es t. run mpsc_step (demo_mpsc 4) (es @ [M_Flush_Return]) t \<and> m_flush_known es = 1
     \<and> map snd (take 1 (m_delivered es)) = [(spd_info, ''a'')]"
proof -
  have "case run_ops mpsc_do (demo_mpsc 4)
      (log_actions 0 kInfo ''a'' 0 7 @ drain_actions 0 @ [Call_Flush 1, Flush_Action 1, Flush_Action 1, Flush_Action 0]) of
      None \<Rightarrow> False
    | Some (es, s) \<Rightarrow> last es = M_Flush_Return \<and> es \<noteq> [] \<and> claims (butlast es) = [(0, kInfo, ''a'')]
        \<and> m_flush_known (butlast es) = 1"
    by code_simp
  then obtain fs t where r: "run mpsc_step (demo_mpsc 4) fs t" and fs: "last fs = M_Flush_Return" "fs \<noteq> []"
    "claims (butlast fs) = [(0, kInfo, ''a'')]" "m_flush_known (butlast fs) = 1"
    by (rule replayE) blast
  define es where "es = butlast fs"
  have eq: "es @ [M_Flush_Return] = fs" using fs(1,2) unfolding es_def by (metis append_butlast_last_id)
  have run: "run mpsc_step (demo_mpsc 4) (es @ [M_Flush_Return]) t" using r eq by simp
  have "length (claims es) < 2 ^ 62" using fs(3) by (simp add: es_def)
  from mpsc_flush_delivers [OF demo_mpsc_start run this] fs(3,4)
  have "map snd (take 1 (m_delivered es)) = [(spd_info, ''a'')]"
    by (simp add: es_def claim_line_def ToSpdlogLevel_def)
  with run fs(4) show ?thesis unfolding es_def by (intro exI conjI)
qed

text \<open>The drain thread catches up: whenever no producer is between its claim and its
  publication, within 8 steps per waiting record and at most 10 more the drain thread of a live
  logger, whose loads return current values, has handed every claimed record to the sink and
  freed every cell.\<close>

theorem mpsc_drain_catches_up:
  assumes "mpsc_start s0" and "run mpsc_step s0 es s" and "length (claims es) < 2 ^ 62"
    and "\<forall>p. owned (producers s p) = None" and "m_running s"
  shows "\<exists>fs t. run m_drain_alone s fs t \<and> length fs \<le> 8 * m_unread es s + 10
    \<and> map snd (m_delivered (es @ fs)) = map claim_line (claims es) \<and> m_unread (es @ fs) t = 0"
proof -
  have live: "mpsc_live_inv es s" by (rule mpsc_live.inv_run [OF assms(2,1)])
  from m_drain_alone_finishes [OF live assms(3,4) disjI1 [OF assms(5)]] obtain fs t where
    r: "run m_drain_alone s fs t" and u: "m_unread (es @ fs) t = 0"
    and n: "length fs \<le> 8 * m_unread es s + m_drain_steps_left (m_drain s)" by blast
  have c: "claims (es @ fs) = claims es" using m_drain_alone_frame [OF r] by simp
  have "run mpsc_step s0 (es @ fs) t" by (rule run_append [OF m_drain_alone_run [OF r] assms(2)])
  then have "mpsc_inv (es @ fs) t" using assms(1) by (rule mpsc.inv_run)
  from delivered_all [OF this _ u] have "map snd (m_delivered (es @ fs)) = map claim_line (claims es)"
    using assms(3) by (simp only: c)
  moreover have "m_drain_steps_left (m_drain s) \<le> 10" by (simp add: m_drain_steps_left_def split: md_pc.splits)
  then have "length fs \<le> 8 * m_unread es s + 10" using n by linarith
  ultimately show ?thesis using r u by (intro exI [of _ fs] exI [of _ t]) simp
qed

text \<open>A producer that has made no call is idle.\<close>

theorem mpsc_drain_catches_up_witness:
  "\<exists>es s fs t. run mpsc_step (demo_mpsc 4) es s \<and> claims es = [(0, kInfo, ''a'')] \<and> m_delivered es = []
     \<and> run m_drain_alone s fs t \<and> map snd (m_delivered (es @ fs)) = [(spd_info, ''a'')]"
proof -
  have "case run_ops mpsc_do (demo_mpsc 4) (log_actions 0 kInfo ''a'' 0 7) of
      None \<Rightarrow> False
    | Some (es, s) \<Rightarrow> claims es = [(0, kInfo, ''a'')] \<and> m_delivered es = [] \<and> list_all (called_by 1) es
        \<and> producers s 0 = M_Idle \<and> m_running s"
    by code_simp
  then obtain es s where r: "run mpsc_step (demo_mpsc 4) es s" and es: "claims es = [(0, kInfo, ''a'')]"
    "m_delivered es = []" "list_all (called_by 1) es" "producers s 0 = M_Idle" "m_running s"
    by (rule replayE) blast
  have small: "length (claims es) < 2 ^ 62" using es(1) by simp
  have "\<forall>p. owned (producers s p) = None"
    using all_idle [OF demo_mpsc_start r es(3,4)] by (simp add: owned_def)
  from mpsc_drain_catches_up [OF demo_mpsc_start r small this es(5)] obtain fs t where
    f: "run m_drain_alone s fs t" "map snd (m_delivered (es @ fs)) = map claim_line (claims es)" by blast
  then have "map snd (m_delivered (es @ fs)) = [(spd_info, ''a'')]" by (simp add: es(1) claim_line_def ToSpdlogLevel_def)
  with r es(1,2) f(1) show ?thesis by (intro exI conjI)
qed

definition two_logs :: "mpsc_action list" where
  "two_logs = log_actions 0 kInfo ''a'' 0 7 @ log_actions 0 kInfo ''b'' 1 8"

definition stuck :: "mpsc_logger \<Rightarrow> bool" where
  "stuck s \<longleftrightarrow> map sequence (cells s) = [2] \<and> cell_mask s = 0 \<and> dequeue_pos s = 0 \<and> enqueue_pos s = 2 \<and> m_running s
     \<and> m_drain s \<in> {N_Pos, N_Seq 0, N_Running, N_Sleep}"

lemma stuck_step:
  assumes "stuck s" and "m_drain_alone s e t"
  shows "stuck t \<and> m_delivered_line e = []"
proof -
  have "signed_diff 2 1 = Some 1" by code_simp
  with assms show ?thesis
    by (auto simp: stuck_def m_drain_alone_def m_drain_load_def Mpsc_DrainLoop_step_def cell_of_def arr_get_def map_eq_Cons_conv)
qed

lemma stuck_run: "run m_drain_alone s fs t \<Longrightarrow> stuck s \<Longrightarrow> stuck t \<and> m_delivered fs = []"
  by (induction rule: run.induct) (auto dest: stuck_step)

text \<open>C15. A ring of one cell loses records. The constructor accepts a capacity of 1 (and of 0): the
  sequence number that marks the published cell is then also the one that marks it free for
  the next record, so a second \<open>Log\<close> overwrites a record nobody has read. Neither call is
  counted as dropped, and from then on the drain thread on its own never hands anything to the
  sink and never moves its position, so that \<open>Flush\<close> waits forever.\<close>

theorem mpsc_capacity_one_loses_records:
  assumes "run_ops mpsc_do (demo_mpsc 1) two_logs = Some (es, s)" and "run m_drain_alone s fs t"
  shows "MpscRtLogger (\<lambda>_. None) 1 [replicate 256 CHR ''.''] = Some (demo_mpsc 1)
    \<and> run mpsc_step (demo_mpsc 1) es s
    \<and> m_outcomes 0 es = [M_Published 0 0 7 kInfo ''a'', M_Published 0 1 8 kInfo ''b''] \<and> m_dropped s = 0
    \<and> m_delivered (es @ fs) = [] \<and> dequeue_pos t \<noteq> enqueue_pos t"
proof -
  have "ring_size 1 = Some 1" unfolding ring_size_def by (simp add: round_up.simps)
  then have "MpscRtLogger (\<lambda>_. None) 1 [replicate 256 CHR ''.''] = Some (demo_mpsc 1)"
    using demo_mpsc_built [of 1 1] by simp
  moreover have "case run_ops mpsc_do (demo_mpsc 1) two_logs of None \<Rightarrow> False
    | Some (es, s) \<Rightarrow> m_outcomes 0 es = [M_Published 0 0 7 kInfo ''a'', M_Published 0 1 8 kInfo ''b''] \<and> m_dropped s = 0
        \<and> m_delivered es = [] \<and> stuck s"
    by code_simp
  with assms(1) have e: "m_outcomes 0 es = [M_Published 0 0 7 kInfo ''a'', M_Published 0 1 8 kInfo ''b'']" "m_dropped s = 0"
    "m_delivered es = []" "stuck s" by simp_all
  moreover from stuck_run [OF assms(2) e(4)] have "stuck t" "m_delivered fs = []" by simp_all
  ultimately show ?thesis using mpsc_do_run [OF assms(1)] by (simp add: stuck_def)
qed

theorem mpsc_capacity_one_loses_records_witness:
  "\<exists>es s t. run_ops mpsc_do (demo_mpsc 1) two_logs = Some (es, s) \<and> run m_drain_alone s [M_Drain_Step] t
     \<and> m_delivered (es @ [M_Drain_Step]) = [] \<and> dequeue_pos t \<noteq> enqueue_pos t"
proof -
  have "case run_ops mpsc_do (demo_mpsc 1) two_logs of None \<Rightarrow> False | Some (es, s) \<Rightarrow> m_drain s = N_Pos"
    by code_simp
  then obtain es s where r: "run_ops mpsc_do (demo_mpsc 1) two_logs = Some (es, s)" "m_drain s = N_Pos"
    by (rule run_opsE)
  then have "m_drain_alone s M_Drain_Step (s\<lparr>m_drain := N_Seq (dequeue_pos s)\<rparr>)"
    by (simp add: m_drain_alone_def Mpsc_DrainLoop_step_def)
  then have d: "run m_drain_alone s [M_Drain_Step] (s\<lparr>m_drain := N_Seq (dequeue_pos s)\<rparr>)" by (rule run_single)
  from mpsc_capacity_one_loses_records [OF r(1) d] r(1) d show ?thesis by blast
qed

text \<open>A record can be lost at destruction: a \<open>Log\<close> call completes and publishes, the destructor
  then stops and joins the drain thread, which had found the ring empty just before, and the
  record is neither delivered nor counted by \<open>dropped()\<close>.\<close>

theorem mpsc_destructor_loses_record:
  "\<exists>es s. run mpsc_step (demo_mpsc 4) es s \<and> m_owner s = O_Destroyed
     \<and> m_outcomes 0 es = [M_Published 0 0 7 kInfo ''a''] \<and> m_delivered es = [] \<and> m_dropped s = 0"
proof -
  have "case run_ops mpsc_do (demo_mpsc 4) ([Drain_Action 0, Drain_Action 0] @ log_actions 0 kInfo ''a'' 0 7) of
      None \<Rightarrow> False
    | Some (es, s) \<Rightarrow> m_outcomes 0 es = [M_Published 0 0 7 kInfo ''a''] \<and> m_delivered es = [] \<and> m_dropped s = 0
        \<and> list_all (called_by 1) es \<and> producers s 0 = M_Idle \<and> m_owner s = O_Alive \<and> m_flusher s = F_Idle
        \<and> m_drain s = N_Running"
    by code_simp
  then obtain es s where r: "run mpsc_step (demo_mpsc 4) es s" and es: "m_outcomes 0 es = [M_Published 0 0 7 kInfo ''a'']"
    "m_delivered es = []" "m_dropped s = 0" "list_all (called_by 1) es" "producers s 0 = M_Idle"
    and s: "m_owner s = O_Alive" "m_flusher s = F_Idle" "m_drain s = N_Running"
    by (rule replayE) blast
  let ?s1 = "s\<lparr>m_running := False, m_owner := O_Joining\<rparr>"
  let ?s2 = "?s1\<lparr>m_drain := N_Flush\<rparr>" and ?s3 = "?s1\<lparr>m_drain := N_Done\<rparr>"
  let ?t = "?s3\<lparr>m_owner := O_Destroyed\<rparr>" and ?fs = "[M_Stop, M_Drain_Step, M_Sink_Flush, M_Joined]"
  have "mpsc_step s M_Stop ?s1" by (rule m_stop [OF s(1) all_idle [OF demo_mpsc_start r es(4,5)] s(2)])
  moreover have "mpsc_step ?s1 M_Drain_Step ?s2"
    by (rule mpsc_step.m_drain [of 0]) (simp add: Mpsc_DrainLoop_step_def s(3))
  moreover have "mpsc_step ?s2 M_Sink_Flush ?s3" by (rule mpsc_step.m_drain [of 0]) (simp add: Mpsc_DrainLoop_step_def)
  moreover have "mpsc_step ?s3 M_Joined ?t" by (rule m_join) simp_all
  ultimately have "run mpsc_step s ?fs ?t" by (auto intro!: run_cons [where step = mpsc_step] run_nil)
  from run_append [OF this r] have "run mpsc_step (demo_mpsc 4) (es @ ?fs) ?t" .
  with es(1-3) show ?thesis by (intro exI [of _ "es @ ?fs"] exI [of _ ?t]) simp
qed

end
