(* ===== verification/Mpsc_Progress.thy ===== *)
theory Mpsc_Progress
  imports Mpsc_Properties
begin

text \<open>
  Progress of \<open>MpscRtLogger\<close>: a producer that runs on its own finishes its call (the claim
  protocol is obstruction-free), a producer with a single competitor can lose every
  compare-and-swap (it is not wait-free), and the shutdown of the drain thread.
\<close>

section \<open>A producer on its own\<close>

text \<open>Steps of producer \<open>p\<close> alone, its loads returning the current values and its
  compare-and-swap not failing without reason.\<close>

definition m_log_load :: "nat \<Rightarrow> mpsc_logger \<Rightarrow> u64" where
  "m_log_load p s = (case producers s p of
     M_Load _ _ \<Rightarrow> enqueue_pos s
   | M_Seq _ _ pos \<Rightarrow> (case cell_of s pos of None \<Rightarrow> 0 | Some c \<Rightarrow> sequence c)
   | M_Cas _ _ _ \<Rightarrow> enqueue_pos s
   | _ \<Rightarrow> 0)"

definition m_cas_ok :: "nat \<Rightarrow> mpsc_logger \<Rightarrow> bool" where
  "m_cas_ok p s \<longleftrightarrow> (case producers s p of M_Cas _ _ pos \<Rightarrow> enqueue_pos s = pos | _ \<Rightarrow> False)"

definition m_log_alone :: "nat \<Rightarrow> mpsc_logger \<Rightarrow> mpsc_event \<Rightarrow> mpsc_logger \<Rightarrow> bool" where
  "m_log_alone p s e t \<longleftrightarrow> (\<exists>now. Mpsc_Log_step p (m_log_load p s) (m_cas_ok p s) now s = Some (e, t))"

definition solo_steps_left :: "u64 \<Rightarrow> mp_pc \<Rightarrow> nat" where
  "solo_steps_left enq pc = (case pc of
     M_Idle \<Rightarrow> 0 | M_Filter _ _ \<Rightarrow> 9 | M_Load _ _ \<Rightarrow> 8
   | M_Seq _ _ pos \<Rightarrow> if pos = enq then 7 else 9 | M_Cas _ _ pos \<Rightarrow> if pos = enq then 6 else 8
   | M_Drop \<Rightarrow> 1 | M_Time _ _ _ \<Rightarrow> 5 | M_Level _ _ _ _ \<Rightarrow> 4 | M_Format _ _ _ _ \<Rightarrow> 3 | M_Len _ _ _ _ _ \<Rightarrow> 2
   | M_Publish _ _ _ _ \<Rightarrow> 1)"

lemma m_log_alone_step: "m_log_alone p s e t \<Longrightarrow> mpsc_step s e t"
  by (auto simp: m_log_alone_def intro: mpsc_step.m_log)

lemma m_log_alone_run: "run (m_log_alone p) s es t \<Longrightarrow> run mpsc_step s es t"
  by (induction rule: run.induct) (auto intro: run.intros m_log_alone_step)

text \<open>The sequence number of a cell the enqueue position has not passed is not above it.\<close>

lemma sequence_at_enqueue:
  assumes "mpsc_at cs ln F s"
  shows "unat (sequence (cell_at (cells s) (length cs))) \<le> length cs"
proof -
  note a = mpsc_atD [OF assms] and c = cells_okD [OF mpsc_atD(1) [OF assms]] and l = lines_okD [OF mpsc_atD(3) [OF assms]]
  show ?thesis
  proof (cases "length cs < F + length (cells s)")
    case True
    then have "unat (sequence (cell_at (cells s) (length cs))) = (if ln (length cs) = None then length cs else Suc (length cs))"
      using a(2) l(6) unfolding seqs_ok_def by blast
    moreover have "ln (length cs) = None" using l(1) [of "length cs"] by (cases "ln (length cs)") auto
    ultimately show ?thesis by simp
  next
    case False
    then have e: "length cs = F + length (cells s)" using l(7) by simp
    then have "cell_at (cells s) (length cs) = cell_at (cells s) F" by (simp add: cell_at_def)
    moreover have "unat (sequence (cell_at (cells s) F)) \<le> Suc F"
      using a(2) c(3) unfolding seqs_ok_def by (auto dest!: spec [of _ F])
    ultimately show ?thesis using e c(1) by simp
  qed
qed

lemma m_log_alone_progress:
  assumes inv: "mpsc_inv es s" and small: "length (claims es) < 2 ^ 62" and busy: "producers s p \<noteq> M_Idle"
  obtains e t where "m_log_alone p s e t"
    and "solo_steps_left (enqueue_pos t) (producers t p) < solo_steps_left (enqueue_pos s) (producers s p)"
    and "owned (producers s p) \<noteq> None \<longrightarrow> claim_of e = [] \<and> (owned (producers t p) \<noteq> None \<or> producers t p = M_Idle)"
proof -
  note at = mpsc_invD(1) [OF inv small]
  note ok = mpsc_atD(1) [OF at]
  have enq: "unat (enqueue_pos s) = length (claims es)"
    using mpsc_atD(4) [OF at] small by (simp only:) (intro unat_of_nat_small, simp)
  have "\<exists>e t. m_log_alone p s e t
      \<and> solo_steps_left (enqueue_pos t) (producers t p) < solo_steps_left (enqueue_pos s) (producers s p)
      \<and> (owned (producers s p) \<noteq> None \<longrightarrow> claim_of e = [] \<and> (owned (producers t p) \<noteq> None \<or> producers t p = M_Idle))"
  proof (cases "producers s p")
    case (M_Seq level out pos)
    let ?v = "sequence (cell_at (cells s) (unat pos))"
    from mpsc_atD(5) [OF at, of p] M_Seq have pos: "unat pos \<le> length (claims es)" by (simp add: mp_ok_def)
    have "unat pos < 2 ^ 63" using pos small by (rule le_less_trans [OF _ less_trans]) simp
    moreover have "unat ?v < 2 ^ 63" by (rule seq_bound [OF mpsc_atD(2,3) [OF at] ok small])
    ultimately obtain d where d: "signed_diff ?v pos = Some d" "d < 0 \<longleftrightarrow> unat ?v < unat pos" "d = 0 \<longleftrightarrow> unat ?v = unat pos"
      using signed_diff_zero by blast
    have here: "d \<le> 0" if "pos = enqueue_pos s"
      using sequence_at_enqueue [OF at] d(2,3) that enq by fastforce
    let ?pc = "if d = 0 then M_Cas level out pos else if d < 0 then M_Drop else M_Load level out"
    have "m_log_alone p s (M_Step p) (set_pc p ?pc s)"
      using M_Seq d(1) seq_at_least_index [OF mpsc_atD(2) [OF at] ok]
      by (simp add: m_log_alone_def Mpsc_Log_step_def m_log_load_def cell_of_pos [OF ok])
    then show ?thesis
      using M_Seq here by (intro exI conjI) (assumption, auto simp: solo_steps_left_def owned_def)
  next
    case (M_Cas level out pos)
    show ?thesis
    proof (cases "enqueue_pos s = pos")
      case True
      with M_Cas have "m_log_alone p s (M_Claimed p level (slot_text kMaxMsgLen out))
          (set_pc p (M_Time level out pos) (s\<lparr>enqueue_pos := pos + 1\<rparr>))"
        by (simp add: m_log_alone_def Mpsc_Log_step_def m_cas_ok_def)
      with True M_Cas show ?thesis
        by (intro exI conjI) (assumption, auto simp: solo_steps_left_def owned_def)
    next
      case False
      with M_Cas have "m_log_alone p s (M_Step p) (set_pc p (M_Seq level out (enqueue_pos s)) s)"
        by (simp add: m_log_alone_def Mpsc_Log_step_def m_cas_ok_def m_log_load_def)
      with False M_Cas show ?thesis
        by (intro exI conjI) (assumption, auto simp: solo_steps_left_def owned_def)
    qed
  next
    case (M_Format level out pos time)
    from FormatInto_slot_text [OF cells_okD(4) [OF ok, of "unat pos"], where outcome = out] obtain m n where
      f: "FormatInto (cell_msg (cell_at (cells s) (unat pos))) kMaxMsgLen out = Some (m, n)"
      by (auto simp: kMaxMsgLen_def)
    with M_Format show ?thesis
      by (auto simp: m_log_alone_def Mpsc_Log_step_def format_cell_def cell_of_pos [OF ok] with_cell_pos [OF ok]
          solo_steps_left_def owned_def)
  next
    case (M_Filter level out)
    then show ?thesis
      by (auto simp: m_log_alone_def Mpsc_Log_step_def m_log_load_def solo_steps_left_def owned_def)
  qed (use busy in \<open>auto simp: m_log_alone_def Mpsc_Log_step_def m_log_load_def with_cell_pos [OF ok]
      solo_steps_left_def owned_def\<close>)
  with that show ?thesis by blast
qed

lemma m_log_alone_finishes:
  assumes "mpsc_inv es s" and "length (claims es) + (if owned (producers s p) = None then 1 else 0) < 2 ^ 62"
  shows "\<exists>fs t. run (m_log_alone p) s fs t \<and> producers t p = M_Idle
    \<and> length fs \<le> solo_steps_left (enqueue_pos s) (producers s p) \<and> (owned (producers s p) \<noteq> None \<longrightarrow> claims fs = [])"
  using assms
proof (induction "solo_steps_left (enqueue_pos s) (producers s p)" arbitrary: es s rule: less_induct)
  case less
  show ?case
  proof (cases "producers s p = M_Idle")
    case True
    then show ?thesis by (intro exI [of _ "[]"] exI [of _ s]) (simp add: run_nil)
  next
    case False
    have small: "length (claims es) < 2 ^ 62" using less.prems(2) by (simp split: if_splits)
    obtain e t where et: "m_log_alone p s e t"
      and dec: "solo_steps_left (enqueue_pos t) (producers t p) < solo_steps_left (enqueue_pos s) (producers s p)"
      and own: "owned (producers s p) \<noteq> None \<longrightarrow> claim_of e = [] \<and> (owned (producers t p) \<noteq> None \<or> producers t p = M_Idle)"
      by (rule m_log_alone_progress [OF less.prems(1) small False])
    have inv: "mpsc_inv (es @ [e]) t" by (rule mpsc_inv_step [OF less.prems(1) m_log_alone_step [OF et]])
    show ?thesis
    proof (cases "producers t p = M_Idle")
      case True
      with et dec own show ?thesis
        by (intro exI [of _ "[e]"] exI [of _ t]) (auto intro: run_single)
    next
      case busy: False
      from et obtain now where "Mpsc_Log_step p (m_log_load p s) (m_cas_ok p s) now s = Some (e, t)"
        by (auto simp: m_log_alone_def)
      from Mpsc_Log_step_owned [OF this]
      have "length (claims (es @ [e])) + (if owned (producers t p) = None then 1 else 0) < 2 ^ 62"
        using less.prems(2) own busy by (auto split: if_splits)
      from less.hyps [OF dec inv this] obtain fs u where
        r: "run (m_log_alone p) t fs u" "producers u p = M_Idle"
        "length fs \<le> solo_steps_left (enqueue_pos t) (producers t p)" "owned (producers t p) \<noteq> None \<longrightarrow> claims fs = []" by blast
      with dec own busy run_cons [where step = "m_log_alone p", OF et r(1)] show ?thesis
        by (intro exI [of _ "e # fs"] exI [of _ u]) auto
    qed
  qed
qed

lemma Mpsc_Log_step_calls:
  assumes "Mpsc_Log_step p v ok now s = Some (e, t)"
  shows "m_call_of q e = [] \<and> called_by n e \<and> m_min_level t = m_min_level s"
  using assms
  by (cases "producers s p")
    (auto simp: Mpsc_Log_step_def with_cell_def format_cell_def set_cell_def split: if_splits option.splits prod.splits)

lemma m_log_alone_frame:
  "run (m_log_alone p) s es t \<Longrightarrow> (\<forall>q. q \<noteq> p \<longrightarrow> producers t q = producers s q) \<and> m_calls q es = []
     \<and> list_all (called_by n) es \<and> m_owner t = m_owner s \<and> m_running t = m_running s \<and> m_min_level t = m_min_level s"
proof (induction rule: run.induct)
  case (run_snoc s es t e u)
  then obtain now where "Mpsc_Log_step p (m_log_load p t) (m_cas_ok p t) now t = Some (e, u)" by (auto simp: m_log_alone_def)
  with run_snoc Mpsc_Log_step_frame [OF this] Mpsc_Log_step_calls [OF this] Mpsc_Log_step_other [OF this] show ?case
    by simp
qed simp

section \<open>Losing the compare-and-swap again and again\<close>

text \<open>
  Producer 0 is about to claim the position everybody is at; a competitor claims it first, so
  its compare-and-swap fails and it comes back at the next position: \<open>n\<close> times.
\<close>

inductive loses :: "nat \<Rightarrow> mpsc_logger \<Rightarrow> mpsc_event list \<Rightarrow> mpsc_logger \<Rightarrow> bool" where
  loses_none: "loses 0 s [] s"
| loses_again: "loses n s es t \<Longrightarrow> producers t 0 = M_Cas level out pos \<Longrightarrow> enqueue_pos t = pos \<Longrightarrow>
    run mpsc_step t fs u \<Longrightarrow> claims fs = [(1, level', txt)] \<Longrightarrow> m_calls 0 fs = [] \<Longrightarrow>
    producers u 0 = M_Cas level out (pos + 1) \<Longrightarrow> loses (Suc n) s (es @ fs) u"

definition at_cas :: "LogLevel \<Rightarrow> fmt_outcome \<Rightarrow> mpsc_logger \<Rightarrow> bool" where
  "at_cas level out s \<longleftrightarrow> producers s 0 = M_Cas level out (enqueue_pos s) \<and> (\<forall>p. p \<noteq> 0 \<longrightarrow> producers s p = M_Idle)
     \<and> m_owner s = O_Alive \<and> m_running s \<and> m_min_level s \<le> kInfo"

lemma sequence_when_drained:
  assumes "mpsc_inv es s" and "length (claims es) < 2 ^ 62" and "m_unread es s = 0"
  shows "\<exists>c. cell_of s (enqueue_pos s) = Some c \<and> sequence c = enqueue_pos s"
    and "signed_diff (enqueue_pos s) (enqueue_pos s) = Some 0" and "enqueue_pos s = of_nat (length (claims es))"
proof -
  note at = mpsc_invD(1) [OF assms(1,2)]
  note ok = mpsc_atD(1) [OF at] and l = lines_okD [OF mpsc_atD(3) [OF at]]
  let ?F = "m_freed (m_drain s) (length (m_delivered es))" and ?P = "length (claims es)"
  show e: "enqueue_pos s = of_nat ?P" by (rule mpsc_atD(4) [OF at])
  have "?P < 2 ^ 64" using assms(2) by simp
  then have enq: "unat (enqueue_pos s) = ?P" unfolding e by (rule unat_of_nat_small)
  have get: "cell_of s (enqueue_pos s) = Some (cell_at (cells s) ?P)" by (simp only: cell_of_pos [OF ok] enq)
  have F: "?F = ?P" using assms(3) l(6) by (simp add: m_unread_def)
  moreover have "line_at es ?P = None" using l(1) [of ?P] by (cases "line_at es ?P") auto
  ultimately have "unat (sequence (cell_at (cells s) ?P)) = ?P"
    using mpsc_atD(2) [OF at] cells_okD(3) [OF ok] by (simp add: seqs_ok_def)
  then show "\<exists>c. cell_of s (enqueue_pos s) = Some c \<and> sequence c = enqueue_pos s"
    using get by (simp add: word_unat_eq_iff enq)
  have "unat (enqueue_pos s) < 2 ^ 63" unfolding enq using assms(2) by simp
  from signed_diff_zero [OF this this] show "signed_diff (enqueue_pos s) (enqueue_pos s) = Some 0" by auto
qed

lemma set_pc_again [simp]: "set_pc p b (set_pc p a s) = set_pc p b s"
  by (simp add: set_pc_def)

text \<open>The competitor's call up to its claim, with room in the ring.\<close>

lemma competitor_claims:
  assumes inv: "mpsc_inv es s" and small: "length (claims es) < 2 ^ 62" and none: "m_unread es s = 0"
    and at: "at_cas level out s"
  shows "run mpsc_step s (M_Call 1 kInfo (Formatted ''b'') # replicate 3 (M_Step 1) @ [M_Claimed 1 kInfo ''b''])
    (set_pc 1 (M_Time kInfo (Formatted ''b'') (enqueue_pos s)) (s\<lparr>enqueue_pos := enqueue_pos s + 1\<rparr>))"
proof -
  note q = sequence_when_drained [OF inv small none]
  let ?e = "enqueue_pos s" and ?o = "Formatted ''b''"
  from q(1) obtain c where get: "cell_of s ?e = Some c" "sequence c = ?e" by blast
  have same: "cell_of (set_pc p pc s) ?e = cell_of s ?e" for p pc by (simp add: cell_of_def)
  have "slot_text kMaxMsgLen ?o = ''b''" by (simp add: slot_text_def kMaxMsgLen_def)
  note steps = Mpsc_Log_step_def get same q(2) this
  have "mpsc_step s (M_Call 1 kInfo ?o) (set_pc 1 (M_Filter kInfo ?o) s)"
    by (rule m_call) (use at in \<open>simp_all add: at_cas_def\<close>)
  moreover have "mpsc_step (set_pc 1 (M_Filter kInfo ?o) s) (M_Step 1) (set_pc 1 (M_Load kInfo ?o) s)"
    by (rule m_log [of 1 0 False 0]) (use at in \<open>simp add: steps at_cas_def m_visible_levels_def not_less\<close>)
  moreover have "mpsc_step (set_pc 1 (M_Load kInfo ?o) s) (M_Step 1) (set_pc 1 (M_Seq kInfo ?o ?e) s)"
    by (rule m_log [of 1 ?e False 0]) (simp add: steps)
  moreover have "mpsc_step (set_pc 1 (M_Seq kInfo ?o ?e) s) (M_Step 1) (set_pc 1 (M_Cas kInfo ?o ?e) s)"
    by (rule m_log [of 1 ?e False 0]) (simp add: steps word_and_le2)
  moreover have "mpsc_step (set_pc 1 (M_Cas kInfo ?o ?e) s) (M_Claimed 1 kInfo ''b'')
      (set_pc 1 (M_Time kInfo ?o ?e) (s\<lparr>enqueue_pos := ?e + 1\<rparr>))"
    by (rule m_log [of 1 0 True 0]) (simp add: steps, simp add: set_pc_def)
  ultimately show ?thesis
    by (auto simp: numeral_eq_Suc intro!: run_cons [where step = mpsc_step] run_nil)
qed

text \<open>Producer 0 finds the position taken and comes back at the next one.\<close>

lemma loser_returns:
  assumes inv: "mpsc_inv es s" and small: "length (claims es) < 2 ^ 62" and none: "m_unread es s = 0"
    and pc: "producers s 0 = M_Cas level out pos" and taken: "pos \<noteq> enqueue_pos s"
  shows "run mpsc_step s [M_Step 0, M_Step 0] (set_pc 0 (M_Cas level out (enqueue_pos s)) s)"
proof -
  note q = sequence_when_drained [OF inv small none]
  let ?e = "enqueue_pos s"
  from q(1) obtain c where get: "cell_of s ?e = Some c" "sequence c = ?e" by blast
  have same: "cell_of (set_pc p pc s) ?e = cell_of s ?e" for p pc by (simp add: cell_of_def)
  have "mpsc_step s (M_Step 0) (set_pc 0 (M_Seq level out ?e) s)"
    by (rule m_log [of 0 ?e False 0]) (simp add: Mpsc_Log_step_def pc)
  moreover have "mpsc_step (set_pc 0 (M_Seq level out ?e) s) (M_Step 0) (set_pc 0 (M_Cas level out ?e) s)"
    by (rule m_log [of 0 ?e False 0]) (simp add: Mpsc_Log_step_def get same q(2) word_and_le2)
  ultimately show ?thesis by (auto intro!: run_cons [where step = mpsc_step] run_nil)
qed

text \<open>One round: the competitor's whole call, the drain thread catching up, the failed retry.\<close>

lemma losing_round:
  assumes start: "mpsc_start s0" and r: "run mpsc_step s0 es s" and small: "Suc (length (claims es)) < 2 ^ 62"
    and none: "m_unread es s = 0" and at: "at_cas level out s"
  shows "\<exists>fs u. run mpsc_step s fs u \<and> claims fs = [(1, kInfo, ''b'')] \<and> m_calls 0 fs = [] \<and> list_all (called_by 2) fs
    \<and> m_unread (es @ fs) u = 0 \<and> at_cas level out u \<and> enqueue_pos u = enqueue_pos s + 1"
proof -
  let ?e = "enqueue_pos s" and ?o = "Formatted ''b''"
  let ?s1 = "set_pc 1 (M_Time kInfo ?o ?e) (s\<lparr>enqueue_pos := ?e + 1\<rparr>)"
  let ?f1 = "M_Call 1 kInfo ?o # replicate 3 (M_Step 1) @ [M_Claimed 1 kInfo ''b'']"
  have inv: "mpsc_inv es s" by (rule mpsc.inv_run [OF r start])
  have r1: "run mpsc_step s ?f1 ?s1" by (rule competitor_claims [OF inv _ none at]) (use small in simp)
  have R1: "run mpsc_step s0 (es @ ?f1) ?s1" by (rule run_append [OF r1 r])
  have f1: "claims ?f1 = [(1, kInfo, ''b'')]" "m_calls 0 ?f1 = []" "list_all (called_by 2) ?f1"
    by (simp_all add: numeral_3_eq_3)
  then have c1: "length (claims (es @ ?f1)) < 2 ^ 62" "claims ?f1 = [(1, kInfo, ''b'')]"
    using small by (simp_all only: claims_simps length_append list.size add_Suc_right add_0_right)
  have "mpsc_inv (es @ ?f1) ?s1" by (rule mpsc.inv_run [OF R1 start])
  from m_log_alone_finishes [OF this, of 1] c1 obtain f2 s2 where
    r2: "run (m_log_alone 1) ?s1 f2 s2" "producers s2 1 = M_Idle" "claims f2 = []" by (auto simp: owned_def)
  note fr2 = m_log_alone_frame [OF r2(1)]
  have R2: "run mpsc_step s0 ((es @ ?f1) @ f2) s2" by (rule run_append [OF m_log_alone_run [OF r2(1)] R1])
  have idle2: "\<forall>p. owned (producers s2 p) = None"
  proof
    fix p
    show "owned (producers s2 p) = None"
      using r2(2) fr2 at by (cases "p = 1"; cases "p = 0") (auto simp: at_cas_def owned_def)
  qed
  have live: "mpsc_live_inv ((es @ ?f1) @ f2) s2" by (rule mpsc_live.inv_run [OF R2 start])
  have small2: "length (claims ((es @ ?f1) @ f2)) < 2 ^ 62" using c1 r2(3) by simp
  have "m_running s2 \<or> m_reads_on (m_drain s2)" using fr2 at by (simp add: at_cas_def)
  from m_drain_alone_finishes [OF live small2 idle2 this] obtain f3 s3 where
    r3: "run m_drain_alone s2 f3 s3" "m_unread (((es @ ?f1) @ f2) @ f3) s3 = 0" by blast
  note fr3 = m_drain_alone_frame [OF r3(1)]
  let ?g = "((es @ ?f1) @ f2) @ f3"
  have R3: "run mpsc_step s0 ?g s3" by (rule run_append [OF m_drain_alone_run [OF r3(1)] R2])
  have inv3: "mpsc_inv ?g s3" by (rule mpsc.inv_run [OF R3 start])
  have c3: "claims ?g = claims es @ [(1, kInfo, ''b'')]" using c1 r2(3) fr3 by simp
  have small3: "length (claims ?g) < 2 ^ 62" unfolding c3 using small by simp
  have "enqueue_pos s = of_nat (length (claims es))" "enqueue_pos s3 = of_nat (length (claims ?g))"
    using sequence_when_drained(3) [OF inv _ none] small sequence_when_drained(3) [OF inv3 small3 r3(2)] by simp_all
  then have e3: "enqueue_pos s3 = ?e + 1" unfolding c3 by simp
  have p0: "producers s3 0 = M_Cas level out ?e" using fr3 fr2 at by (simp add: at_cas_def)
  let ?u = "set_pc 0 (M_Cas level out (enqueue_pos s3)) s3"
  have r4: "run mpsc_step s3 [M_Step 0, M_Step 0] ?u"
    by (rule loser_returns [OF inv3 small3 r3(2) p0]) (simp add: e3)
  have "run mpsc_step s (?f1 @ f2 @ f3 @ [M_Step 0, M_Step 0]) ?u"
    using run_append [OF r4 run_append [OF m_drain_alone_run [OF r3(1)]
        run_append [OF m_log_alone_run [OF r2(1)] r1]]] by simp
  moreover have "producers s3 p = M_Idle" if "p \<noteq> 0" for p
    using that at fr2 fr3 r2(2) by (cases "p = 1") (simp_all add: at_cas_def)
  then have "at_cas level out ?u" using at fr2 fr3 by (simp add: at_cas_def)
  moreover have "m_unread (es @ ?f1 @ f2 @ f3 @ [M_Step 0, M_Step 0]) ?u = 0"
    using r3(2) by (simp add: m_unread_def)
  moreover have "claims (?f1 @ f2 @ f3 @ [M_Step 0, M_Step 0]) = [(1, kInfo, ''b'')]" using c1 r2(3) fr3 by simp
  moreover have "list_all (called_by 2) (?f1 @ f2 @ f3 @ [M_Step 0, M_Step 0])"
    using fr2 fr3 f1 by simp
  moreover have "m_calls 0 (?f1 @ f2 @ f3 @ [M_Step 0, M_Step 0]) = []"
    using fr2 fr3 f1 by simp
  moreover have "enqueue_pos ?u = ?e + 1" by (simp add: e3)
  ultimately show ?thesis by (intro exI conjI)
qed

lemma losing_rounds:
  assumes start: "mpsc_start s0" and r: "run mpsc_step s0 es s" and none: "m_unread es s = 0" and at: "at_cas level out s"
  shows "length (claims es) + n < 2 ^ 62 \<Longrightarrow> \<exists>fs u. loses n s fs u \<and> run mpsc_step s fs u \<and> length (claims fs) = n
    \<and> list_all (called_by 2) fs \<and> m_unread (es @ fs) u = 0 \<and> at_cas level out u \<and> enqueue_pos u = enqueue_pos s + of_nat n"
proof (induction n)
  case 0
  with none at show ?case by (intro exI [of _ "[]"] exI [of _ s]) (simp add: loses_none run_nil)
next
  case (Suc n)
  then obtain fs u where u: "loses n s fs u" "run mpsc_step s fs u" "length (claims fs) = n" "list_all (called_by 2) fs"
    "m_unread (es @ fs) u = 0" "at_cas level out u" "enqueue_pos u = enqueue_pos s + of_nat n" by auto
  have R: "run mpsc_step s0 (es @ fs) u" by (rule run_append [OF u(2) r])
  have "Suc (length (claims (es @ fs))) < 2 ^ 62" using Suc.prems u(3) by simp
  from losing_round [OF start R this u(5,6)] obtain gs v where
    v: "run mpsc_step u gs v" "claims gs = [(1, kInfo, ''b'')]" "m_calls 0 gs = []" "list_all (called_by 2) gs"
      "m_unread ((es @ fs) @ gs) v = 0" "at_cas level out v" "enqueue_pos v = enqueue_pos u + 1" by blast
  have "loses (Suc n) s (fs @ gs) v"
    by (rule loses_again [OF u(1) _ refl v(1,2,3)]) (use u(6) v(6,7) in \<open>simp_all add: at_cas_def\<close>)
  with run_append [OF v(1) u(2)] u v show ?case
    by (intro exI [of _ "fs @ gs"] exI [of _ v]) (simp add: algebra_simps)
qed

section \<open>Properties\<close>

text \<open>C13. The claim protocol is obstruction-free: from every reachable state, whatever the other
  producers and the drain thread were in the middle of, a producer that from then on runs on its
  own finishes its call within 9 steps, and the call has one outcome (filtered, dropped, or
  published with its level and text) like every call before it.\<close>

theorem mpsc_obstruction_free:
  assumes "mpsc_start s0" and "run mpsc_step s0 es s" and "Suc (length (claims es)) < 2 ^ 62"
  shows "\<exists>fs t. run (m_log_alone p) s fs t \<and> producers t p = M_Idle \<and> length fs \<le> 9
    \<and> list_all2 m_outcome_matches (m_calls p es) (m_outcomes p (es @ fs))"
proof -
  have inv: "mpsc_inv es s" by (rule mpsc.inv_run [OF assms(2,1)])
  have "length (claims es) + (if owned (producers s p) = None then 1 else 0) < 2 ^ 62" using assms(3) by simp
  from m_log_alone_finishes [OF inv this] obtain fs t where
    r: "run (m_log_alone p) s fs t" and t: "producers t p = M_Idle"
    and n: "length fs \<le> solo_steps_left (enqueue_pos s) (producers s p)" by blast
  have "solo_steps_left e pc \<le> 9" for e pc by (cases pc) (simp_all add: solo_steps_left_def)
  then have n': "length fs \<le> 9" using n order_trans by blast
  have "run mpsc_step s0 (es @ fs) t" by (rule run_append [OF m_log_alone_run [OF r] assms(2)])
  from mpsc_log_complete [OF assms(1) this t] m_log_alone_frame [OF r] n' r t show ?thesis
    by (intro exI [of _ fs] exI [of _ t]) simp
qed

theorem mpsc_obstruction_free_witness:
  "\<exists>es s fs t. run mpsc_step (demo_mpsc 4) es s \<and> producers s 0 = M_Cas kInfo (Formatted ''a'') 0
     \<and> claims es = [(1, kWarn, ''b'')] \<and> run (m_log_alone 0) s fs t \<and> producers t 0 = M_Idle \<and> length fs \<le> 9"
proof -
  have "case run_ops mpsc_do (demo_mpsc 4) ([Call_Log 0 kInfo ''a'', Log_Action 0 0 False 0, Log_Action 0 0 False 0,
        Log_Action 0 0 False 0] @ log_until_claim 1 kWarn ''b'' 0) of
      None \<Rightarrow> False
    | Some (es, s) \<Rightarrow> producers s 0 = M_Cas kInfo (Formatted ''a'') 0 \<and> claims es = [(1, kWarn, ''b'')]"
    by code_simp
  then obtain es s where r: "run mpsc_step (demo_mpsc 4) es s" and s: "producers s 0 = M_Cas kInfo (Formatted ''a'') 0"
    "claims es = [(1, kWarn, ''b'')]" by (rule replayE) blast
  have "Suc (length (claims es)) < 2 ^ 62" using s(2) by simp
  from mpsc_obstruction_free [OF demo_mpsc_start r this, of 0] r s show ?thesis by blast
qed

text \<open>C16. Retries are not bounded by the number of competing producers: with a single competing
  producer, for every \<open>n\<close> (below the bound of the model) there is a run in which one call of
  producer 0 fails its compare-and-swap \<open>n\<close> times, each time because the other producer has
  claimed exactly the position it was about to claim, and is then about to try for the
  \<open>n + 1\<close>-st time, while the drain thread keeps the ring empty.\<close>

theorem mpsc_retries_unbounded:
  assumes "n < 2 ^ 62"
  shows "\<exists>es s fs t. run mpsc_step (demo_mpsc 4) es s \<and> m_calls 0 (es @ fs) = [(kInfo, Formatted ''a'')]
    \<and> loses n s fs t \<and> run mpsc_step s fs t \<and> length (claims fs) = n \<and> list_all (called_by 2) (es @ fs)
    \<and> producers t 0 = M_Cas kInfo (Formatted ''a'') (of_nat n) \<and> m_unread (es @ fs) t = 0"
proof -
  have "case run_ops mpsc_do (demo_mpsc 4) [Call_Log 0 kInfo ''a'', Log_Action 0 0 False 0, Log_Action 0 0 False 0,
        Log_Action 0 0 False 0] of
      None \<Rightarrow> False
    | Some (es, s) \<Rightarrow> producers s 0 = M_Cas kInfo (Formatted ''a'') 0 \<and> claims es = [] \<and> enqueue_pos s = 0
        \<and> list_all (called_by 1) es \<and> m_owner s = O_Alive \<and> m_running s \<and> m_min_level s = kInfo
        \<and> m_calls 0 es = [(kInfo, Formatted ''a'')]"
    by code_simp
  then obtain es s where r: "run mpsc_step (demo_mpsc 4) es s" and s: "producers s 0 = M_Cas kInfo (Formatted ''a'') 0"
    "claims es = []" "enqueue_pos s = 0" "list_all (called_by 1) es" "m_owner s = O_Alive" "m_running s"
    "m_min_level s = kInfo" "m_calls 0 es = [(kInfo, Formatted ''a'')]" by (rule replayE) blast
  have "producers s p = M_Idle" if "p \<noteq> 0" for p
    using idle_without_calls [OF demo_mpsc_start r called_by_none [OF s(4), of p]] that by simp
  then have at: "at_cas kInfo (Formatted ''a'') s" using s by (simp add: at_cas_def)
  have none: "m_unread es s = 0" using s(2) by (simp add: m_unread_def)
  from losing_rounds [OF demo_mpsc_start r none at, of n] assms s(2) obtain fs u where
    u: "loses n s fs u" "run mpsc_step s fs u" "length (claims fs) = n" "list_all (called_by 2) fs"
      "m_unread (es @ fs) u = 0" "at_cas kInfo (Formatted ''a'') u" "enqueue_pos u = of_nat n"
    using s(3) by auto
  have "m_calls 0 fs = []" using u(1) by induction simp_all
  moreover have "list_all (called_by 2) es" using s(4) by (rule called_by_more) simp
  ultimately show ?thesis using r u s(8) by (intro exI [of _ es] exI [of _ s] exI [of _ fs] exI [of _ u]) (simp add: at_cas_def)
qed

theorem mpsc_retries_unbounded_witness:
  "\<exists>es s fs t. run mpsc_step (demo_mpsc 4) es s \<and> m_calls 0 (es @ fs) = [(kInfo, Formatted ''a'')] \<and> loses 3 s fs t"
  using mpsc_retries_unbounded [of 3] by auto

text \<open>C14. Shutdown of the drain thread: once the destructor has cleared the flag (no producer is
  then inside a call), the thread on its own leaves its loop within 8 steps per waiting record
  and at most 15 more. If it was not, when the flag went down, between the load that found the
  next cell unpublished and the load of \<open>running_\<close>, every claimed record has been handed to the
  sink; if it was, it hands over nothing any more.\<close>

theorem mpsc_shutdown:
  assumes "mpsc_start s0" and "run mpsc_step s0 es s" and "length (claims es) < 2 ^ 62"
    and "\<forall>p. producers s p = M_Idle" and "\<not> m_running s"
  shows "\<exists>fs t. run m_drain_alone s fs t \<and> m_drain t = N_Done \<and> length fs \<le> 8 * m_unread es s + 15
    \<and> (if m_reads_on (m_drain s) then map snd (m_delivered (es @ fs)) = map claim_line (claims es)
       else m_delivered fs = [])"
proof (cases "m_reads_on (m_drain s)")
  case False
  have "mpsc_inv es s" by (rule mpsc.inv_run [OF assms(2,1)])
  from m_drain_alone_leaves [OF this assms(3,5)] False obtain fs t where
    "run m_drain_alone s fs t" "m_drain t = N_Done" "length fs \<le> 5" "m_delivered fs = []" by blast
  with False show ?thesis by (intro exI [of _ fs] exI [of _ t]) simp
next
  case True
  have live: "mpsc_live_inv es s" by (rule mpsc_live.inv_run [OF assms(2,1)])
  have "\<forall>p. owned (producers s p) = None" using assms(4) by (simp add: owned_def)
  from m_drain_alone_finishes [OF live assms(3) this disjI2 [OF True]] obtain fs u where
    r: "run m_drain_alone s fs u" and u: "m_unread (es @ fs) u = 0"
    and n: "length fs \<le> 8 * m_unread es s + m_drain_steps_left (m_drain s)" by blast
  note fr = m_drain_alone_frame [OF r]
  have "run mpsc_step s0 (es @ fs) u" by (rule run_append [OF m_drain_alone_run [OF r] assms(2)])
  then have inv': "mpsc_inv (es @ fs) u" using assms(1) by (rule mpsc.inv_run)
  have small: "length (claims (es @ fs)) < 2 ^ 62" using assms(3) fr by simp
  from m_drain_alone_leaves [OF inv' small] assms(5) fr u obtain gs t where
    g: "run m_drain_alone u gs t" "m_drain t = N_Done" "length gs \<le> 5" "m_delivered gs = []" by auto
  have "map snd (m_delivered (es @ fs @ gs)) = map claim_line (claims es)"
    using delivered_all [OF inv' small u] fr g(4) by simp
  moreover have "m_drain_steps_left (m_drain s) \<le> 10" by (simp add: m_drain_steps_left_def split: md_pc.splits)
  then have "length (fs @ gs) \<le> 8 * m_unread es s + 15" using n g(3) by simp
  ultimately show ?thesis
    using run_append [OF g(1) r] g(2) True by (intro exI [of _ "fs @ gs"] exI [of _ t]) simp
qed

theorem mpsc_shutdown_witness:
  "\<exists>es s fs t. run mpsc_step (demo_mpsc 4) (es @ [M_Stop]) s \<and> claims es = [(0, kInfo, ''a'')]
     \<and> run m_drain_alone s fs t \<and> m_drain t = N_Done \<and> map snd (m_delivered ((es @ [M_Stop]) @ fs)) = [(spd_info, ''a'')]"
proof -
  have "case run_ops mpsc_do (demo_mpsc 4) (log_actions 0 kInfo ''a'' 0 7) of
      None \<Rightarrow> False
    | Some (es, s) \<Rightarrow> claims es = [(0, kInfo, ''a'')] \<and> list_all (called_by 1) es \<and> producers s 0 = M_Idle
        \<and> m_owner s = O_Alive \<and> m_flusher s = F_Idle \<and> m_drain s = N_Pos"
    by code_simp
  then obtain es s where r: "run mpsc_step (demo_mpsc 4) es s" and es: "claims es = [(0, kInfo, ''a'')]"
    "list_all (called_by 1) es" "producers s 0 = M_Idle" and s: "m_owner s = O_Alive" "m_flusher s = F_Idle" "m_drain s = N_Pos"
    by (rule replayE) blast
  note idle = all_idle [OF demo_mpsc_start r es(2,3)]
  let ?t = "s\<lparr>m_running := False, m_owner := O_Joining\<rparr>"
  have rt: "run mpsc_step (demo_mpsc 4) (es @ [M_Stop]) ?t" by (rule run_snoc [OF r], rule m_stop [OF s(1) idle s(2)])
  have "length (claims (es @ [M_Stop])) < 2 ^ 62" using es(1) by simp
  from mpsc_shutdown [OF demo_mpsc_start rt this] idle s(3) obtain fs t where
    "run m_drain_alone ?t fs t" "m_drain t = N_Done"
    "map snd (m_delivered ((es @ [M_Stop]) @ fs)) = map claim_line (claims es)"
    by (auto simp: m_reads_on_def)
  with rt es(1) show ?thesis
    by (intro exI [of _ es] exI [of _ ?t] exI [of _ fs] exI [of _ t]) (simp add: claim_line_def ToSpdlogLevel_def)
qed

end
