(* ===== verification/Rt_Files.thy ===== *)
theory Rt_Files
  imports Rt_Logger Mpsc_Logger
begin

text \<open>
  The constructors of the two real-time loggers whole, with their sinks. A file that cannot be
  opened makes the constructor of spdlog's file sink throw; the exception leaves the constructor
  of the logger before its drain thread is started, so that no logger comes into being. Both
  classes name their files in the same way.
\<close>

section \<open>Constructors with their exception\<close>

definition file_refused :: "(string \<Rightarrow> bool) \<Rightarrow> sink_config \<Rightarrow> string option" where
  "file_refused opens c =
     List.find (\<lambda>path. \<not> opens path) (List.map_filter (\<lambda>k. case k of Basic_File_Sink path \<Rightarrow> Some path | _ \<Rightarrow> None) (sinks c))"

text \<open>\<open>None\<close> when the rounding loop does not end, \<open>Inl\<close> the file that could not be opened.\<close>

definition RtLogger_try :: "(string \<Rightarrow> bool) \<Rightarrow> environment \<Rightarrow> tm \<Rightarrow> string \<Rightarrow> u64 \<Rightarrow> bool \<Rightarrow> string list \<Rightarrow>
    (string + sink_config \<times> rt_logger) option" where
  "RtLogger_try opens env now name ring_capacity log_to_file garbage =
     (case RtLogger env ring_capacity garbage of
        None \<Rightarrow> None
      | Some s \<Rightarrow>
          let c = RtLogger_sink env now name log_to_file
          in Some (case file_refused opens c of Some path \<Rightarrow> Inl path | None \<Rightarrow> Inr (c, s)))"

definition MpscRtLogger_try :: "(string \<Rightarrow> bool) \<Rightarrow> environment \<Rightarrow> tm \<Rightarrow> string \<Rightarrow> u64 \<Rightarrow> bool \<Rightarrow> string list \<Rightarrow>
    (string + sink_config \<times> mpsc_logger) option" where
  "MpscRtLogger_try opens env now name ring_capacity log_to_file garbage =
     (case MpscRtLogger env ring_capacity garbage of
        None \<Rightarrow> None
      | Some s \<Rightarrow>
          let c = MpscRtLogger_sink env now name log_to_file
          in Some (case file_refused opens c of Some path \<Rightarrow> Inl path | None \<Rightarrow> Inr (c, s)))"

section \<open>The files of a process\<close>

lemma file_refused_sink:
  "file_refused opens (rt_sink_config env now name suffix log_to_file)
     = (if log_to_file \<and> \<not> opens (CreateLogNameWithFullPath env now name ''.rt.log'')
        then Some (CreateLogNameWithFullPath env now name ''.rt.log'') else None)"
  by (simp add: file_refused_def rt_sink_config_def map_filter_simps)

lemma rt_sink_file:
  "Basic_File_Sink path \<in> set (sinks (rt_sink_config env now name suffix log_to_file))
     \<longleftrightarrow> log_to_file \<and> path = CreateLogNameWithFullPath env now name ''.rt.log''"
  by (auto simp: rt_sink_config_def)

text \<open>A name is determined by its prefix and time, and the name of a log file never ends like that
  of a real-time log file, because the time stamp before \<open>.log\<close> ends in a digit.\<close>

lemma full_name_inject:
  assumes "valid_tm t" and "valid_tm u"
  shows "CreateLogNameWithFullPath env t a suffix = CreateLogNameWithFullPath env u b suffix \<longleftrightarrow> a = b \<and> t = u"
proof
  assume eq: "CreateLogNameWithFullPath env t a suffix = CreateLogNameWithFullPath env u b suffix"
  note len = length_stamp [OF assms(1)] length_stamp [OF assms(2)]
  let ?s = "\<lambda>t. ''-'' @ strftime_Ymd t @ ''-'' @ strftime_HMS t"
  from eq have day: "strftime_Ymd t = strftime_Ymd u" and eq': "a @ ?s t = b @ ?s u"
    by (simp_all add: CreateLogNameWithFullPath_def Let_def append_eq_append_conv len)
  have "length a = length b \<or> length (?s t) = length (?s u)" by (simp add: len)
  from iffD1 [OF append_eq_append_conv [OF this] eq'] have "a = b" and "?s t = ?s u" by simp_all
  with strftime_inject [OF assms day] day show "a = b \<and> t = u" by simp
qed simp

lemma full_name_suffix: "CreateLogNameWithFullPath env t a ''.rt.log'' \<noteq> CreateLogNameWithFullPath env u b ''.log''"
proof
  assume eq: "CreateLogNameWithFullPath env t a ''.rt.log'' = CreateLogNameWithFullPath env u b ''.log''"
  define xs where "xs = GetDefaultLogPath env @ ''/'' @ strftime_Ymd t @ ''/'' @ a @ ''-'' @ strftime_Ymd t @ ''-'' @ strftime_HMS t @ ''.r''"
  define ys where "ys = GetDefaultLogPath env @ ''/'' @ strftime_Ymd u @ ''/'' @ b @ ''-'' @ strftime_Ymd u @ ''-'' @ strftime_HMS u"
  from eq have "(xs @ ''t'') @ ''.log'' = ys @ ''.log''"
    by (simp add: xs_def ys_def CreateLogNameWithFullPath_def Let_def)
  then have "last ys = CHR ''t''" by (metis append_same_eq last_snoc)
  moreover have "last (digits 2 n) = digit_char n" for n
    using digits.simps(2) [of 1 n] by (simp add: numeral_2_eq_2 digit_char_def)
  moreover have "digits 2 n \<noteq> []" for n using digits.simps(2) [of 1 n] by (simp add: numeral_2_eq_2)
  ultimately have "digit_char (tm_sec u) = CHR ''t''" by (simp add: ys_def strftime_HMS_def)
  then have "48 + tm_sec u mod 10 = 116" using of_digit_char [of "tm_sec u"] by simp
  moreover have "tm_sec u mod 10 < 10" by simp
  ultimately show False by linarith
qed

text \<open>Files of real-time loggers. When the constructors return, every file in use could be opened
  and is not that of a default logger; but an \<open>RtLogger\<close> and an \<open>MpscRtLogger\<close> write to one file
  exactly when both log to a file under the same name and were made in the same second.\<close>

theorem rt_log_files:
  assumes "RtLogger_try opens env t a m to_file g = Some (Inr (c, s))"
    and "MpscRtLogger_try opens env u b n to_file' g' = Some (Inr (d, s'))"
    and "valid_tm t" and "valid_tm u"
  shows "((\<exists>path. Basic_File_Sink path \<in> set (sinks c) \<inter> set (sinks d)) \<longleftrightarrow> to_file \<and> to_file' \<and> a = b \<and> t = u)
    \<and> (\<forall>path. Basic_File_Sink path \<in> set (sinks c) \<union> set (sinks d) \<longrightarrow>
         opens path \<and> (\<forall>v p. path \<noteq> CreateLogNameWithFullPath env v p ''.log''))"
proof -
  have c: "c = rt_sink_config env t a ''_rt'' to_file" and "file_refused opens c = None"
    using assms(1) by (auto simp: RtLogger_try_def RtLogger_sink_def Let_def split: option.splits)
  moreover have d: "d = rt_sink_config env u b ''_mrt'' to_file'" and "file_refused opens d = None"
    using assms(2) by (auto simp: MpscRtLogger_try_def MpscRtLogger_sink_def Let_def split: option.splits)
  ultimately have "to_file \<longrightarrow> opens (CreateLogNameWithFullPath env t a ''.rt.log'')"
    "to_file' \<longrightarrow> opens (CreateLogNameWithFullPath env u b ''.rt.log'')"
    by (simp_all add: file_refused_sink split: if_splits)
  then show ?thesis
    unfolding c d Int_iff Un_iff rt_sink_file full_name_inject [OF assms(3,4), symmetric, of a b env "''.rt.log''"]
    by (auto simp: full_name_suffix)
qed

end
