(* ===== verification/Local_Time.thy ===== *)
theory Local_Time
  imports Logging_Utils "HOL-Library.List_Lexorder" "HOL-Library.Char_ord"
begin

text \<open>
  \<open>LocalTimeNow\<close> of \<open>logging_utils.hpp\<close>, and what it gives the names of log files: the calendar
  behind \<open>localtime_r\<close>, on the seconds since the beginning of 1970, for a time zone that is a
  function from times to the seconds it is ahead of UTC.
\<close>

section \<open>The calendar\<close>

definition leap_year :: "nat \<Rightarrow> bool" where
  "leap_year y \<longleftrightarrow> 4 dvd y \<and> (\<not> 100 dvd y \<or> 400 dvd y)"

definition month_lengths :: "nat \<Rightarrow> nat list" where
  "month_lengths y = [31, if leap_year y then 29 else 28, 31, 30, 31, 30, 31, 31, 30, 31, 30, 31]"

definition year_length :: "nat \<Rightarrow> nat" where
  "year_length y = sum_list (month_lengths y)"

lemma year_length: "year_length y = (if leap_year y then 366 else 365)"
  by (simp add: year_length_def month_lengths_def)

function year_of :: "nat \<Rightarrow> nat \<Rightarrow> nat \<times> nat" where
  "year_of y d = (if d < year_length y then (y, d) else year_of (Suc y) (d - year_length y))"
  by pat_completeness auto

termination
  by (relation "measure snd") (auto simp: year_length split: if_splits)

declare year_of.simps [simp del]

fun month_of :: "nat list \<Rightarrow> nat \<Rightarrow> nat \<Rightarrow> nat \<times> nat" where
  "month_of [] m d = (m, d)"
| "month_of (n # ns) m d = (if d < n then (m, d) else month_of ns (Suc m) (d - n))"

text \<open>
  \<open>localtime_r(&t, &out)\<close>, and \<open>localtime_s(&out, &t)\<close> on Windows, for times from 1970 on.
\<close>

definition local_seconds :: "(int \<Rightarrow> int) \<Rightarrow> int \<Rightarrow> nat" where
  "local_seconds zone t = nat (t + zone t)"

definition broken_down :: "nat \<Rightarrow> tm" where
  "broken_down u =
     (case year_of 1970 (u div 86400) of (y, yd) \<Rightarrow> case month_of (month_lengths y) 0 yd of (m, md) \<Rightarrow>
       \<lparr>tm_year = y - 1900, tm_mon = m, tm_mday = md + 1, tm_hour = u mod 86400 div 3600,
        tm_min = u mod 3600 div 60, tm_sec = u mod 60\<rparr>)"

definition LocalTimeNow :: "(int \<Rightarrow> int) \<Rightarrow> int \<Rightarrow> tm" where
  "LocalTimeNow zone t = broken_down (local_seconds zone t)"

section \<open>The calendar counts the days\<close>

definition days_before :: "nat \<Rightarrow> nat" where
  "days_before y = (\<Sum>i = 1970..<y. year_length i)"

lemma days_before_Suc: "1970 \<le> y \<Longrightarrow> days_before (Suc y) = days_before y + year_length y"
  by (simp add: days_before_def)

lemma days_before_mono: "y \<le> z \<Longrightarrow> days_before y \<le> days_before z"
  unfolding days_before_def by (intro sum_mono2) auto

lemma year_of_bounds:
  "1970 \<le> y \<Longrightarrow> year_of y d = (z, r) \<Longrightarrow> y \<le> z \<and> r < year_length z \<and> days_before y + d = days_before z + r"
proof (induction y d rule: year_of.induct)
  case (1 y d)
  show ?case
  proof (cases "d < year_length y")
    case True
    with "1.prems" show ?thesis by (simp add: year_of.simps [of y d])
  next
    case False
    then have "year_of (Suc y) (d - year_length y) = (z, r)" using "1.prems"(2) by (simp add: year_of.simps [of y d])
    with "1.IH" [OF False] "1.prems"(1) False show ?thesis by (auto simp: days_before_Suc)
  qed
qed

lemma month_of_bounds:
  "d < sum_list ns \<Longrightarrow> month_of ns m d = (k, r) \<Longrightarrow>
     m \<le> k \<and> k < m + length ns \<and> r < ns ! (k - m) \<and> d = sum_list (take (k - m) ns) + r"
proof (induction ns m d arbitrary: k r rule: month_of.induct)
  case (2 n ns m d)
  show ?case
  proof (cases "d < n")
    case False
    with 2 have "Suc m \<le> k \<and> k < Suc m + length ns \<and> r < ns ! (k - Suc m) \<and> d - n = sum_list (take (k - Suc m) ns) + r"
      by auto
    then obtain j where "k = Suc (m + j)" "j < length ns" "r < ns ! j" "d - n = sum_list (take j ns) + r"
      by (metis Suc_diff_le add_Suc add_diff_cancel_left' le_Suc_ex add_less_cancel_left)
    with False show ?thesis by simp
  qed (use 2 in auto)
qed simp

text \<open>The date as one number, in the order of the conversion \<open>%Y%m%d\<close>, and the time of day.\<close>

definition date_number :: "tm \<Rightarrow> nat" where
  "date_number t = (tm_year t + 1900) * 10000 + (tm_mon t + 1) * 100 + tm_mday t"

definition clock_number :: "tm \<Rightarrow> nat" where
  "clock_number t = tm_hour t * 10000 + tm_min t * 100 + tm_sec t"

lemma month_lengths: "length (month_lengths y) = 12" "i < 12 \<Longrightarrow> month_lengths y ! i \<le> 31"
  by (simp_all add: month_lengths_def nth_Cons split: nat.split)

text \<open>A day in its year and month; the first of the two facts is the inverse of the calendar.\<close>

lemma broken_down_date:
  obtains yd where "tm_year (broken_down u) + 1900 \<ge> 1970"
    and "u div 86400 = days_before (tm_year (broken_down u) + 1900) + yd" and "yd < year_length (tm_year (broken_down u) + 1900)"
    and "tm_mon (broken_down u) < 12" and "0 < tm_mday (broken_down u)" and "tm_mday (broken_down u) \<le> 31"
    and "yd = sum_list (take (tm_mon (broken_down u)) (month_lengths (tm_year (broken_down u) + 1900))) + (tm_mday (broken_down u) - 1)"
    and "tm_mday (broken_down u) \<le> month_lengths (tm_year (broken_down u) + 1900) ! tm_mon (broken_down u)"
proof -
  obtain y yd where y: "year_of 1970 (u div 86400) = (y, yd)" by (cases "year_of 1970 (u div 86400)")
  obtain m md where m: "month_of (month_lengths y) 0 yd = (m, md)" by (cases "month_of (month_lengths y) 0 yd")
  have t: "tm_year (broken_down u) = y - 1900" "tm_mon (broken_down u) = m" "tm_mday (broken_down u) = md + 1"
    by (simp_all add: broken_down_def y m)
  have b: "1970 \<le> y" "yd < year_length y" "u div 86400 = days_before y + yd"
    using year_of_bounds [OF _ y] by (simp_all add: days_before_def)
  then have yd: "yd < sum_list (month_lengths y)" by (simp add: year_length_def)
  have "m < 12" "md < month_lengths y ! m" "yd = sum_list (take m (month_lengths y)) + md"
    using month_of_bounds [OF yd m] by (simp_all add: month_lengths)
  then show thesis using b month_lengths(2) [of m y] by (intro that [of yd]) (simp_all add: t)
qed

lemma take_months_mono:
  "m < n \<Longrightarrow> n \<le> length ns \<Longrightarrow> sum_list (take m ns) + ns ! m \<le> sum_list (take n ns)" for ns :: "nat list"
proof -
  assume "m < n" "n \<le> length ns"
  then obtain k where "n = Suc m + k" by (metis Suc_leI le_iff_add)
  then have "take n ns = take (Suc m) ns @ take k (drop (Suc m) ns)" by (simp add: take_add [symmetric])
  then show ?thesis using \<open>m < n\<close> \<open>n \<le> length ns\<close> by (simp add: take_Suc_conv_app_nth)
qed

lemma date_mono:
  assumes "u div 86400 < v div 86400"
  shows "date_number (broken_down u) < date_number (broken_down v)"
proof -
  obtain yd where u: "tm_year (broken_down u) + 1900 \<ge> 1970"
    "u div 86400 = days_before (tm_year (broken_down u) + 1900) + yd" "yd < year_length (tm_year (broken_down u) + 1900)"
    "tm_mon (broken_down u) < 12" "0 < tm_mday (broken_down u)" "tm_mday (broken_down u) \<le> 31"
    "yd = sum_list (take (tm_mon (broken_down u)) (month_lengths (tm_year (broken_down u) + 1900))) + (tm_mday (broken_down u) - 1)"
    "tm_mday (broken_down u) \<le> month_lengths (tm_year (broken_down u) + 1900) ! tm_mon (broken_down u)"
    by (rule broken_down_date)
  obtain zd where v: "tm_year (broken_down v) + 1900 \<ge> 1970"
    "v div 86400 = days_before (tm_year (broken_down v) + 1900) + zd" "zd < year_length (tm_year (broken_down v) + 1900)"
    "tm_mon (broken_down v) < 12" "0 < tm_mday (broken_down v)" "tm_mday (broken_down v) \<le> 31"
    "zd = sum_list (take (tm_mon (broken_down v)) (month_lengths (tm_year (broken_down v) + 1900))) + (tm_mday (broken_down v) - 1)"
    "tm_mday (broken_down v) \<le> month_lengths (tm_year (broken_down v) + 1900) ! tm_mon (broken_down v)"
    by (rule broken_down_date)
  let ?y = "tm_year (broken_down u) + 1900" and ?z = "tm_year (broken_down v) + 1900"
  let ?m = "tm_mon (broken_down u)" and ?n = "tm_mon (broken_down v)"
  have "?y \<le> ?z"
  proof (rule ccontr)
    assume "\<not> ?y \<le> ?z"
    then have "days_before (Suc ?z) \<le> days_before ?y" by (intro days_before_mono) simp
    with u(2) v(2,3) assms days_before_Suc [OF v(1)] show False by simp
  qed
  then consider "?y < ?z" | "?y = ?z" by linarith
  then show ?thesis
  proof cases
    case 1
    with u v show ?thesis by (simp add: date_number_def)
  next
    case 2
    then have less: "yd < zd" using u(2) v(2) assms by simp
    have "?m \<le> ?n"
    proof (rule ccontr)
      assume "\<not> ?m \<le> ?n"
      then have "sum_list (take ?n (month_lengths ?z)) + month_lengths ?z ! ?n \<le> sum_list (take ?m (month_lengths ?z))"
        using u(4) by (intro take_months_mono) (simp_all add: month_lengths)
      with u(7) v(5,7,8) 2 less show False by simp
    qed
    then consider "?m < ?n" | "?m = ?n" by linarith
    then show ?thesis
    proof cases
      case 1
      with u v 2 show ?thesis by (simp add: date_number_def)
    next
      case same: 2
      with u(5,7) v(5,7) 2 less show ?thesis by (simp add: date_number_def)
    qed
  qed
qed

lemma broken_down_clock: "tm_hour (broken_down u) = u mod 86400 div 3600" "tm_min (broken_down u) = u mod 3600 div 60"
    "tm_sec (broken_down u) = u mod 60"
  by (simp_all add: broken_down_def split: prod.splits)

lemma minutes_of_hour: "u mod 3600 div 60 = u div 60 mod 60" for u :: nat
  using mod_mult2_eq [of u 60 60] by simp

lemma clock_of_day:
  "clock_number (broken_down u) = u mod 86400 + (40 * (u mod 86400 div 60) + 4000 * (u mod 86400 div 60 div 60))"
proof -
  define s where "s = u mod 86400"
  have u: "u mod 3600 = s mod 3600" "u mod 60 = s mod 60" by (simp_all add: s_def mod_mod_cancel)
  have "clock_number (broken_down u) = s div 3600 * 10000 + u mod 3600 div 60 * 100 + u mod 60"
    by (simp add: clock_number_def broken_down_clock s_def)
  also have "\<dots> = s div 60 div 60 * 10000 + s div 60 mod 60 * 100 + s mod 60"
    using div_mult2_eq [of s 60 60] by (simp add: u minutes_of_hour)
  also have "\<dots> = s + (40 * (s div 60) + 4000 * (s div 60 div 60))"
    using div_mult_mod_eq [of s 60] div_mult_mod_eq [of "s div 60" 60] by linarith
  finally show ?thesis by (simp add: s_def)
qed

lemma clock_mono: "u mod 86400 < v mod 86400 \<Longrightarrow> clock_number (broken_down u) < clock_number (broken_down v)"
  unfolding clock_of_day by (intro add_less_le_mono add_mono mult_le_mono2 div_le_mono) simp_all

lemma broken_down_order:
  "u < v \<longleftrightarrow> date_number (broken_down u) < date_number (broken_down v)
     \<or> date_number (broken_down u) = date_number (broken_down v) \<and> clock_number (broken_down u) < clock_number (broken_down v)"
proof -
  have same: "date_number (broken_down a) = date_number (broken_down b)" if "a div 86400 = b div 86400" for a b
    using that by (simp add: date_number_def broken_down_def split: prod.splits)
  have up: "date_number (broken_down a) < date_number (broken_down b)
     \<or> date_number (broken_down a) = date_number (broken_down b) \<and> clock_number (broken_down a) < clock_number (broken_down b)"
    if "a < b" for a b
  proof (cases "a div 86400 < b div 86400")
    case True
    then show ?thesis using date_mono by blast
  next
    case False
    then have eq: "a div 86400 = b div 86400" using that div_le_mono [of a b 86400] by simp
    then have "a mod 86400 < b mod 86400"
      using that div_mult_mod_eq [of a 86400] div_mult_mod_eq [of b 86400] by linarith
    with same [OF eq] clock_mono show ?thesis by blast
  qed
  show ?thesis using up [of u v] up [of v u] by (cases u v rule: linorder_cases) auto
qed

lemma broken_down_eq:
  "u = v \<longleftrightarrow> date_number (broken_down u) = date_number (broken_down v) \<and> clock_number (broken_down u) = clock_number (broken_down v)"
proof -
  have pairs: "u = v \<longleftrightarrow> A = B \<and> C = D"
    if "u < v \<longleftrightarrow> A < B \<or> A = B \<and> C < D" and "v < u \<longleftrightarrow> B < A \<or> B = A \<and> D < C" for A B C D :: nat
    using that by linarith
  show ?thesis by (rule pairs [OF broken_down_order broken_down_order])
qed

section \<open>Time stamps in the order of strings\<close>

lemma append_less: "length xs = length ys \<Longrightarrow> xs @ as < ys @ bs \<longleftrightarrow> xs < ys \<or> xs = ys \<and> as < (bs :: 'a::linorder list)"
  by (induction xs ys rule: list_induct2) auto

lemma digit_char_less: "digit_char m < digit_char n \<longleftrightarrow> m mod 10 < n mod 10"
  by (simp add: less_char_def of_digit_char)

lemma digits_less: "m < 10 ^ w \<Longrightarrow> n < 10 ^ w \<Longrightarrow> digits w m < digits w n \<longleftrightarrow> m < n"
proof (induction w arbitrary: m n)
  case 0
  then show ?case by simp
next
  case (Suc w)
  then have "m div 10 < 10 ^ w" "n div 10 < 10 ^ w" by (simp_all add: less_mult_imp_div_less)
  then have "digits (Suc w) m < digits (Suc w) n \<longleftrightarrow> m div 10 < n div 10 \<or> m div 10 = n div 10 \<and> m mod 10 < n mod 10"
    using Suc.IH [of "m div 10" "n div 10"]
    by (auto simp: digits.simps(2) append_less length_digits digit_char_less dest: digits_inject)
  also have "\<dots> \<longleftrightarrow> m < n"
    using div_mult_mod_eq [of m 10] div_mult_mod_eq [of n 10] mod_less_divisor [of 10 m] mod_less_divisor [of 10 n]
    by (auto; linarith)
  finally show ?case .
qed

lemma digits_append: "n < 10 ^ v \<Longrightarrow> digits w m @ digits v n = digits (w + v) (m * 10 ^ v + n)"
proof (induction v arbitrary: n)
  case 0
  then show ?case by (simp add: digits.simps(1) [of 0])
next
  case (Suc v)
  have "n div 10 < 10 ^ v" using Suc.prems by (simp add: less_mult_imp_div_less)
  moreover have "m * 10 ^ Suc v + n = n + m * 10 ^ v * 10" by simp
  then have "(m * 10 ^ Suc v + n) div 10 = m * 10 ^ v + n div 10" "(m * 10 ^ Suc v + n) mod 10 = n mod 10"
    by (simp_all only: div_mult_self1 mod_mult_self1)
  ultimately show ?case using Suc.IH [of "n div 10"] by (simp add: digits.simps(2) digit_char_def)
qed

lemma stamp_digits:
  assumes "valid_tm t" and "tm_mon t < 12" "tm_sec t < 60"
  shows "strftime_Ymd t = digits 8 (date_number t)" and "strftime_HMS t = digits 6 (clock_number t)"
    and "date_number t < 10 ^ 8" and "clock_number t < 10 ^ 6"
proof -
  have "strftime_Ymd t = (digits 4 (tm_year t + 1900) @ digits 2 (tm_mon t + 1)) @ digits 2 (tm_mday t)"
    using assms by (simp add: valid_tm_def length_strftime_Ymd)
  also have "\<dots> = digits 6 ((tm_year t + 1900) * 100 + (tm_mon t + 1)) @ digits 2 (tm_mday t)"
    using assms(2) digits_append [of "tm_mon t + 1" 2 4 "tm_year t + 1900"] by simp
  also have "\<dots> = digits 8 (((tm_year t + 1900) * 100 + (tm_mon t + 1)) * 100 + tm_mday t)"
    using assms(1) digits_append [of "tm_mday t" 2 6 "(tm_year t + 1900) * 100 + (tm_mon t + 1)"] by (simp add: valid_tm_def)
  also have "((tm_year t + 1900) * 100 + (tm_mon t + 1)) * 100 + tm_mday t = date_number t" by (simp add: date_number_def)
  finally show "strftime_Ymd t = digits 8 (date_number t)" .
  have "strftime_HMS t = (digits 2 (tm_hour t) @ digits 2 (tm_min t)) @ digits 2 (tm_sec t)" by (simp add: strftime_HMS_def)
  also have "\<dots> = digits 4 (tm_hour t * 100 + tm_min t) @ digits 2 (tm_sec t)"
    using assms(1) digits_append [of "tm_min t" 2 2 "tm_hour t"] by (simp add: valid_tm_def)
  also have "\<dots> = digits 6 ((tm_hour t * 100 + tm_min t) * 100 + tm_sec t)"
    using assms(3) digits_append [of "tm_sec t" 2 4 "tm_hour t * 100 + tm_min t"] by simp
  also have "(tm_hour t * 100 + tm_min t) * 100 + tm_sec t = clock_number t" by (simp add: clock_number_def)
  finally show "strftime_HMS t = digits 6 (clock_number t)" .
  show "date_number t < 10 ^ 8" "clock_number t < 10 ^ 6"
    using assms by (simp_all add: valid_tm_def date_number_def clock_number_def)
qed

section \<open>Properties\<close>

lemma days_before_least: "365 * (y - 1970) \<le> days_before y"
proof -
  have "(\<Sum>i = 1970..<y. 365 :: nat) \<le> (\<Sum>i = 1970..<y. year_length i)" by (rule sum_mono) (simp add: year_length)
  then show ?thesis by (simp add: days_before_def)
qed

text \<open>Four-digit years: up to the 365 times 8030 days after which the year 9994 has begun.\<close>

definition last_second :: int where
  "last_second = 365 * 8030 * 86400"

lemma valid_broken_down:
  assumes "u < nat last_second"
  shows "valid_tm (broken_down u)" and "tm_mon (broken_down u) < 12" and "tm_sec (broken_down u) < 60"
proof -
  obtain yd where u: "tm_year (broken_down u) + 1900 \<ge> 1970"
    "u div 86400 = days_before (tm_year (broken_down u) + 1900) + yd" "tm_mon (broken_down u) < 12" "tm_mday (broken_down u) \<le> 31"
    by (rule broken_down_date)
  have "u div 86400 < 365 * 8030" using assms by (simp add: last_second_def less_mult_imp_div_less)
  then have "365 * (tm_year (broken_down u) + 1900 - 1970) < 365 * 8030"
    using u(2) days_before_least [of "tm_year (broken_down u) + 1900"] by linarith
  moreover have "u mod 86400 div 3600 \<le> 23" "u mod 3600 div 60 \<le> 59" "u mod 60 < 60"
    by (simp_all add: less_Suc_eq_le [symmetric] less_mult_imp_div_less)
  ultimately show "valid_tm (broken_down u)" "tm_mon (broken_down u) < 12" "tm_sec (broken_down u) < 60"
    using u(3,4) by (simp_all add: valid_tm_def broken_down_clock)
qed

text \<open>C33. The names of log files sort like the local clock: for any two times, from 1970 to the year
  9993 and in any time zones, \<open>LocalTimeNow\<close> gives a valid broken-down time; the name of the data
  file of the one is before that of the other in the order of strings exactly when its local time
  is earlier, and the same exactly when the local times are equal; so it is for the log file with
  its folder for the day. Within a fixed offset this is the order of creation; when the clocks are
  set back, an earlier name can belong to a later file, and two files an hour apart can have one
  name.\<close>

theorem log_files_sort_by_local_time:
  assumes "0 \<le> t + zone t" "t + zone t < last_second" and "0 \<le> u + zone' u" "u + zone' u < last_second"
  shows "valid_tm (LocalTimeNow zone t)
    \<and> (CreateLogFileName (LocalTimeNow zone t) prefix path < CreateLogFileName (LocalTimeNow zone' u) prefix path
        \<longleftrightarrow> t + zone t < u + zone' u)
    \<and> (CreateLogFileName (LocalTimeNow zone t) prefix path = CreateLogFileName (LocalTimeNow zone' u) prefix path
        \<longleftrightarrow> t + zone t = u + zone' u)
    \<and> (CreateLogNameWithFullPath env (LocalTimeNow zone t) prefix suffix < CreateLogNameWithFullPath env (LocalTimeNow zone' u) prefix suffix
        \<longleftrightarrow> t + zone t < u + zone' u)
    \<and> (CreateLogNameWithFullPath env (LocalTimeNow zone t) prefix suffix = CreateLogNameWithFullPath env (LocalTimeNow zone' u) prefix suffix
        \<longleftrightarrow> t + zone t = u + zone' u)"
proof -
  define a where "a = local_seconds zone t"
  define b where "b = local_seconds zone' u"
  have ab: "a < b \<longleftrightarrow> t + zone t < u + zone' u" "a = b \<longleftrightarrow> t + zone t = u + zone' u"
    using assms by (auto simp: a_def b_def local_seconds_def)
  have lt: "LocalTimeNow zone t = broken_down a" "LocalTimeNow zone' u = broken_down b"
    by (simp_all add: LocalTimeNow_def a_def b_def)
  have "a < nat last_second" "b < nat last_second" using assms by (simp_all add: a_def b_def local_seconds_def)
  note v = valid_broken_down [OF this(1)] valid_broken_down [OF this(2)]
  note d = stamp_digits [OF v(1-3)] stamp_digits [OF v(4-6)]
  note len = length_digits [OF d(3)] length_digits [OF d(7)] length_digits [OF d(4)] length_digits [OF d(8)]
  note less = digits_less [OF d(3) d(7)] digits_less [OF d(4) d(8)]
  have eq: "a = b \<longleftrightarrow> date_number (broken_down a) = date_number (broken_down b) \<and> clock_number (broken_down a) = clock_number (broken_down b)"
    by (rule broken_down_eq)
  have inj: "digits w m = digits w n \<longleftrightarrow> m = n" for w m n by (blast dest: digits_inject)
  have names: "CreateLogFileName (broken_down a) prefix path < CreateLogFileName (broken_down b) prefix path \<longleftrightarrow> a < b"
    "CreateLogFileName (broken_down a) prefix path = CreateLogFileName (broken_down b) prefix path \<longleftrightarrow> a = b"
    unfolding CreateLogFileName_def d(1,2,5,6) broken_down_order [of a b] eq
    by (auto simp: append_less len less inj append_eq_append_conv)
  have full: "CreateLogNameWithFullPath env (broken_down a) prefix suffix < CreateLogNameWithFullPath env (broken_down b) prefix suffix \<longleftrightarrow> a < b"
    "CreateLogNameWithFullPath env (broken_down a) prefix suffix = CreateLogNameWithFullPath env (broken_down b) prefix suffix \<longleftrightarrow> a = b"
    unfolding CreateLogNameWithFullPath_def Let_def d(1,2,5,6) broken_down_order [of a b] eq
    by (auto simp: append_less len less inj append_eq_append_conv)
  show ?thesis unfolding lt using names full ab v(1) by simp
qed

text \<open>The clocks are set back by an hour at the time 1761440400: the two file names are the same.\<close>

theorem log_files_sort_by_local_time_witness:
  "let zone = (\<lambda>t. if t < 1761440400 then 7200 else 3600)
   in CreateLogFileName (LocalTimeNow zone 1761440399) ''run'' ''/tmp'' = CreateLogFileName (LocalTimeNow zone 1761443999) ''run'' ''/tmp''
    \<and> CreateLogFileName (LocalTimeNow zone 1761440400) ''run'' ''/tmp'' < CreateLogFileName (LocalTimeNow zone 1761440399) ''run'' ''/tmp''"
  using log_files_sort_by_local_time [of 1761440399 "\<lambda>t. if t < 1761440400 then 7200 else 3600" 1761443999
      "\<lambda>t. if t < 1761440400 then 7200 else 3600" "''run''" "''/tmp''"]
    log_files_sort_by_local_time [of 1761440400 "\<lambda>t. if t < 1761440400 then 7200 else 3600" 1761440399
      "\<lambda>t. if t < 1761440400 then 7200 else 3600" "''run''" "''/tmp''"]
  by (simp add: last_second_def)

end
