(* ===== verification/Xlogger.thy ===== *)
theory Xlogger
  imports Rt_Common
begin

text \<open>
  The soft real-time front-end: the \<open>XLOG_*\<close> macros of \<open>xlogger.hpp\<close>, the \<open>XLOG_RT_*\<close>
  macros of \<open>rt_logger.hpp\<close>, the process-wide \<open>DefaultLogger\<close> and its spdlog vendor
  (\<open>logger_vendor_spdlog.hpp\<close>, \<open>logger_vendor_spdlog.cpp\<close>, \<open>default_logger.cpp\<close>).

  spdlog is not part of the repository. A logger object of it is a record of what the code
  configures; which messages it lets through (\<open>should_log\<close>) and the text an argument pack
  formats to (\<open>fmt\<close>) are parameters, used with their documented behaviour as hypotheses.
  Preprocessor settings are a record: whether \<open>ENABLE_LOGGING\<close> is defined, and the value of
  \<open>XMSIGMA_ACTIVE_LEVEL\<close>.
\<close>

section \<open>The spdlog objects the code configures\<close>

text \<open>The values of \<open>spdlog::level::level_enum\<close>, which the code compares with \<open><\<close>.\<close>

fun spd_code :: "spd_level \<Rightarrow> nat" where
  "spd_code spd_trace = 0"
| "spd_code spd_debug = 1"
| "spd_code spd_info = 2"
| "spd_code spd_warn = 3"
| "spd_code spd_err = 4"
| "spd_code spd_critical = 5"
| "spd_code spd_off = 6"
| "spd_code spd_other = 7"

datatype overflow_policy = Block | Overrun_Oldest

record spd_logger =
  lg_name :: string
  lg_sinks :: "sink list"
  lg_pattern :: string
  lg_level :: spd_level
  lg_flush_level :: spd_level
  lg_policy :: overflow_policy

text \<open>The global state of spdlog: thread pool (queue size, threads), names, flush period.\<close>

record spd_global =
  thread_pool :: "(nat \<times> nat) option"
  registered :: "string list"
  flush_period :: "nat option"

section \<open>LoggerVendorSpdlog\<close>

record vendor =
  process_name :: string
  vendor_logger :: "spd_logger option"
  vendor_sinks :: "sink list"

definition LoggerVendorSpdlog :: vendor where
  "LoggerVendorSpdlog = \<lparr>process_name = ''uninitialized'', vendor_logger = None, vendor_sinks = []\<rparr>"

text \<open>A call through the null pointer \<open>logger_\<close> is undefined: \<open>None\<close>.\<close>

definition SetLoggerLevel :: "LogLevel \<Rightarrow> vendor \<Rightarrow> vendor option" where
  "SetLoggerLevel level v =
     map_option (\<lambda>lg. v\<lparr>vendor_logger := Some (lg\<lparr>lg_level := ToSpdlogLevel level\<rparr>)\<rparr>) (vendor_logger v)"

definition GetLoggerLevel :: "vendor \<Rightarrow> LogLevel option" where
  "GetLoggerLevel v = map_option (\<lambda>lg. FromSpdlogLevel (lg_level lg)) (vendor_logger v)"

definition ShouldLog :: "(spd_level \<Rightarrow> spd_level \<Rightarrow> bool) \<Rightarrow> LogLevel \<Rightarrow> vendor \<Rightarrow> bool option" where
  "ShouldLog should_log level v = map_option (\<lambda>lg. should_log (lg_level lg) (ToSpdlogLevel level)) (vendor_logger v)"

text \<open>\<open>Terminate\<close> flushes the logger, which is the result here.\<close>

definition Terminate :: "vendor \<Rightarrow> spd_logger option" where
  "Terminate v = vendor_logger v"

definition kAsyncQueueSize :: nat where
  "kAsyncQueueSize = 8192"

definition kAsyncWorkerThreads :: nat where
  "kAsyncWorkerThreads = 1"

definition logfile_enabled :: "environment \<Rightarrow> bool" where
  "logfile_enabled env =
     (let enable_logfile_var = GetEnvironmentVariable env ''XLOG_ENABLE_LOGFILE''
      in enable_logfile_var = ''TRUE'' \<or> enable_logfile_var = ''true'' \<or> enable_logfile_var = ''1'')"

definition Initialize :: "environment \<Rightarrow> tm \<Rightarrow> string \<Rightarrow> string \<Rightarrow> string \<Rightarrow> spd_global \<Rightarrow> vendor \<Rightarrow>
    (spd_global \<times> vendor) option" where
  "Initialize env now name pat file_suffix g v =
     (let log_level = ToSpdlogLevel (ResolveLogLevelFromEnv env default_log_level);
          ss = vendor_sinks v @ [Stdout_Color_Sink];
          ss = (if logfile_enabled env \<and> spd_code log_level < spd_code spd_off
                then ss @ [Basic_File_Sink (CreateLogNameWithFullPath env now name file_suffix)]
                else ss);
          g = (if thread_pool g = None then g\<lparr>thread_pool := Some (kAsyncQueueSize, kAsyncWorkerThreads)\<rparr> else g);
          lg = \<lparr>lg_name = name, lg_sinks = ss, lg_pattern = pat, lg_level = spd_info,
                lg_flush_level = spd_off, lg_policy = Overrun_Oldest\<rparr>;
          g = g\<lparr>registered := removeAll name (registered g)\<rparr>;
          g = g\<lparr>registered := name # registered g\<rparr>;
          lg = lg\<lparr>lg_flush_level := spd_err\<rparr>;
          g = g\<lparr>flush_period := Some 1\<rparr>;
          v = v\<lparr>vendor_logger := Some lg, vendor_sinks := ss\<rparr>
      in map_option (Pair g) (SetLoggerLevel (FromSpdlogLevel log_level) v))"

text \<open>
  \<open>Log\<close> calls the member of the logger that belongs to the level. An argument pack is either
  one of the caller or the pack \<open>"{}", s\<close> of the stream macros.
\<close>

datatype 'a log_args = Pack 'a | Braces string

definition Vendor_Log :: "LogLevel \<Rightarrow> 'a log_args \<Rightarrow> vendor \<Rightarrow> (spd_level \<times> 'a log_args) list option" where
  "Vendor_Log level args v = (case level of
     kTrace \<Rightarrow> map_option (\<lambda>lg. [(spd_trace, args)]) (vendor_logger v)
   | kDebug \<Rightarrow> map_option (\<lambda>lg. [(spd_debug, args)]) (vendor_logger v)
   | kInfo \<Rightarrow> map_option (\<lambda>lg. [(spd_info, args)]) (vendor_logger v)
   | kWarn \<Rightarrow> map_option (\<lambda>lg. [(spd_warn, args)]) (vendor_logger v)
   | kError \<Rightarrow> map_option (\<lambda>lg. [(spd_err, args)]) (vendor_logger v)
   | kFatal \<Rightarrow> map_option (\<lambda>lg. [(spd_critical, args)]) (vendor_logger v)
   | kOff \<Rightarrow> Some [])"

section \<open>DefaultLogger\<close>

text \<open>
  The process: its environment, the link read from \<open>/proc/self/exe\<close>, the time of the first
  call, the state of spdlog, and the function-local static. Its guard serialises the first
  calls, so that nobody sees the object before \<open>Initialize\<close> has returned.
\<close>

record process =
  p_env :: environment
  p_exe :: "string option"
  p_now :: tm
  p_spdlog :: spd_global
  p_instance :: "vendor option"

definition GetInstance :: "process \<Rightarrow> (vendor \<times> process) option" where
  "GetInstance p = (case p_instance p of
     Some v \<Rightarrow> Some (v, p)
   | None \<Rightarrow>
       (case Initialize (p_env p) (p_now p) (GetCurrentProcessName (p_exe p)) line_pattern ''.log'' (p_spdlog p) LoggerVendorSpdlog of
          None \<Rightarrow> None
        | Some (g, v) \<Rightarrow> Some (v, p\<lparr>p_spdlog := g, p_instance := Some v\<rparr>)))"

section \<open>The macros\<close>

record build =
  enable_logging :: bool
  active_level :: int

text \<open>What a log site does: it evaluates its arguments and calls a member of the logger.\<close>

datatype 'a site_event = Eval_Args | Member_Call spd_level "'a log_args"

type_synonym 'a site = "process \<Rightarrow> ('a site_event list \<times> process) option"

definition nothing :: "'a site" where
  "nothing p = Some ([], p)"

definition XLOG_IMPL :: "LogLevel \<Rightarrow> 'a \<Rightarrow> 'a site" where
  "XLOG_IMPL lvl args p = (case GetInstance p of
     None \<Rightarrow> None
   | Some (v, q) \<Rightarrow>
       map_option (\<lambda>cs. (Eval_Args # map (\<lambda>(l, a). Member_Call l a) cs, q)) (Vendor_Log lvl (Pack args) v))"

definition XLOG_STREAM_IMPL :: "(spd_level \<Rightarrow> spd_level \<Rightarrow> bool) \<Rightarrow> LogLevel \<Rightarrow> string \<Rightarrow> 'a site" where
  "XLOG_STREAM_IMPL should_log lvl txt p = (case GetInstance p of
     None \<Rightarrow> None
   | Some (v, q) \<Rightarrow>
       (case ShouldLog should_log lvl v of
          None \<Rightarrow> None
        | Some b \<Rightarrow>
            if b then map_option (\<lambda>cs. (Eval_Args # map (\<lambda>(l, a). Member_Call l a) cs, q)) (Vendor_Log lvl (Braces txt) v)
            else Some ([], q)))"

text \<open>
  The cast of \<open>XLOG_LEVEL\<close> takes any integer. One that names no level reaches the default
  branch of \<open>ToSpdlogLevel\<close>, like \<open>kOff\<close>, which \<open>level_of_code\<close> returns for it.
\<close>

definition XLOG_LEVEL :: "build \<Rightarrow> int \<Rightarrow> 'a site" where
  "XLOG_LEVEL b level p =
     (if enable_logging b
      then case GetInstance p of
          None \<Rightarrow> None
        | Some (v, q) \<Rightarrow> map_option (\<lambda>v. ([], q\<lparr>p_instance := Some v\<rparr>)) (SetLoggerLevel (level_of_code level) v)
      else nothing p)"

definition XLOG_GET_LEVEL :: "build \<Rightarrow> process \<Rightarrow> (LogLevel \<times> process) option" where
  "XLOG_GET_LEVEL b p =
     (if enable_logging b
      then case GetInstance p of
          None \<Rightarrow> None
        | Some (v, q) \<Rightarrow> map_option (\<lambda>l. (l, q)) (GetLoggerLevel v)
      else Some (kOff, p))"

definition XLOG_TRACE :: "build \<Rightarrow> 'a \<Rightarrow> 'a site" where
  "XLOG_TRACE b args = (if enable_logging b then if active_level b \<le> 0 then XLOG_IMPL kTrace args else nothing else nothing)"

definition XLOG_DEBUG :: "build \<Rightarrow> 'a \<Rightarrow> 'a site" where
  "XLOG_DEBUG b args = (if enable_logging b then if active_level b \<le> 1 then XLOG_IMPL kDebug args else nothing else nothing)"

definition XLOG_INFO :: "build \<Rightarrow> 'a \<Rightarrow> 'a site" where
  "XLOG_INFO b args = (if enable_logging b then if active_level b \<le> 2 then XLOG_IMPL kInfo args else nothing else nothing)"

definition XLOG_WARN :: "build \<Rightarrow> 'a \<Rightarrow> 'a site" where
  "XLOG_WARN b args = (if enable_logging b then if active_level b \<le> 3 then XLOG_IMPL kWarn args else nothing else nothing)"

definition XLOG_ERROR :: "build \<Rightarrow> 'a \<Rightarrow> 'a site" where
  "XLOG_ERROR b args = (if enable_logging b then if active_level b \<le> 4 then XLOG_IMPL kError args else nothing else nothing)"

definition XLOG_FATAL :: "build \<Rightarrow> 'a \<Rightarrow> 'a site" where
  "XLOG_FATAL b args = (if enable_logging b then if active_level b \<le> 5 then XLOG_IMPL kFatal args else nothing else nothing)"

definition XLOG_TRACE_STREAM :: "build \<Rightarrow> (spd_level \<Rightarrow> spd_level \<Rightarrow> bool) \<Rightarrow> string \<Rightarrow> 'a site" where
  "XLOG_TRACE_STREAM b should_log txt =
     (if enable_logging b then if active_level b \<le> 0 then XLOG_STREAM_IMPL should_log kTrace txt else nothing else nothing)"

definition XLOG_DEBUG_STREAM :: "build \<Rightarrow> (spd_level \<Rightarrow> spd_level \<Rightarrow> bool) \<Rightarrow> string \<Rightarrow> 'a site" where
  "XLOG_DEBUG_STREAM b should_log txt =
     (if enable_logging b then if active_level b \<le> 1 then XLOG_STREAM_IMPL should_log kDebug txt else nothing else nothing)"

definition XLOG_INFO_STREAM :: "build \<Rightarrow> (spd_level \<Rightarrow> spd_level \<Rightarrow> bool) \<Rightarrow> string \<Rightarrow> 'a site" where
  "XLOG_INFO_STREAM b should_log txt =
     (if enable_logging b then if active_level b \<le> 2 then XLOG_STREAM_IMPL should_log kInfo txt else nothing else nothing)"

definition XLOG_WARN_STREAM :: "build \<Rightarrow> (spd_level \<Rightarrow> spd_level \<Rightarrow> bool) \<Rightarrow> string \<Rightarrow> 'a site" where
  "XLOG_WARN_STREAM b should_log txt =
     (if enable_logging b then if active_level b \<le> 3 then XLOG_STREAM_IMPL should_log kWarn txt else nothing else nothing)"

definition XLOG_ERROR_STREAM :: "build \<Rightarrow> (spd_level \<Rightarrow> spd_level \<Rightarrow> bool) \<Rightarrow> string \<Rightarrow> 'a site" where
  "XLOG_ERROR_STREAM b should_log txt =
     (if enable_logging b then if active_level b \<le> 4 then XLOG_STREAM_IMPL should_log kError txt else nothing else nothing)"

definition XLOG_FATAL_STREAM :: "build \<Rightarrow> (spd_level \<Rightarrow> spd_level \<Rightarrow> bool) \<Rightarrow> string \<Rightarrow> 'a site" where
  "XLOG_FATAL_STREAM b should_log txt =
     (if enable_logging b then if active_level b \<le> 5 then XLOG_STREAM_IMPL should_log kFatal txt else nothing else nothing)"

text \<open>The hard real-time macros: the calls of \<open>Log\<close> a site makes on its \<open>rt\<close> argument.\<close>

definition XLOG_RT_IMPL :: "LogLevel \<Rightarrow> 'a \<Rightarrow> (LogLevel \<times> 'a) list" where
  "XLOG_RT_IMPL lvl args = [(lvl, args)]"

text \<open>Without \<open>ENABLE_LOGGING\<close> the macros expand to nothing.\<close>

definition rt_nothing :: "(LogLevel \<times> 'a) list" where
  [simp]: "rt_nothing = []"

definition XLOG_RT_TRACE :: "build \<Rightarrow> 'a \<Rightarrow> (LogLevel \<times> 'a) list" where
  "XLOG_RT_TRACE b args = (if enable_logging b then if active_level b \<le> 0 then XLOG_RT_IMPL kTrace args else [] else rt_nothing)"

definition XLOG_RT_DEBUG :: "build \<Rightarrow> 'a \<Rightarrow> (LogLevel \<times> 'a) list" where
  "XLOG_RT_DEBUG b args = (if enable_logging b then if active_level b \<le> 1 then XLOG_RT_IMPL kDebug args else [] else rt_nothing)"

definition XLOG_RT_INFO :: "build \<Rightarrow> 'a \<Rightarrow> (LogLevel \<times> 'a) list" where
  "XLOG_RT_INFO b args = (if enable_logging b then if active_level b \<le> 2 then XLOG_RT_IMPL kInfo args else [] else rt_nothing)"

definition XLOG_RT_WARN :: "build \<Rightarrow> 'a \<Rightarrow> (LogLevel \<times> 'a) list" where
  "XLOG_RT_WARN b args = (if enable_logging b then if active_level b \<le> 3 then XLOG_RT_IMPL kWarn args else [] else rt_nothing)"

definition XLOG_RT_ERROR :: "build \<Rightarrow> 'a \<Rightarrow> (LogLevel \<times> 'a) list" where
  "XLOG_RT_ERROR b args = (if enable_logging b then if active_level b \<le> 4 then XLOG_RT_IMPL kError args else [] else rt_nothing)"

definition XLOG_RT_FATAL :: "build \<Rightarrow> 'a \<Rightarrow> (LogLevel \<times> 'a) list" where
  "XLOG_RT_FATAL b args = (if enable_logging b then if active_level b \<le> 5 then XLOG_RT_IMPL kFatal args else [] else rt_nothing)"

section \<open>Sites in general\<close>

text \<open>The three families as one definition each, by level.\<close>

definition compiled :: "build \<Rightarrow> LogLevel \<Rightarrow> bool" where
  "compiled b l \<longleftrightarrow> enable_logging b \<and> active_level b \<le> level_code l"

definition fmt_site :: "build \<Rightarrow> LogLevel \<Rightarrow> 'a \<Rightarrow> 'a site" where
  "fmt_site b l = (case l of kTrace \<Rightarrow> XLOG_TRACE b | kDebug \<Rightarrow> XLOG_DEBUG b | kInfo \<Rightarrow> XLOG_INFO b | kWarn \<Rightarrow> XLOG_WARN b
     | kError \<Rightarrow> XLOG_ERROR b | kFatal \<Rightarrow> XLOG_FATAL b | kOff \<Rightarrow> (\<lambda>_. nothing))"

definition stream_site :: "build \<Rightarrow> (spd_level \<Rightarrow> spd_level \<Rightarrow> bool) \<Rightarrow> LogLevel \<Rightarrow> string \<Rightarrow> 'a site" where
  "stream_site b sl l = (case l of kTrace \<Rightarrow> XLOG_TRACE_STREAM b sl | kDebug \<Rightarrow> XLOG_DEBUG_STREAM b sl
     | kInfo \<Rightarrow> XLOG_INFO_STREAM b sl | kWarn \<Rightarrow> XLOG_WARN_STREAM b sl | kError \<Rightarrow> XLOG_ERROR_STREAM b sl
     | kFatal \<Rightarrow> XLOG_FATAL_STREAM b sl | kOff \<Rightarrow> (\<lambda>_. nothing))"

definition rt_site :: "build \<Rightarrow> LogLevel \<Rightarrow> 'a \<Rightarrow> (LogLevel \<times> 'a) list" where
  "rt_site b l = (case l of kTrace \<Rightarrow> XLOG_RT_TRACE b | kDebug \<Rightarrow> XLOG_RT_DEBUG b | kInfo \<Rightarrow> XLOG_RT_INFO b
     | kWarn \<Rightarrow> XLOG_RT_WARN b | kError \<Rightarrow> XLOG_RT_ERROR b | kFatal \<Rightarrow> XLOG_RT_FATAL b | kOff \<Rightarrow> (\<lambda>_. []))"

lemma fmt_site: "fmt_site b l args = (if l \<noteq> kOff \<and> compiled b l then XLOG_IMPL l args else nothing)"
  by (cases l) (simp_all add: fmt_site_def compiled_def XLOG_TRACE_def XLOG_DEBUG_def XLOG_INFO_def XLOG_WARN_def
      XLOG_ERROR_def XLOG_FATAL_def)

lemma stream_site: "stream_site b sl l txt = (if l \<noteq> kOff \<and> compiled b l then XLOG_STREAM_IMPL sl l txt else nothing)"
  by (cases l) (simp_all add: stream_site_def compiled_def XLOG_TRACE_STREAM_def XLOG_DEBUG_STREAM_def
      XLOG_INFO_STREAM_def XLOG_WARN_STREAM_def XLOG_ERROR_STREAM_def XLOG_FATAL_STREAM_def)

lemma rt_site: "rt_site b l args = (if l \<noteq> kOff \<and> compiled b l then [(l, args)] else [])"
  by (cases l) (simp_all add: rt_site_def compiled_def XLOG_RT_IMPL_def XLOG_RT_TRACE_def XLOG_RT_DEBUG_def
      XLOG_RT_INFO_def XLOG_RT_WARN_def XLOG_RT_ERROR_def XLOG_RT_FATAL_def)

lemma Vendor_Log: "vendor_logger v = Some lg \<Longrightarrow>
    Vendor_Log l args v = Some (if l = kOff then [] else [(ToSpdlogLevel l, args)])"
  by (cases l) (simp_all add: Vendor_Log_def ToSpdlogLevel_def)

section \<open>The logger after its first use\<close>

text \<open>What the first use leaves behind, and what every later use finds.\<close>

definition first_vendor :: "process \<Rightarrow> vendor" where
  "first_vendor p =
     (let l = ToSpdlogLevel (ResolveLogLevelFromEnv (p_env p) default_log_level);
          name = GetCurrentProcessName (p_exe p);
          ss = Stdout_Color_Sink # (if logfile_enabled (p_env p) \<and> l \<noteq> spd_off
                 then [Basic_File_Sink (CreateLogNameWithFullPath (p_env p) (p_now p) name ''.log'')] else [])
      in \<lparr>process_name = ''uninitialized'',
          vendor_logger = Some \<lparr>lg_name = name, lg_sinks = ss, lg_pattern = line_pattern, lg_level = l,
             lg_flush_level = spd_err, lg_policy = Overrun_Oldest\<rparr>,
          vendor_sinks = ss\<rparr>)"

lemma below_off: "spd_code (ToSpdlogLevel l) < 6 \<longleftrightarrow> ToSpdlogLevel l \<noteq> spd_off"
  by (cases l) (simp_all add: ToSpdlogLevel_def)

text \<open>What \<open>Initialize\<close> does to the global state of spdlog.\<close>

definition spd_after :: "string \<Rightarrow> spd_global \<Rightarrow> spd_global" where
  "spd_after name g = \<lparr>thread_pool = (if thread_pool g = None then Some (8192, 1) else thread_pool g),
     registered = name # removeAll name (registered g), flush_period = Some 1\<rparr>"

lemma GetInstance_first:
  assumes "p_instance p = None"
  shows "GetInstance p = Some (first_vendor p,
    p\<lparr>p_spdlog := spd_after (GetCurrentProcessName (p_exe p)) (p_spdlog p), p_instance := Some (first_vendor p)\<rparr>)"
proof -
  have "Initialize (p_env p) (p_now p) (GetCurrentProcessName (p_exe p)) line_pattern ''.log'' g LoggerVendorSpdlog
      = Some (spd_after (GetCurrentProcessName (p_exe p)) g, first_vendor p)" for g
    by (cases g) (simp add: Initialize_def LoggerVendorSpdlog_def SetLoggerLevel_def first_vendor_def Let_def below_off
        kAsyncQueueSize_def kAsyncWorkerThreads_def spd_after_def)
  then show ?thesis using assms by (simp add: GetInstance_def)
qed

lemma GetInstance_again: "p_instance p = Some v \<Longrightarrow> GetInstance p = Some (v, p)"
  by (simp add: GetInstance_def)

section \<open>Sequences of log statements\<close>

text \<open>The uses of the macros, and what is observed of one: whether the arguments were evaluated,
  the lines spdlog writes, the calls on a real-time logger, or the level returned.\<close>

datatype 'a xlog_op =
    Use_Fmt LogLevel 'a
  | Use_Stream LogLevel string
  | Use_Rt LogLevel 'a
  | Use_Set_Level int
  | Use_Get_Level

datatype 'a xlog_result =
    Site bool "(spd_level \<times> string) list"
  | Rt_Calls "(LogLevel \<times> 'a) list"
  | Level_Set
  | Level_Is LogLevel

text \<open>The lines spdlog writes for the member calls of a site: those its level lets through.\<close>

fun written :: "(spd_level \<Rightarrow> spd_level \<Rightarrow> bool) \<Rightarrow> ('a log_args \<Rightarrow> string) \<Rightarrow> spd_level \<Rightarrow> 'a site_event list \<Rightarrow>
    (spd_level \<times> string) list" where
  "written sl fmt cur [] = []"
| "written sl fmt cur (Eval_Args # es) = written sl fmt cur es"
| "written sl fmt cur (Member_Call l args # es) =
     (if sl cur l then (l, fmt args) # written sl fmt cur es else written sl fmt cur es)"

definition current_level :: "process \<Rightarrow> spd_level" where
  "current_level p = (case p_instance p of
     Some v \<Rightarrow> (case vendor_logger v of Some lg \<Rightarrow> lg_level lg | None \<Rightarrow> spd_off)
   | None \<Rightarrow> ToSpdlogLevel (ResolveLogLevelFromEnv (p_env p) default_log_level))"

fun is_eval :: "'a site_event \<Rightarrow> bool" where
  "is_eval Eval_Args \<longleftrightarrow> True"
| "is_eval (Member_Call _ _) \<longleftrightarrow> False"

definition observe_site :: "(spd_level \<Rightarrow> spd_level \<Rightarrow> bool) \<Rightarrow> ('a log_args \<Rightarrow> string) \<Rightarrow> ('a site_event list \<times> process) option \<Rightarrow>
    ('a xlog_result \<times> process) option" where
  "observe_site sl fmt r = (case r of
     None \<Rightarrow> None
   | Some (es, q) \<Rightarrow> Some (Site (list_ex is_eval es) (written sl fmt (current_level q) es), q))"

fun xlog_do :: "build \<Rightarrow> (spd_level \<Rightarrow> spd_level \<Rightarrow> bool) \<Rightarrow> ('a log_args \<Rightarrow> string) \<Rightarrow> process \<Rightarrow> 'a xlog_op \<Rightarrow>
    ('a xlog_result \<times> process) option" where
  "xlog_do b sl fmt p (Use_Fmt l args) = observe_site sl fmt (fmt_site b l args p)"
| "xlog_do b sl fmt p (Use_Stream l txt) = observe_site sl fmt (stream_site b sl l txt p)"
| "xlog_do b sl fmt p (Use_Rt l args) = Some (Rt_Calls (rt_site b l args), p)"
| "xlog_do b sl fmt p (Use_Set_Level n) =
     map_option (\<lambda>(es, q). (Level_Set, q)) (XLOG_LEVEL b n p :: ('a site_event list \<times> process) option)"
| "xlog_do b sl fmt p Use_Get_Level = map_option (\<lambda>(l, q). (Level_Is l, q)) (XLOG_GET_LEVEL b p)"

text \<open>
  The contract. The state is the level in force. A compiled-in site writes its line when its
  level is not below the level in force; the arguments of a stream site are evaluated only
  then, those of a format site whenever it is compiled in.
\<close>

definition line_if :: "bool \<Rightarrow> LogLevel \<Rightarrow> string \<Rightarrow> (spd_level \<times> string) list" where
  "line_if c l txt = (if c then [(ToSpdlogLevel l, txt)] else [])"

fun xlog_spec :: "build \<Rightarrow> ('a log_args \<Rightarrow> string) \<Rightarrow> LogLevel \<Rightarrow> 'a xlog_op \<Rightarrow> 'a xlog_result \<times> LogLevel" where
  "xlog_spec b fmt cur (Use_Fmt l args) =
     (let c = (l \<noteq> kOff \<and> compiled b l) in (Site c (line_if (c \<and> cur \<le> l) l (fmt (Pack args))), cur))"
| "xlog_spec b fmt cur (Use_Stream l txt) =
     (let c = (l \<noteq> kOff \<and> compiled b l \<and> cur \<le> l) in (Site c (line_if c l txt), cur))"
| "xlog_spec b fmt cur (Use_Rt l args) = (Rt_Calls (if l \<noteq> kOff \<and> compiled b l then [(l, args)] else []), cur)"
| "xlog_spec b fmt cur (Use_Set_Level n) = (Level_Set, if enable_logging b then level_of_code n else cur)"
| "xlog_spec b fmt cur Use_Get_Level = (Level_Is (if enable_logging b then cur else kOff), cur)"

definition xlog_inv :: "process \<Rightarrow> bool" where
  "xlog_inv p \<longleftrightarrow> (\<forall>v. p_instance p = Some v \<longrightarrow> (\<exists>lg l. vendor_logger v = Some lg \<and> lg_level lg = ToSpdlogLevel l))"

definition xlog_abs :: "process \<Rightarrow> LogLevel" where
  "xlog_abs p = FromSpdlogLevel (current_level p)"

lemma GetInstance_inv:
  assumes "xlog_inv p"
  obtains v q lg where "GetInstance p = Some (v, q)" and "p_instance q = Some v" and "vendor_logger v = Some lg"
    and "lg_level lg = ToSpdlogLevel (xlog_abs p)" and "xlog_abs q = xlog_abs p" and "xlog_inv q"
    and "current_level q = ToSpdlogLevel (xlog_abs p)"
proof (cases "p_instance p")
  case None
  note f = GetInstance_first [OF None]
  let ?l = "ResolveLogLevelFromEnv (p_env p) default_log_level"
  obtain lg where lg: "vendor_logger (first_vendor p) = Some lg" "lg_level lg = ToSpdlogLevel ?l"
    by (simp add: first_vendor_def Let_def)
  have l: "xlog_abs p = ?l" by (simp add: xlog_abs_def current_level_def None)
  show ?thesis
    by (rule that [OF f _ lg(1)]) (simp_all add: lg l, simp_all add: lg xlog_abs_def current_level_def xlog_inv_def)
next
  case (Some v)
  with assms obtain lg l where lg: "vendor_logger v = Some lg" "lg_level lg = ToSpdlogLevel l" by (auto simp: xlog_inv_def)
  show ?thesis
    by (rule that [OF GetInstance_again [OF Some] Some lg(1)])
      (use Some lg assms in \<open>simp_all add: xlog_abs_def current_level_def\<close>)
qed

lemma should_log_levels:
  "l \<noteq> kOff \<Longrightarrow> spd_code (ToSpdlogLevel cur) \<le> spd_code (ToSpdlogLevel l) \<longleftrightarrow> cur \<le> l"
  by (cases cur; cases l) (simp_all add: ToSpdlogLevel_def less_eq_LogLevel_def)

lemma xlog_simulation:
  assumes sl: "\<forall>c l. sl c l \<longleftrightarrow> spd_code c \<le> spd_code l" and braces: "\<forall>s. fmt (Braces s) = s" and inv: "xlog_inv p"
  shows "\<exists>q. xlog_do b sl fmt p a = Some (fst (xlog_spec b fmt (xlog_abs p) a), q) \<and> xlog_inv q
    \<and> xlog_abs q = snd (xlog_spec b fmt (xlog_abs p) a)"
proof -
  from inv obtain v q lg where q: "GetInstance p = Some (v, q)" "p_instance q = Some v" "vendor_logger v = Some lg"
    "lg_level lg = ToSpdlogLevel (xlog_abs p)" "xlog_abs q = xlog_abs p" "xlog_inv q"
    "current_level q = ToSpdlogLevel (xlog_abs p)" by (rule GetInstance_inv)
  show ?thesis
  proof (cases a)
    case (Use_Fmt l args)
    then show ?thesis
      using q inv sl
      by (cases "l \<noteq> kOff \<and> compiled b l")
        (auto simp: fmt_site XLOG_IMPL_def Vendor_Log [OF q(3)] observe_site_def should_log_levels line_if_def nothing_def Let_def)
  next
    case (Use_Stream l tx)
    then show ?thesis
      using q inv sl braces
      by (cases "l \<noteq> kOff \<and> compiled b l"; cases "xlog_abs p \<le> l")
        (auto simp: stream_site XLOG_STREAM_IMPL_def ShouldLog_def Vendor_Log [OF q(3)] observe_site_def should_log_levels
          line_if_def nothing_def Let_def)
  next
    case (Use_Rt l args)
    with inv show ?thesis by (simp add: rt_site)
  next
    case (Use_Set_Level n)
    with q inv show ?thesis
      by (cases "enable_logging b")
        (auto simp: XLOG_LEVEL_def SetLoggerLevel_def nothing_def xlog_inv_def xlog_abs_def current_level_def)
  next
    case Use_Get_Level
    with q inv show ?thesis
      by (cases "enable_logging b") (auto simp: XLOG_GET_LEVEL_def GetLoggerLevel_def)
  qed
qed

lemma xlog_run:
  assumes "\<forall>c l. sl c l \<longleftrightarrow> spd_code c \<le> spd_code l" and "\<forall>s. fmt (Braces s) = s" and "xlog_inv p"
  shows "\<exists>q. run_ops (xlog_do b sl fmt) p ops = Some (fst (run_spec (xlog_spec b fmt) (xlog_abs p) ops), q)
    \<and> xlog_inv q \<and> xlog_abs q = snd (run_spec (xlog_spec b fmt) (xlog_abs p) ops)"
proof -
  have "refinement (xlog_do b sl fmt) (xlog_spec b fmt) (\<lambda>_. True) xlog_inv xlog_abs"
    by unfold_locales (rule xlog_simulation [OF assms(1,2)])
  from refinement.simulation_run [OF this assms(3), of ops] show ?thesis by (auto simp: list_all_iff)
qed

lemma xlog_fresh:
  assumes "p_instance p = None"
  shows "xlog_inv p" and "xlog_abs p = ResolveLogLevelFromEnv (p_env p) default_log_level"
  using assms by (simp_all add: xlog_inv_def xlog_abs_def current_level_def)

section \<open>Properties\<close>


definition demo_process :: process where
  "demo_process = \<lparr>p_env = (\<lambda>n. if n = ''XLOG_LEVEL'' then Some ''3'' else None), p_exe = Some ''/bin/demo'',
     p_now = \<lparr>tm_year = 126, tm_mon = 0, tm_mday = 1, tm_hour = 0, tm_min = 0, tm_sec = 0\<rparr>,
     p_spdlog = \<lparr>thread_pool = None, registered = [], flush_period = None\<rparr>, p_instance = None\<rparr>"


text \<open>The process-wide logger is set up once: the first use registers exactly one logger, under
  the name of the process, with the console sink, and a file sink exactly when
  \<open>XLOG_ENABLE_LOGFILE\<close> is \<open>TRUE\<close>, \<open>true\<close> or \<open>1\<close> and logging is not off; its level is the one of the
  environment, a full queue drops its oldest record, errors are flushed at once; an existing
  thread pool is kept; and every later use finds the same logger and changes nothing.\<close>

theorem default_logger_set_up_once:
  assumes "p_instance p = None"
  shows "\<exists>v q lg. GetInstance p = Some (v, q) \<and> GetInstance q = Some (v, q) \<and> vendor_logger v = Some lg
    \<and> lg_name lg = GetCurrentProcessName (p_exe p) \<and> count_list (registered (p_spdlog q)) (lg_name lg) = 1
    \<and> lg_level lg = ToSpdlogLevel (ResolveLogLevelFromEnv (p_env p) default_log_level)
    \<and> lg_policy lg = Overrun_Oldest \<and> lg_flush_level lg = spd_err
    \<and> hd (lg_sinks lg) = Stdout_Color_Sink
    \<and> length (lg_sinks lg) = (if p_env p ''XLOG_ENABLE_LOGFILE'' \<in> {Some ''TRUE'', Some ''true'', Some ''1''} \<and> lg_level lg \<noteq> spd_off
        then 2 else 1)
    \<and> thread_pool (p_spdlog q) = (if thread_pool (p_spdlog p) = None then Some (8192, 1) else thread_pool (p_spdlog p))"
proof -
  let ?n = "GetCurrentProcessName (p_exe p)"
  let ?q = "p\<lparr>p_spdlog := spd_after ?n (p_spdlog p), p_instance := Some (first_vendor p)\<rparr>"
  have f: "GetInstance p = Some (first_vendor p, ?q)" by (rule GetInstance_first [OF assms])
  have g: "GetInstance ?q = Some (first_vendor p, ?q)" by (simp add: GetInstance_def)
  have e: "logfile_enabled (p_env p) \<longleftrightarrow> p_env p ''XLOG_ENABLE_LOGFILE'' \<in> {Some ''TRUE'', Some ''true'', Some ''1''}"
    by (cases "p_env p ''XLOG_ENABLE_LOGFILE''") (auto simp: logfile_enabled_def GetEnvironmentVariable_def)
  have c: "count_list (registered (spd_after ?n g)) ?n = 1" for g
    by (simp add: spd_after_def count_list_0_iff)
  obtain lg where lg: "vendor_logger (first_vendor p) = Some lg" by (simp add: first_vendor_def Let_def)
  then have "lg_name lg = ?n" "lg_level lg = ToSpdlogLevel (ResolveLogLevelFromEnv (p_env p) default_log_level)"
    "lg_policy lg = Overrun_Oldest" "lg_flush_level lg = spd_err" "hd (lg_sinks lg) = Stdout_Color_Sink"
    "length (lg_sinks lg) = (if logfile_enabled (p_env p) \<and> lg_level lg \<noteq> spd_off then 2 else 1)"
    by (auto simp: first_vendor_def Let_def)
  with f g lg c show ?thesis
    by (intro exI [of _ "first_vendor p"] exI [of _ ?q] exI [of _ lg]) (simp add: e spd_after_def)
qed

theorem default_logger_set_up_once_witness:
  "\<exists>v q lg. GetInstance demo_process = Some (v, q) \<and> GetInstance q = Some (v, q) \<and> vendor_logger v = Some lg
     \<and> lg_level lg = spd_warn \<and> hd (lg_sinks lg) = Stdout_Color_Sink"
proof -
  have "p_instance demo_process = None" by (simp add: demo_process_def)
  from default_logger_set_up_once [OF this] obtain v q lg where
    "GetInstance demo_process = Some (v, q)" "GetInstance q = Some (v, q)" "vendor_logger v = Some lg"
    "lg_level lg = ToSpdlogLevel (ResolveLogLevelFromEnv (p_env demo_process) default_log_level)"
    "hd (lg_sinks lg) = Stdout_Color_Sink" by blast
  moreover have "ToSpdlogLevel (ResolveLogLevelFromEnv (p_env demo_process) default_log_level) = spd_warn" by code_simp
  ultimately show ?thesis by auto
qed

end
