(* ===== verification/Default_Logger.thy ===== *)
theory Default_Logger
  imports Xlogger Monitor
begin

text \<open>
  The first use of the default logger by several threads at once (\<open>default_logger.cpp\<close>,
  \<open>logger_vendor_spdlog.cpp\<close>). \<open>DefaultLogger::GetInstance\<close> constructs and initialises the
  object inside the initialiser of a function-local static; C++ lets one thread run the
  initialiser and makes the others wait until it has finished.

  The guard is the lock of \<open>Monitor\<close>; the body under it is \<open>Initialize\<close>, statement by
  statement, on an object that only the local pointer \<open>p\<close> refers to and on the global state of
  spdlog. Nothing but the place where \<open>instance\<close> is assigned keeps other threads away from a
  half-initialised object.
\<close>

section \<open>The initialiser, statement by statement\<close>

datatype init_body =
    I_Test
  | I_New
  | I_Name vendor
  | I_Level string vendor
  | I_Logfile string vendor spd_level
  | I_Console string vendor spd_level bool
  | I_File string vendor spd_level bool
  | I_Pool string vendor spd_level
  | I_Logger string vendor spd_level
  | I_Drop string vendor spd_level
  | I_Register string vendor spd_level
  | I_Flush_On vendor spd_level
  | I_Flush_Every vendor spd_level
  | I_Set_Level vendor spd_level
  | I_Publish vendor
  | I_Have vendor

fun init_work :: "process \<Rightarrow> init_body \<Rightarrow> (process \<times> init_body) option" where
  "init_work p I_Test = Some (p, case p_instance p of None \<Rightarrow> I_New | Some v \<Rightarrow> I_Have v)"
| "init_work p I_New = Some (p, I_Name LoggerVendorSpdlog)"
| "init_work p (I_Name v) = Some (p, I_Level (GetCurrentProcessName (p_exe p)) v)"
| "init_work p (I_Level name v) =
     Some (p, I_Logfile name v (ToSpdlogLevel (ResolveLogLevelFromEnv (p_env p) default_log_level)))"
| "init_work p (I_Logfile name v log_level) = Some (p, I_Console name v log_level (logfile_enabled (p_env p)))"
| "init_work p (I_Console name v log_level enable_logfile) =
     Some (p, I_File name (v\<lparr>vendor_sinks := vendor_sinks v @ [Stdout_Color_Sink]\<rparr>) log_level enable_logfile)"
| "init_work p (I_File name v log_level enable_logfile) =
     Some (p, I_Pool name
       (if enable_logfile \<and> spd_code log_level < spd_code spd_off
        then v\<lparr>vendor_sinks := vendor_sinks v @ [Basic_File_Sink (CreateLogNameWithFullPath (p_env p) (p_now p) name ''.log'')]\<rparr>
        else v) log_level)"
| "init_work p (I_Pool name v log_level) =
     Some (if thread_pool (p_spdlog p) = None
           then p\<lparr>p_spdlog := (p_spdlog p)\<lparr>thread_pool := Some (kAsyncQueueSize, kAsyncWorkerThreads)\<rparr>\<rparr>
           else p, I_Logger name v log_level)"
| "init_work p (I_Logger name v log_level) =
     Some (p, I_Drop name (v\<lparr>vendor_logger := Some \<lparr>lg_name = name, lg_sinks = vendor_sinks v, lg_pattern = line_pattern,
       lg_level = spd_info, lg_flush_level = spd_off, lg_policy = Overrun_Oldest\<rparr>\<rparr>) log_level)"
| "init_work p (I_Drop name v log_level) =
     Some (p\<lparr>p_spdlog := (p_spdlog p)\<lparr>registered := removeAll name (registered (p_spdlog p))\<rparr>\<rparr>, I_Register name v log_level)"
| "init_work p (I_Register name v log_level) =
     Some (p\<lparr>p_spdlog := (p_spdlog p)\<lparr>registered := name # registered (p_spdlog p)\<rparr>\<rparr>, I_Flush_On v log_level)"
| "init_work p (I_Flush_On v log_level) =
     map_option (\<lambda>lg. (p, I_Flush_Every (v\<lparr>vendor_logger := Some (lg\<lparr>lg_flush_level := spd_err\<rparr>)\<rparr>) log_level)) (vendor_logger v)"
| "init_work p (I_Flush_Every v log_level) =
     Some (p\<lparr>p_spdlog := (p_spdlog p)\<lparr>flush_period := Some 1\<rparr>\<rparr>, I_Set_Level v log_level)"
| "init_work p (I_Set_Level v log_level) =
     map_option (\<lambda>v. (p, I_Publish v)) (SetLoggerLevel (FromSpdlogLevel log_level) v)"
| "init_work p (I_Publish v) = Some (p\<lparr>p_instance := Some v\<rparr>, I_Have v)"
| "init_work p (I_Have v) = None"

fun init_result :: "init_body \<Rightarrow> vendor option" where
  "init_result (I_Have v) = Some v"
| "init_result _ = None"

fun init_cost :: "init_body \<Rightarrow> nat" where
  "init_cost I_Test = 15"
| "init_cost I_New = 14"
| "init_cost (I_Name _) = 13"
| "init_cost (I_Level _ _) = 12"
| "init_cost (I_Logfile _ _ _) = 11"
| "init_cost (I_Console _ _ _ _) = 10"
| "init_cost (I_File _ _ _ _) = 9"
| "init_cost (I_Pool _ _ _) = 8"
| "init_cost (I_Logger _ _ _) = 7"
| "init_cost (I_Drop _ _ _) = 6"
| "init_cost (I_Register _ _ _) = 5"
| "init_cost (I_Flush_On _ _) = 4"
| "init_cost (I_Flush_Every _ _) = 3"
| "init_cost (I_Set_Level _ _) = 2"
| "init_cost (I_Publish _) = 1"
| "init_cost (I_Have _) = 0"

lemma init_work_cost: "init_work p b = Some (q, b') \<Longrightarrow> init_cost b' < init_cost b"
  by (cases b) (auto split: option.splits)

text \<open>The initialiser run to its end without interruption.\<close>

function init_rest :: "process \<Rightarrow> init_body \<Rightarrow> (vendor \<times> process) option" where
  "init_rest p b = (case init_result b of
     Some v \<Rightarrow> Some (v, p)
   | None \<Rightarrow> (case init_work p b of None \<Rightarrow> None | Some (q, b') \<Rightarrow> init_rest q b'))"
  by pat_completeness auto

termination
  by (relation "measure (\<lambda>(p, b). init_cost b)") (auto dest: init_work_cost)

declare init_rest.simps [simp del]

lemma init_rest_test: "init_rest p I_Test = GetInstance p"
proof (cases "p_instance p")
  case None
  then show ?thesis
    by (cases "p_spdlog p")
      (simp add: GetInstance_def Initialize_def LoggerVendorSpdlog_def SetLoggerLevel_def Let_def init_rest.simps)
next
  case (Some v)
  then show ?thesis by (simp add: GetInstance_def init_rest.simps)
qed

text \<open>The abstract machine: the object is set up at its first use, whole.\<close>

fun first_use_spec :: "process \<Rightarrow> unit \<Rightarrow> vendor \<times> process" where
  "first_use_spec p () = (case p_instance p of
     Some v \<Rightarrow> (v, p)
   | None \<Rightarrow> (first_vendor p,
       p\<lparr>p_spdlog := spd_after (GetCurrentProcessName (p_exe p)) (p_spdlog p), p_instance := Some (first_vendor p)\<rparr>))"

lemma GetInstance_spec: "GetInstance p = Some (first_use_spec p ())"
  by (cases "p_instance p") (simp_all add: GetInstance_first GetInstance_again)

interpretation first_use: monitor "\<lambda>p (_ :: unit). GetInstance p" first_use_spec "\<lambda>_. True" "\<lambda>_. True" "\<lambda>p. p"
    "\<lambda>_. I_Test" init_work init_result init_rest init_cost
proof unfold_locales
  show "\<exists>p'. GetInstance p = Some (fst (first_use_spec p a), p') \<and> True \<and> p' = snd (first_use_spec p a)" for p a
    using GetInstance_spec [of p] by (cases a) (metis prod.collapse)
  show "init_rest p I_Test = GetInstance p" for p by (rule init_rest_test)
  show "init_result b = Some v \<Longrightarrow> init_rest p b = Some (v, p)" for b v p by (simp add: init_rest.simps)
  show "init_result b \<noteq> None \<Longrightarrow> init_work p b = None" for b p by (cases b) auto
  show "\<exists>p' b'. init_work p b = Some (p', b') \<and> init_rest p' b' = Some z \<and> init_cost b' < init_cost b"
    if "init_rest p b = Some z" and "init_result b = None" for p b z
    using that init_work_cost [of p b] by (auto simp: init_rest.simps [of p b] split: option.splits prod.splits)
qed

section \<open>One construction\<close>

definition first_use_step ::
    "(process, unit, init_body, vendor) guarded \<Rightarrow> (unit, vendor) guarded_event \<Rightarrow> (process, unit, init_body, vendor) guarded \<Rightarrow> bool" where
  "first_use_step = guarded_step (\<lambda>_. True) (\<lambda>_. I_Test) init_work init_result"

text \<open>The bodies that build or configure an object.\<close>

definition constructing :: "init_body \<Rightarrow> bool" where
  "constructing b \<longleftrightarrow> 0 < init_cost b \<and> init_cost b < 15"

text \<open>
  Only the first thread that takes the guard constructs, and \<open>instance\<close> is null until it has
  finished.
\<close>

definition once_inv :: "(unit, vendor) guarded_event list \<Rightarrow> (process, unit, init_body, vendor) guarded \<Rightarrow> bool" where
  "once_inv es s \<longleftrightarrow> (\<forall>t b. phase s t = T_Inside b \<longrightarrow> owner s = Some t)
     \<and> (owner s = None \<longrightarrow> (locked es = [] \<longleftrightarrow> p_instance (shared s) = None))
     \<and> (\<forall>t b. phase s t = T_Inside b \<longrightarrow> locked es \<noteq> []
          \<and> (init_cost b = 0 \<longrightarrow> p_instance (shared s) \<noteq> None)
          \<and> (0 < init_cost b \<longrightarrow> (length (locked es) = 1 \<longleftrightarrow> p_instance (shared s) = None))
          \<and> (constructing b \<longrightarrow> p_instance (shared s) = None))"

lemma init_work_instance:
  "init_work p b = Some (q, b') \<Longrightarrow>
     (init_cost b' = 0 \<longrightarrow> p_instance q \<noteq> None) \<and> (0 < init_cost b' \<longrightarrow> p_instance q = p_instance p)
     \<and> (constructing b' \<longrightarrow> 0 < init_cost b' \<and> (constructing b \<or> p_instance p = None)) \<and> 0 < init_cost b"
  by (cases b) (auto simp: constructing_def split: option.splits if_splits)

lemma result_cost: "init_result b = Some v \<longleftrightarrow> b = I_Have v"
  by (cases b) auto

lemma cost_have: "init_cost b = 0 \<longleftrightarrow> (\<exists>v. b = I_Have v)"
  by (cases b) auto

interpretation once: trace_invariant first_use_step "\<lambda>s. \<exists>p. p_instance p = None \<and> s = guarded_start p" once_inv
proof unfold_locales
  show "once_inv [] s" if "\<exists>p. p_instance p = None \<and> s = guarded_start p" for s
    using that by (auto simp: once_inv_def guarded_start_def history_simps)
  show "once_inv (es @ [e]) s'" if inv: "once_inv es s" and st: "first_use_step s e s'" for es s e s'
    using st unfolding first_use_step_def
  proof (cases rule: guarded_step.cases)
    case (call t a)
    with inv show ?thesis by (auto simp: once_inv_def history_simps)
  next
    case (lock t a)
    with inv show ?thesis by (auto simp: once_inv_def history_simps constructing_def)
  next
    case (work t b x b')
    from inv work(3) have "owner s = Some t" by (simp add: once_inv_def)
    with inv work init_work_instance [OF work(4)] show ?thesis by (auto simp: once_inv_def history_simps)
  next
    case (unlock t b r)
    from inv unlock(3) have "owner s = Some t" by (simp add: once_inv_def)
    with inv unlock show ?thesis by (auto simp: once_inv_def history_simps result_cost)
  next
    case (return t r)
    with inv show ?thesis by (auto simp: once_inv_def history_simps)
  qed
qed

section \<open>Properties\<close>

lemma first_use_again: "first_use_spec (snd (first_use_spec p ())) () = first_use_spec p ()"
  by (simp split: option.splits)

lemma first_use_specs:
  "run_spec first_use_spec p (a # as) = (replicate (Suc (length as)) (fst (first_use_spec p ())), snd (first_use_spec p ()))"
proof (induction as arbitrary: a p)
  case Nil
  show ?case by (cases a) (simp add: case_prod_beta del: first_use_spec.simps)
next
  case (Cons b as)
  from Cons.IH [of "snd (first_use_spec p ())" b] first_use_again [of p] show ?case
    by (simp add: case_prod_beta del: first_use_spec.simps)
qed

lemma rest_instance:
  assumes "init_rest p b = Some (v, q)" and "constructing b \<longrightarrow> p_instance p = None"
  shows "p_instance p = None \<or> p_instance p = p_instance q"
proof (cases "constructing b")
  case False
  then consider "b = I_Test" | w where "b = I_Have w" by (cases b) (auto simp: constructing_def)
  then show ?thesis
  proof cases
    case 1
    with assms(1) show ?thesis by (cases "p_instance p") (auto simp: init_rest_test GetInstance_again)
  next
    case 2
    with assms(1) show ?thesis by (simp add: init_rest.simps)
  qed
qed (use assms(2) in simp)

text \<open>C29. The first use of the default logger is safe under concurrency: however many threads call
  \<open>GetInstance\<close> while it has not been set up, interleaved statement by statement of
  \<open>Initialize\<close>, exactly the first to take the guard of the static constructs it. Every call
  returns the object a single sequential call would return, fully configured, so that no log
  call goes through a null logger; other threads see either no object or that one; once the
  guard is free again the process is in the state a single call leaves; and the thread inside
  leaves the guard after at most 15 statements.\<close>

theorem default_logger_first_use:
  assumes "p_instance p = None" and "GetInstance p = Some (w, q)"
    and "run first_use_step (guarded_start p) es s"
  shows "(\<forall>v \<in> set (returned_to t es). v = w \<and> Vendor_Log l args v \<noteq> None)
    \<and> p_instance (shared s) \<in> {None, Some w}
    \<and> (\<forall>b. phase s t = T_Inside b \<and> constructing b \<longrightarrow> length (locked es) = 1 \<and> p_instance (shared s) = None)
    \<and> (owner s = None \<and> locked es \<noteq> [] \<longrightarrow> shared s = q)
    \<and> (owner s = Some t \<longrightarrow> (\<exists>n r s'. n \<le> 15
         \<and> run first_use_step s (replicate n (E_Work t) @ [E_Unlock t r]) s' \<and> owner s' = None))"
proof -
  note r = assms(3) [unfolded first_use_step_def]
  have once: "once_inv es s" using assms(1) by (intro once.inv_run [OF assms(3)]) blast
  have q: "first_use_spec p () = (w, q)" using GetInstance_spec [of p] assms(2) by simp
  have qw: "p_instance q = Some w" and w: "w = first_vendor p"
    using q assms(1) by auto
  obtain rs z where rs: "run_spec first_use_spec p (map snd (locked es)) = (rs, z)" by force
  then have spec: "locked es \<noteq> [] \<longrightarrow> z = q" "set rs \<subseteq> {w}"
    using first_use_specs [of p "hd (map snd (locked es))" "tl (map snd (locked es))"] q
    by (cases "locked es"; auto)+
  note lin = first_use.linearizable [OF r TrueI rs, of t]
  have "set (returned_to t es) \<subseteq> {w}"
  proof -
    from lin obtain n where "returned_to t es = take n (of_thread t (zip (map fst (locked es)) rs))" by blast
    then have "set (returned_to t es) \<subseteq> set (of_thread t (zip (map fst (locked es)) rs))"
      by (metis set_take_subset)
    also have "\<dots> \<subseteq> set rs" by (auto simp: of_thread_def dest: set_zip_rightD)
    finally show ?thesis using spec(2) by blast
  qed
  moreover have "Vendor_Log l args w \<noteq> None"
    by (simp add: w first_vendor_def Let_def Vendor_Log)
  moreover have "p_instance (shared s) \<in> {None, Some w}"
  proof (cases "owner s")
    case None
    with lin spec(1) once qw show ?thesis by (cases "locked es = []") (auto simp: once_inv_def)
  next
    case (Some u)
    from first_use.inside [OF r TrueI Some] obtain b v y where
      b: "phase s u = T_Inside b" "locked es \<noteq> []" "init_rest (shared s) b = Some (v, y)"
      "y = snd (run_spec first_use_spec p (map snd (locked es)))" by blast
    with once have "constructing b \<longrightarrow> p_instance (shared s) = None" by (auto simp: once_inv_def)
    from rest_instance [OF b(3) this] b(2,4) rs spec(1) qw show ?thesis by auto
  qed
  moreover have "\<forall>b. phase s t = T_Inside b \<and> constructing b \<longrightarrow> length (locked es) = 1 \<and> p_instance (shared s) = None"
    using once by (auto simp: once_inv_def constructing_def)
  moreover have "owner s = Some t \<longrightarrow> (\<exists>n r s'. n \<le> 15
         \<and> run first_use_step s (replicate n (E_Work t) @ [E_Unlock t r]) s' \<and> owner s' = None)"
    using first_use.lock_released [OF r TrueI, of t] by (auto simp: first_use_step_def)
  ultimately show ?thesis using lin spec(1) by auto
qed

theorem default_logger_first_use_witness:
  "\<exists>w q es s. GetInstance demo_process = Some (w, q) \<and> run first_use_step (guarded_start demo_process) es s
     \<and> calls_of 0 es = [()] \<and> phase s 0 = T_Waiting () \<and> returned_to 1 es = [w] \<and> shared s = q"
proof -
  obtain w q where g: "GetInstance demo_process = Some (w, q)" using GetInstance_spec [of demo_process] by (metis prod.collapse)
  have n: "p_instance demo_process = None" by (simp add: demo_process_def)
  let ?s1 = "(guarded_start demo_process)\<lparr>phase := (phase (guarded_start demo_process))(0 := T_Waiting ())\<rparr>"
  let ?s2 = "?s1\<lparr>phase := (phase ?s1)(1 := T_Waiting ())\<rparr>"
  have c0: "first_use_step (guarded_start demo_process) (E_Call 0 ()) ?s1"
    unfolding first_use_step_def by (rule guarded_step.call) (simp_all add: guarded_start_def)
  have c1: "first_use_step ?s1 (E_Call 1 ()) ?s2"
    unfolding first_use_step_def by (rule guarded_step.call) (simp_all add: guarded_start_def)
  note r2 = run_cons [where step = first_use_step, OF c0 run_single [where step = first_use_step, OF c1]]
  from first_use.turn_completes [of ?s2 1 "()" w q] g obtain k s where
    t: "run first_use_step ?s2 (E_Lock 1 () # replicate k (E_Work 1) @ [E_Unlock 1 w, E_Return 1 w]) s"
      "owner s = None" "phase s 0 = T_Waiting ()"
    by (auto simp: first_use_step_def guarded_start_def)
  note r = run_append [OF t(1) r2]
  from default_logger_first_use [OF n g r, of 0] t(2,3) g r show ?thesis
    by (intro exI [of _ w] exI [of _ q] exI [of _ "[E_Call 0 (), E_Call 1 ()] @ E_Lock 1 () # replicate k (E_Work 1) @ [E_Unlock 1 w, E_Return 1 w]"]
        exI [of _ s]) (simp add: history_append)
qed

end
