(* ===== verification/Log_File.thy ===== *)
theory Log_File
  imports Default_Logger
begin

text \<open>
  The default logger when its log file cannot be opened. The constructor of spdlog's file sink
  then throws; the exception leaves \<open>Initialize\<close>, the initialiser of the static in
  \<open>DefaultLogger::GetInstance\<close> and the log statement. C++ leaves the static uninitialised and
  releases its guard, so that the next use tries again, at its own time and hence with another
  file name. The object under construction is lost.

  Which files can be opened is the parameter \<open>opens\<close>. An operation of a thread is a use of the
  logger at a time, with an exception (the file that could not be opened) or the logger as result.
\<close>

section \<open>The initialiser with its exception\<close>

datatype try_body = Trying tm init_body | Threw string

fun file_to_open :: "process \<Rightarrow> tm \<Rightarrow> init_body \<Rightarrow> string option" where
  "file_to_open p now (I_File name v log_level enable_logfile) =
     (if enable_logfile \<and> spd_code log_level < spd_code spd_off
      then Some (CreateLogNameWithFullPath (p_env p) now name ''.log'') else None)"
| "file_to_open p now _ = None"

text \<open>\<open>p_now\<close> is the time of the last attempt.\<close>

definition at_time :: "tm \<Rightarrow> init_body \<Rightarrow> process \<Rightarrow> process" where
  "at_time now b p = (case b of I_New \<Rightarrow> p\<lparr>p_now := now\<rparr> | _ \<Rightarrow> p)"

fun try_work :: "(string \<Rightarrow> bool) \<Rightarrow> process \<Rightarrow> try_body \<Rightarrow> (process \<times> try_body) option" where
  "try_work opens p (Threw path) = None"
| "try_work opens p (Trying now b) =
     (case file_to_open p now b of
        Some path \<Rightarrow>
          if opens path then map_option (\<lambda>(q, b'). (q, Trying now b')) (init_work p b) else Some (p, Threw path)
      | None \<Rightarrow> map_option (\<lambda>(q, b'). (q, Trying now b')) (init_work (at_time now b p) b))"

fun try_result :: "try_body \<Rightarrow> (string + vendor) option" where
  "try_result (Threw path) = Some (Inl path)"
| "try_result (Trying now b) = map_option Inr (init_result b)"

fun try_cost :: "try_body \<Rightarrow> nat" where
  "try_cost (Threw _) = 0"
| "try_cost (Trying _ b) = init_cost b"

lemma try_work_cost: "try_work opens p c = Some (q, c') \<Longrightarrow> try_cost c' < try_cost c"
proof (cases c)
  case (Trying now b)
  assume s: "try_work opens p c = Some (q, c')"
  show ?thesis
  proof (cases "c' = Threw (the (file_to_open p now b))")
    case True
    with s Trying show ?thesis by (cases b) (auto split: if_splits option.splits)
  next
    case False
    with s Trying show ?thesis by (auto dest!: init_work_cost split: if_splits option.splits)
  qed
qed simp

function try_rest :: "(string \<Rightarrow> bool) \<Rightarrow> process \<Rightarrow> try_body \<Rightarrow> ((string + vendor) \<times> process) option" where
  "try_rest opens p c = (case try_result c of
     Some r \<Rightarrow> Some (r, p)
   | None \<Rightarrow> (case try_work opens p c of None \<Rightarrow> None | Some (q, c') \<Rightarrow> try_rest opens q c'))"
  by pat_completeness auto

termination
  by (relation "measure (\<lambda>(opens, p, c). try_cost c)") (auto dest: try_work_cost)

declare try_rest.simps [simp del]

text \<open>\<open>GetInstance\<close> called at a time, with its exception.\<close>

definition GetInstance_try :: "(string \<Rightarrow> bool) \<Rightarrow> process \<Rightarrow> tm \<Rightarrow> ((string + vendor) \<times> process) option" where
  "GetInstance_try opens p now = try_rest opens p (Trying now I_Test)"

text \<open>The abstract machine: a use finds the logger, or sets it up whole, or throws and changes nothing.\<close>

definition log_file :: "process \<Rightarrow> string option" where
  "log_file p =
     (if logfile_enabled (p_env p) \<and> ResolveLogLevelFromEnv (p_env p) default_log_level \<noteq> kOff
      then Some (CreateLogNameWithFullPath (p_env p) (p_now p) (GetCurrentProcessName (p_exe p)) ''.log'') else None)"

definition try_spec :: "(string \<Rightarrow> bool) \<Rightarrow> process \<Rightarrow> tm \<Rightarrow> (string + vendor) \<times> process" where
  "try_spec opens p now = (case p_instance p of
     Some v \<Rightarrow> (Inr v, p)
   | None \<Rightarrow> let p = p\<lparr>p_now := now\<rparr> in
       (case log_file p of
          Some path \<Rightarrow> if opens path then map_prod Inr id (first_use_spec p ()) else (Inl path, p)
        | None \<Rightarrow> map_prod Inr id (first_use_spec p ())))"

lemma off_level: "spd_code (ToSpdlogLevel l) < 6 \<longleftrightarrow> l \<noteq> kOff" "ToSpdlogLevel l = spd_off \<longleftrightarrow> l = kOff"
  by (cases l; simp add: ToSpdlogLevel_def)+

lemma GetInstance_try_spec: "GetInstance_try opens p now = Some (try_spec opens p now)"
proof (cases "p_instance p")
  case None
  then show ?thesis
    by (cases "p_spdlog p")
      (simp add: GetInstance_try_def try_spec_def try_rest.simps at_time_def log_file_def off_level first_vendor_def
        LoggerVendorSpdlog_def SetLoggerLevel_def spd_after_def Let_def kAsyncQueueSize_def kAsyncWorkerThreads_def)
next
  case (Some v)
  then show ?thesis by (simp add: GetInstance_try_def try_spec_def try_rest.simps at_time_def)
qed

interpretation try_use: monitor "GetInstance_try opens" "try_spec opens" "\<lambda>_. True" "\<lambda>_. True" "\<lambda>p. p"
    "\<lambda>now. Trying now I_Test" "try_work opens" try_result "try_rest opens" try_cost for opens
proof unfold_locales
  show "\<exists>q. GetInstance_try opens p now = Some (fst (try_spec opens p now), q) \<and> True \<and> q = snd (try_spec opens p now)" for p now
    by (simp add: GetInstance_try_spec)
  show "try_rest opens p (Trying now I_Test) = GetInstance_try opens p now" for p now by (simp add: GetInstance_try_def)
  show "try_result c = Some r \<Longrightarrow> try_rest opens p c = Some (r, p)" for c r p by (simp add: try_rest.simps)
  show "try_result c \<noteq> None \<Longrightarrow> try_work opens p c = None" for c p
  proof (cases c)
    case (Trying now b)
    then show "try_result c \<noteq> None \<Longrightarrow> try_work opens p c = None" by (cases b) (auto simp: at_time_def)
  qed simp
  show "\<exists>q c'. try_work opens p c = Some (q, c') \<and> try_rest opens q c' = Some z \<and> try_cost c' < try_cost c"
    if "try_rest opens p c = Some z" and "try_result c = None" for p c z
    using that try_work_cost [of opens p c] by (auto simp: try_rest.simps [of opens p c] split: option.splits prod.splits)
qed

definition try_step ::
    "(string \<Rightarrow> bool) \<Rightarrow> (process, tm, try_body, string + vendor) guarded \<Rightarrow> (tm, string + vendor) guarded_event
     \<Rightarrow> (process, tm, try_body, string + vendor) guarded \<Rightarrow> bool" where
  "try_step opens = guarded_step (\<lambda>_. True) (\<lambda>now. Trying now I_Test) (try_work opens) try_result"

section \<open>Attempts in order\<close>

text \<open>First the attempts that throw, then one that succeeds, then uses of what it has made.\<close>

definition file_wanted :: "environment \<Rightarrow> bool" where
  "file_wanted env \<longleftrightarrow> logfile_enabled env \<and> ResolveLogLevelFromEnv env default_log_level \<noteq> kOff"

lemma first_use_frame:
  assumes "first_use_spec p () = (v, q)" and "p_instance p = None"
  shows "p_instance q = Some v" and "Vendor_Log l args v \<noteq> None"
  using assms by (auto simp: first_vendor_def Let_def Vendor_Log)

lemma found_again: "p_instance p = Some v \<Longrightarrow> run_spec (try_spec opens) p nows = (replicate (length nows) (Inr v), p)"
  by (induction nows) (simp_all add: try_spec_def)

definition attempts :: "(string \<Rightarrow> bool) \<Rightarrow> process \<Rightarrow> (string + vendor) list \<Rightarrow> process \<Rightarrow> bool" where
  "attempts opens p rs q \<longleftrightarrow> (\<exists>paths n v. rs = map Inl paths @ replicate n (Inr v)
     \<and> (\<forall>path \<in> set paths. file_wanted (p_env p) \<and> \<not> opens path)
     \<and> (n = 0 \<longrightarrow> p_instance q = None \<and> p_spdlog q = p_spdlog p)
     \<and> (0 < n \<longrightarrow> p_instance q = Some v \<and> vendor_logger v \<noteq> None
          \<and> (file_wanted (p_env p) \<longrightarrow> (\<exists>path. opens path \<and> Basic_File_Sink path \<in> set (vendor_sinks v)))))"

lemma first_vendor_file: "log_file p = Some path \<Longrightarrow> Basic_File_Sink path \<in> set (vendor_sinks (first_vendor p))"
  by (simp add: log_file_def first_vendor_def Let_def off_level split: if_splits)

lemma log_file_wanted: "log_file p = None \<longleftrightarrow> \<not> file_wanted (p_env p)"
  by (simp add: log_file_def file_wanted_def)

lemma try_specs:
  "p_instance p = None \<Longrightarrow> run_spec (try_spec opens) p nows = (rs, q) \<Longrightarrow> attempts opens p rs q"
proof (induction nows arbitrary: p rs)
  case Nil
  then show ?case by (auto simp: attempts_def intro!: exI [of _ "[]"] exI [of _ "0 :: nat"])
next
  case (Cons now nows)
  let ?p = "p\<lparr>p_now := now\<rparr>"
  show ?case
  proof (cases "\<exists>path. log_file ?p = Some path \<and> \<not> opens path")
    case True
    then obtain path where path: "log_file ?p = Some path" "\<not> opens path" by blast
    then have s: "try_spec opens p now = (Inl path, ?p)" using Cons.prems(1) by (simp add: try_spec_def)
    obtain rs' where rs': "run_spec (try_spec opens) ?p nows = (rs', q)" "rs = Inl path # rs'"
      using Cons.prems(2) s by (auto split: prod.splits)
    with Cons.IH [of ?p rs'] Cons.prems(1) obtain paths n v where a: "rs' = map Inl paths @ replicate n (Inr v)"
      "\<forall>path \<in> set paths. file_wanted (p_env p) \<and> \<not> opens path" "n = 0 \<longrightarrow> p_instance q = None \<and> p_spdlog q = p_spdlog p"
      "0 < n \<longrightarrow> p_instance q = Some v \<and> vendor_logger v \<noteq> None
          \<and> (file_wanted (p_env p) \<longrightarrow> (\<exists>path. opens path \<and> Basic_File_Sink path \<in> set (vendor_sinks v)))"
      unfolding attempts_def by auto
    moreover have "file_wanted (p_env p)" using path(1) log_file_wanted [of ?p] by simp
    ultimately show ?thesis using path(2) rs'(2)
      unfolding attempts_def by (intro exI [of _ "path # paths"] exI [of _ n] exI [of _ v]) simp
  next
    case False
    obtain v p' where f: "first_use_spec ?p () = (v, p')" by force
    with False Cons.prems(1) have s: "try_spec opens p now = (Inr v, p')"
      by (auto simp: try_spec_def Let_def simp del: first_use_spec.simps split: option.splits)
    have p': "p_instance p' = Some v" by (rule first_use_frame(1) [OF f]) (simp add: Cons.prems(1))
    have v: "v = first_vendor ?p" using f Cons.prems(1) by simp
    have "rs = replicate (Suc (length nows)) (Inr v)" "q = p'"
      using Cons.prems(2) s found_again [OF p', of opens nows] by simp_all
    moreover have "file_wanted (p_env p) \<longrightarrow> (\<exists>path. opens path \<and> Basic_File_Sink path \<in> set (vendor_sinks v))"
      using False log_file_wanted [of ?p] first_vendor_file [of ?p] v by (cases "log_file ?p") auto
    moreover have "vendor_logger v \<noteq> None" by (simp add: v first_vendor_def Let_def)
    ultimately show ?thesis using p'
      unfolding attempts_def by (intro exI [of _ "[]"] exI [of _ "Suc (length nows)"] exI [of _ v]) simp
  qed
qed

section \<open>Log statements\<close>

text \<open>A statement that is compiled in asks for the logger before anything else; its exception leaves
  the statement. \<open>XLOG_RT\<close> statements do not use the default logger.\<close>

fun uses_logger :: "build \<Rightarrow> 'a xlog_op \<Rightarrow> bool" where
  "uses_logger b (Use_Fmt l args) \<longleftrightarrow> l \<noteq> kOff \<and> compiled b l"
| "uses_logger b (Use_Stream l txt) \<longleftrightarrow> l \<noteq> kOff \<and> compiled b l"
| "uses_logger b (Use_Rt l args) \<longleftrightarrow> False"
| "uses_logger b (Use_Set_Level n) \<longleftrightarrow> enable_logging b"
| "uses_logger b Use_Get_Level \<longleftrightarrow> enable_logging b"

definition xlog_try :: "(string \<Rightarrow> bool) \<Rightarrow> build \<Rightarrow> (spd_level \<Rightarrow> spd_level \<Rightarrow> bool) \<Rightarrow> ('a log_args \<Rightarrow> string) \<Rightarrow> process \<Rightarrow>
    tm \<times> 'a xlog_op \<Rightarrow> ((string + 'a xlog_result) \<times> process) option" where
  "xlog_try opens b sl fmt p = (\<lambda>(now, op).
     if uses_logger b op then
       (case GetInstance_try opens p now of
          None \<Rightarrow> None
        | Some (Inl path, q) \<Rightarrow> Some (Inl path, q)
        | Some (Inr v, q) \<Rightarrow> map_option (map_prod Inr id) (xlog_do b sl fmt q op))
     else map_option (map_prod Inr id) (xlog_do b sl fmt p op))"

lemma unused_statement:
  assumes "\<not> uses_logger b op"
  shows "xlog_do b sl fmt p op = Some (fst (xlog_spec b fmt cur op), p)"
  using assms
  by (cases op)
    (auto simp: fmt_site stream_site rt_site observe_site_def nothing_def XLOG_LEVEL_def XLOG_GET_LEVEL_def Let_def line_if_def)

fun refused :: "build \<Rightarrow> ('a log_args \<Rightarrow> string) \<Rightarrow> LogLevel \<Rightarrow> tm \<times> 'a xlog_op \<Rightarrow> string + 'a xlog_result \<Rightarrow> bool" where
  "refused b fmt cur (now, op) r \<longleftrightarrow>
     (if uses_logger b op then isl r else r = Inr (fst (xlog_spec b fmt cur op)))"

text \<open>Without any file that can be opened, every statement that is compiled in throws, and no
  statement has any other effect; nothing is shown on the console either.\<close>

lemma statements_throw:
  assumes "p_instance p = None" and "file_wanted (p_env p)" and "\<forall>path. \<not> opens path"
  shows "\<exists>rs q. run_ops (xlog_try opens b sl fmt) p ops = Some (rs, q) \<and> p_instance q = None \<and> p_spdlog q = p_spdlog p
    \<and> list_all2 (refused b fmt cur) ops rs"
  using assms
proof (induction ops arbitrary: p)
  case (Cons a ops)
  obtain now op where a: "a = (now, op)" by (cases a)
  show ?case
  proof (cases "uses_logger b op")
    case True
    let ?p = "p\<lparr>p_now := now\<rparr>"
    obtain path where "log_file ?p = Some path" using log_file_wanted [of ?p] Cons.prems(2) by (cases "log_file ?p") auto
    then have "try_spec opens p now = (Inl path, ?p)" using Cons.prems by (simp add: try_spec_def)
    with True have "xlog_try opens b sl fmt p (now, op) = Some (Inl path, ?p)" by (simp add: xlog_try_def GetInstance_try_spec)
    moreover from Cons.IH [OF _ _ Cons.prems(3), of ?p] Cons.prems(1,2) obtain rs q where
      "run_ops (xlog_try opens b sl fmt) ?p ops = Some (rs, q)" "p_instance q = None" "p_spdlog q = p_spdlog p"
      "list_all2 (refused b fmt cur) ops rs" by auto
    ultimately show ?thesis using a True by simp
  next
    case False
    from unused_statement [OF False] False have "xlog_try opens b sl fmt p (now, op) = Some (Inr (fst (xlog_spec b fmt cur op)), p)"
      by (simp add: xlog_try_def)
    with Cons.IH [OF Cons.prems] a False show ?thesis by auto
  qed
qed simp

section \<open>Properties\<close>

text \<open>C30. A log file that cannot be opened, with any number of threads: the uses of the default
  logger, interleaved statement by statement of \<open>Initialize\<close>, throw exactly for files that were
  wanted and could not be opened, and all uses that return give one and the same logger, which is
  usable and writes to a file that could be opened when one was wanted. A use that throws releases
  the guard like any other, within 15 statements, and leaves no trace in spdlog; and while no
  file can be opened, a program of log statements throws at every one that is compiled in, and
  shows nothing.\<close>

theorem log_file_failure:
  assumes "p_instance p = None" and "run (try_step opens) (guarded_start p) es s"
  shows "(\<forall>t path. Inl path \<in> set (returned_to t es) \<longrightarrow> file_wanted (p_env p) \<and> \<not> opens path)
    \<and> (\<exists>v. \<forall>t w. Inr w \<in> set (returned_to t es) \<longrightarrow> w = v \<and> vendor_logger v \<noteq> None
        \<and> (file_wanted (p_env p) \<longrightarrow> (\<exists>path. opens path \<and> Basic_File_Sink path \<in> set (vendor_sinks v))))
    \<and> (owner s = None \<and> p_instance (shared s) = None \<longrightarrow> p_spdlog (shared s) = p_spdlog p)
    \<and> (owner s = Some t \<longrightarrow> (\<exists>n r s'. n \<le> 15
         \<and> run (try_step opens) s (replicate n (E_Work t) @ [E_Unlock t r]) s' \<and> owner s' = None))
    \<and> (file_wanted (p_env p) \<and> (\<forall>path. \<not> opens path) \<longrightarrow>
         (\<exists>rs q. run_ops (xlog_try opens b sl fmt) p ops = Some (rs, q) \<and> p_spdlog q = p_spdlog p
           \<and> list_all2 (refused b fmt cur) ops rs))"
proof -
  note r = assms(2) [unfolded try_step_def]
  obtain rs z where rs: "run_spec (try_spec opens) p (map snd (locked es)) = (rs, z)" by force
  from try_specs [OF assms(1) rs] obtain paths n v where a: "rs = map Inl paths @ replicate n (Inr v)"
    "\<forall>path \<in> set paths. file_wanted (p_env p) \<and> \<not> opens path" "n = 0 \<longrightarrow> p_instance z = None \<and> p_spdlog z = p_spdlog p"
    "0 < n \<longrightarrow> p_instance z = Some v \<and> vendor_logger v \<noteq> None
       \<and> (file_wanted (p_env p) \<longrightarrow> (\<exists>path. opens path \<and> Basic_File_Sink path \<in> set (vendor_sinks v)))"
    unfolding attempts_def by blast
  note lin = try_use.linearizable [OF r TrueI rs]
  have sub: "set (returned_to t es) \<subseteq> set rs" for t
  proof -
    from lin [of t] obtain k where "returned_to t es = take k (of_thread t (zip (map fst (locked es)) rs))" by blast
    then have "set (returned_to t es) \<subseteq> set (of_thread t (zip (map fst (locked es)) rs))" by (metis set_take_subset)
    also have "\<dots> \<subseteq> set rs" by (auto simp: of_thread_def dest: set_zip_rightD)
    finally show ?thesis .
  qed
  have thrown: "Inl path \<in> set (returned_to t es) \<Longrightarrow> file_wanted (p_env p) \<and> \<not> opens path" for t path
    using sub [of t] a(1,2) by auto
  have got: "Inr w \<in> set (returned_to t es) \<Longrightarrow> w = v \<and> 0 < n" for t w
    using sub [of t] a(1) by (auto simp: set_replicate_conv_if split: if_splits)
  have "owner s = None \<longrightarrow> shared s = z" using lin [of 0] by simp
  then have quiet: "owner s = None \<and> p_instance (shared s) = None \<longrightarrow> p_spdlog (shared s) = p_spdlog p"
    using a(3,4) by (cases "n = 0") auto
  have out: "owner s = Some t \<longrightarrow> (\<exists>n r s'. n \<le> 15
         \<and> run (try_step opens) s (replicate n (E_Work t) @ [E_Unlock t r]) s' \<and> owner s' = None)"
    using try_use.lock_released [OF r TrueI, of t] by (auto simp: try_step_def)
  have statements: "file_wanted (p_env p) \<and> (\<forall>path. \<not> opens path) \<longrightarrow>
      (\<exists>rs q. run_ops (xlog_try opens b sl fmt) p ops = Some (rs, q) \<and> p_spdlog q = p_spdlog p
         \<and> list_all2 (refused b fmt cur) ops rs)"
    using statements_throw [OF assms(1)] by blast
  show ?thesis using thrown got a(4) quiet out statements by blast
qed

text \<open>A thread throws while another waits for the guard.\<close>

theorem log_file_failure_witness:
  "let p = demo_process\<lparr>p_env := (\<lambda>n. if n = ''XLOG_ENABLE_LOGFILE'' then Some ''1'' else None)\<rparr>
   in \<exists>path es s. run (try_step (\<lambda>_. False)) (guarded_start p) es s \<and> returned_to 1 es = [Inl path]
     \<and> phase s 0 = T_Waiting (p_now p) \<and> p_instance (shared s) = None \<and> p_spdlog (shared s) = p_spdlog p"
proof -
  let ?p = "demo_process\<lparr>p_env := (\<lambda>n. if n = ''XLOG_ENABLE_LOGFILE'' then Some ''1'' else None)\<rparr>"
  let ?opens = "\<lambda>_ :: string. False"
  have n: "p_instance ?p = None" by (simp add: demo_process_def)
  have w: "file_wanted (p_env ?p)" by code_simp
  obtain path where "log_file (?p\<lparr>p_now := p_now ?p\<rparr>) = Some path"
    using log_file_wanted [of "?p\<lparr>p_now := p_now ?p\<rparr>"] w by (cases "log_file (?p\<lparr>p_now := p_now ?p\<rparr>)") auto
  then have g: "GetInstance_try ?opens ?p (p_now ?p) = Some (Inl path, ?p\<lparr>p_now := p_now ?p\<rparr>)"
    using n by (simp add: GetInstance_try_spec try_spec_def)
  let ?s1 = "(guarded_start ?p)\<lparr>phase := (phase (guarded_start ?p))(0 := T_Waiting (p_now ?p))\<rparr>"
  let ?s2 = "?s1\<lparr>phase := (phase ?s1)(1 := T_Waiting (p_now ?p))\<rparr>"
  have c0: "try_step ?opens (guarded_start ?p) (E_Call 0 (p_now ?p)) ?s1"
    unfolding try_step_def by (rule guarded_step.call) (simp_all add: guarded_start_def)
  have c1: "try_step ?opens ?s1 (E_Call 1 (p_now ?p)) ?s2"
    unfolding try_step_def by (rule guarded_step.call) (simp_all add: guarded_start_def)
  note r2 = run_cons [where step = "try_step ?opens", OF c0 run_single [where step = "try_step ?opens", OF c1]]
  from try_use.turn_completes [where opens = ?opens, of ?s2 1 "p_now ?p" "Inl path" "?p\<lparr>p_now := p_now ?p\<rparr>"] g obtain k s where
    t: "run (try_step ?opens) ?s2 (E_Lock 1 (p_now ?p) # replicate k (E_Work 1) @ [E_Unlock 1 (Inl path), E_Return 1 (Inl path)]) s"
      "owner s = None" "phase s 0 = T_Waiting (p_now ?p)" "shared s = ?p\<lparr>p_now := p_now ?p\<rparr>"
    by (auto simp: try_step_def guarded_start_def)
  note r = run_append [OF t(1) r2]
  have i: "p_instance (shared s) = None" using t(4) n by simp
  with log_file_failure [OF n r] t(2) have "p_spdlog (shared s) = p_spdlog ?p" by blast
  with r t(3) i show ?thesis
    unfolding Let_def
    by (intro exI [of _ path] exI [of _ "[E_Call 0 (p_now ?p), E_Call 1 (p_now ?p)] @ E_Lock 1 (p_now ?p) # replicate k (E_Work 1)
        @ [E_Unlock 1 (Inl path), E_Return 1 (Inl path)]"] exI [of _ s]) (simp add: history_append)
qed

end
