(* ===== verification/Data_Loggers.thy ===== *)
theory Data_Loggers
  imports Xlogger
begin

text \<open>
  The data loggers: \<open>SpecializedLogger\<close> (\<open>specialized_logger.hpp\<close>) and its subclasses
  \<open>CsvLogger\<close>, \<open>GlobalCsvLogger\<close> (\<open>csv_logger.hpp\<close>) and \<open>EventLogger\<close>
  (\<open>event_logger.hpp\<close>). The control logger has a theory of its own.

  A logger of spdlog is known by the name it is registered under. Registration belongs to
  spdlog and is a parameter \<open>register\<close>: from a name and the state of the registry to the new
  state, or \<open>None\<close> when the factory throws \<open>spdlog_ex\<close>. What is observed of a method are its
  calls on the logger: the member, named by its level, and the text, which is always passed as
  the argument of the format string \<open>"{}"\<close>. The text of one value is a parameter, \<open>to_str\<close>.
\<close>

section \<open>SpecializedLogger\<close>

record specialized_logger =
  sl_logger :: "string option"
  logfile_prefix :: string
  logfile_path :: string

text \<open>The constructor: \<open>Inl\<close> is the exception of the factory.\<close>

definition SpecializedLogger :: "build \<Rightarrow> (string \<Rightarrow> 'r \<Rightarrow> 'r option) \<Rightarrow> tm \<Rightarrow> string \<Rightarrow> string \<Rightarrow> 'r \<Rightarrow>
    string + specialized_logger \<times> 'r" where
  "SpecializedLogger b register now prefix path r =
     (if enable_logging b
      then let filename = CreateLogFileName now prefix path
           in case register filename r of
                None \<Rightarrow> Inl ''spdlog_ex''
              | Some r \<Rightarrow> Inr (\<lparr>sl_logger = Some filename, logfile_prefix = prefix, logfile_path = path\<rparr>, r)
      else Inr (\<lparr>sl_logger = None, logfile_prefix = prefix, logfile_path = path\<rparr>, r))"

datatype log_call = Info string | Warn string | Critical string | Flush_Call

text \<open>A call through \<open>logger_\<close>; through a null pointer it is undefined.\<close>

definition on_logger :: "'a specialized_logger_scheme \<Rightarrow> log_call \<Rightarrow> log_call list option" where
  "on_logger lg c = map_option (\<lambda>_. [c]) (sl_logger lg)"

definition Flush :: "build \<Rightarrow> specialized_logger \<Rightarrow> log_call list option" where
  "Flush b lg = (if enable_logging b then if sl_logger lg \<noteq> None then on_logger lg Flush_Call else Some [] else Some [])"

text \<open>The stream \<open>o\<close> is the text written so far.\<close>

fun build_string :: "('v \<Rightarrow> string) \<Rightarrow> string \<Rightarrow> 'v list \<Rightarrow> string" where
  "build_string to_str out [] = out"
| "build_string to_str out (value # rest) = build_string to_str (out @ (to_str value @ '','')) rest"

section \<open>CsvLogger and EventLogger\<close>

definition CsvLogger :: "build \<Rightarrow> (string \<Rightarrow> 'r \<Rightarrow> 'r option) \<Rightarrow> tm \<Rightarrow> string \<Rightarrow> string \<Rightarrow> 'r \<Rightarrow>
    string + specialized_logger \<times> 'r" where
  "CsvLogger b register now prefix path r = SpecializedLogger b register now prefix path r"

definition LogData :: "build \<Rightarrow> ('v \<Rightarrow> string) \<Rightarrow> specialized_logger \<Rightarrow> 'v list \<Rightarrow> log_call list option" where
  "LogData b to_str lg vals =
     (if enable_logging b
      then let data = build_string to_str [] vals
           in if data = [] then Some [] else on_logger lg (Info (butlast data))
      else Some [])"

definition EventLogger :: "build \<Rightarrow> (string \<Rightarrow> 'r \<Rightarrow> 'r option) \<Rightarrow> tm \<Rightarrow> string \<Rightarrow> string \<Rightarrow> 'r \<Rightarrow>
    string + specialized_logger \<times> 'r" where
  "EventLogger b register now prefix path r = SpecializedLogger b register now prefix path r"

text \<open>The event logger hides \<open>build_string\<close> with one that streams the value itself.\<close>

fun event_build_string :: "('v \<Rightarrow> string) \<Rightarrow> string \<Rightarrow> 'v list \<Rightarrow> string" where
  "event_build_string streamed out [] = out"
| "event_build_string streamed out (value # rest) = event_build_string streamed ((out @ streamed value) @ '','') rest"

definition LogEvent :: "build \<Rightarrow> ('v \<Rightarrow> string) \<Rightarrow> specialized_logger \<Rightarrow> 'v list \<Rightarrow> log_call list option" where
  "LogEvent b streamed lg vals =
     (if enable_logging b
      then let data = event_build_string streamed [] vals
           in if data = [] then Some [] else on_logger lg (Info (butlast data))
      else Some [])"

definition LogInfo :: "build \<Rightarrow> specialized_logger \<Rightarrow> string \<Rightarrow> log_call list option" where
  "LogInfo b lg msg = (if enable_logging b then on_logger lg (Info msg) else Some [])"

definition LogWarn :: "build \<Rightarrow> specialized_logger \<Rightarrow> string \<Rightarrow> log_call list option" where
  "LogWarn b lg msg = (if enable_logging b then on_logger lg (Warn msg) else Some [])"

definition LogFatal :: "build \<Rightarrow> specialized_logger \<Rightarrow> string \<Rightarrow> log_call list option" where
  "LogFatal b lg msg = (if enable_logging b then on_logger lg (Critical msg) else Some [])"

text \<open>
  \<open>GlobalCsvLogger::GetLogger\<close>: a function-local static. Only the arguments of the first call
  that succeeds count; when its constructor throws, the next call tries again.
\<close>

definition GlobalCsvLogger_GetLogger :: "build \<Rightarrow> (string \<Rightarrow> 'r \<Rightarrow> 'r option) \<Rightarrow> tm \<Rightarrow> string \<Rightarrow> string \<Rightarrow>
    specialized_logger option \<times> 'r \<Rightarrow> (string + specialized_logger) \<times> (specialized_logger option \<times> 'r)" where
  "GlobalCsvLogger_GetLogger b register now prefix path st = (case st of
     (Some lg, r) \<Rightarrow> (Inr lg, (Some lg, r))
   | (None, r) \<Rightarrow>
       (case CsvLogger b register now prefix path r of
          Inl e \<Rightarrow> (Inl e, (None, r))
        | Inr (lg, r) \<Rightarrow> (Inr lg, (Some lg, r))))"

section \<open>Rows and fields\<close>

text \<open>Splitting a row at a separator, and joining fields with one.\<close>

fun split_on :: "char \<Rightarrow> string \<Rightarrow> string list" where
  "split_on c [] = [[]]"
| "split_on c (x # xs) = (if x = c then [] # split_on c xs else (x # hd (split_on c xs)) # tl (split_on c xs))"

fun join :: "string \<Rightarrow> string list \<Rightarrow> string" where
  "join sep [] = []"
| "join sep [x] = x"
| "join sep (x # y # ys) = x @ sep @ join sep (y # ys)"

lemma join_Cons: "xs \<noteq> [] \<Longrightarrow> join sep (x # xs) = x @ sep @ join sep xs"
  by (cases xs) simp_all

lemma join_snoc: "concat (map (\<lambda>x. x @ sep) xs) = (if xs = [] then [] else join sep xs @ sep)"
  by (induction xs) (auto simp: join_Cons)

lemma split_on_ne: "split_on c xs \<noteq> []"
  by (cases xs) simp_all

lemma split_on_field: "c \<notin> set x \<Longrightarrow> split_on c x = [x]"
  by (induction x) auto

lemma split_on_first: "c \<notin> set x \<Longrightarrow> split_on c (x @ c # rest) = x # split_on c rest"
  by (induction x) auto

lemma split_on_join: "xs \<noteq> [] \<Longrightarrow> (\<And>x. x \<in> set xs \<Longrightarrow> c \<notin> set x) \<Longrightarrow> split_on c (join [c] xs) = xs"
proof (induction xs)
  case (Cons x xs)
  then show ?case by (cases "xs = []") (simp_all add: split_on_field join_Cons split_on_first)
qed simp

lemma build_string_eq: "build_string to_str out vals = out @ concat (map (\<lambda>v. to_str v @ '','') vals)"
  by (induction to_str out vals rule: build_string.induct) simp_all

lemma event_build_string_eq: "event_build_string to_str out vals = build_string to_str out vals"
  by (induction to_str out vals rule: event_build_string.induct) simp_all

text \<open>Both loggers hand over the fields joined with commas, and nothing without fields.\<close>

lemma LogData_row:
  "enable_logging b \<Longrightarrow> LogData b to_str lg vals
     = (if vals = [] then Some [] else on_logger lg (Info (join '','' (map to_str vals))))"
  by (simp add: LogData_def build_string_eq join_snoc [of "'',''" "map to_str vals", unfolded map_map comp_def] Let_def butlast_append)

lemma LogEvent_row:
  "enable_logging b \<Longrightarrow> LogEvent b to_str lg vals
     = (if vals = [] then Some [] else on_logger lg (Info (join '','' (map to_str vals))))"
  using LogData_row [of b to_str lg vals] by (simp add: LogEvent_def LogData_def event_build_string_eq)

section \<open>Integer fields\<close>

text \<open>\<open>std::to_string\<close> of an integer: its decimal digits, with a minus sign.\<close>

definition to_string_int :: "int \<Rightarrow> string" where
  "to_string_int n = (if n < 0 then ''-'' @ digits 1 (nat (- n)) else digits 1 (nat n))"

lemma is_digit_digit_char: "is_digit (digit_char n)"
  by (simp add: is_digit_def of_digit_char)

lemma digits_are_digits: "list_all is_digit (digits w n)"
proof (induction w n rule: digits.induct)
  case (1 n)
  then show ?case by (subst digits.simps) (simp add: is_digit_digit_char)
next
  case (2 w n)
  then show ?case by (simp add: digits.simps(2) is_digit_digit_char)
qed

lemma to_string_int_no_comma: "CHR '','' \<notin> set (to_string_int n)"
proof -
  have "CHR '','' \<notin> set (digits w m)" for w m
    using digits_are_digits [of w m] by (auto simp: list_all_iff is_digit_def)
  then show ?thesis by (simp add: to_string_int_def)
qed

lemma digits_ne: "0 < w \<Longrightarrow> digits w n \<noteq> []"
  by (cases w) (simp_all add: digits.simps(2))

lemma strtol10_to_string_int:
  assumes "- (2 ^ 63) \<le> n" and "n < 2 ^ 63"
  shows "strtol10 (to_string_int n) = (n, Some [])"
proof -
  have "saturate_long n = n" unfolding saturate_long_def using assms by linarith
  then show ?thesis
    using strtol10_number [of "[]" "''-''" "digits 1 (nat (- n))" "[]"] strtol10_number [of "[]" "[]" "digits 1 (nat n)" "[]"]
    by (auto simp: to_string_int_def digits_are_digits digits_ne decimal_digits)
qed

section \<open>Properties\<close>

text \<open>C31. What a data logger writes can be read back: with logging compiled in, \<open>LogData\<close> with at
  least one integer makes exactly one \<open>info\<close> call, whose text splits at its commas into the
  fields, each of which \<open>strtol\<close> reads back as the integer; \<open>LogEvent\<close> writes the same row for
  vals that stream the same text, and without arguments neither writes anything.\<close>

theorem data_rows_parse_back:
  assumes "enable_logging b" and "sl_logger lg \<noteq> None" and "\<forall>n\<in>set vals. - (2 ^ 63) \<le> n \<and> n < 2 ^ 63"
  shows "if vals = [] then LogData b to_string_int lg vals = Some [] \<and> LogEvent b to_string_int lg vals = Some []
    else \<exists>row. LogData b to_string_int lg vals = Some [Info row] \<and> LogEvent b to_string_int lg vals = Some [Info row]
      \<and> map (fst \<circ> strtol10) (split_on CHR '','' row) = vals"
proof (cases "vals = []")
  case True
  then show ?thesis by (simp add: LogData_row [OF assms(1)] LogEvent_row [OF assms(1)])
next
  case False
  from assms(2) obtain name where "sl_logger lg = Some name" by blast
  then have call: "on_logger lg c = Some [c]" for c by (simp add: on_logger_def)
  let ?row = "join '','' (map to_string_int vals)"
  have "split_on CHR '','' ?row = map to_string_int vals"
    by (rule split_on_join) (use False to_string_int_no_comma in auto)
  then have "map (fst \<circ> strtol10) (split_on CHR '','' ?row) = map (\<lambda>n. fst (strtol10 (to_string_int n))) vals" by simp
  also have "\<dots> = vals" using assms(3) by (intro map_idI) (simp add: strtol10_to_string_int)
  finally show ?thesis using False by (simp add: LogData_row [OF assms(1)] LogEvent_row [OF assms(1)] call)
qed

theorem data_rows_parse_back_witness:
  "\<exists>row. LogData \<lparr>enable_logging = True, active_level = 0\<rparr> to_string_int
      \<lparr>sl_logger = Some ''log'', logfile_prefix = [], logfile_path = []\<rparr> [12, - 3] = Some [Info row]
    \<and> map (fst \<circ> strtol10) (split_on CHR '','' row) = [12, - 3]"
  using data_rows_parse_back [of "\<lparr>enable_logging = True, active_level = 0\<rparr>"
      "\<lparr>sl_logger = Some ''log'', logfile_prefix = [], logfile_path = []\<rparr>" "[12, - 3]"]
  by auto

lemma CreateLogFileName_eq:
  assumes "valid_tm t" and "valid_tm u"
  shows "CreateLogFileName t prefix path = CreateLogFileName u prefix path \<longleftrightarrow> t = u"
  using strftime_inject [OF assms] by (auto simp: CreateLogFileName_def append_eq_append_conv length_stamp [OF assms(1)] length_stamp [OF assms(2)])

text \<open>C32. Two data loggers with the same prefix and path collide within one second: once the first
  has its logger, the constructor of a second one of any class throws exactly when it runs in
  the same second (or another logger already holds its name), because spdlog refuses a second
  logger of the same name; the global CSV logger then stays unset.\<close>

theorem data_loggers_collide_within_a_second:
  assumes law: "\<forall>n m r r'. register n r = Some r' \<longrightarrow> (register m r' = None \<longleftrightarrow> m = n \<or> register m r = None)"
    and "enable_logging b" and first: "CsvLogger b register now prefix path r = Inr (lg, r')"
    and "valid_tm now" and "valid_tm later"
  shows "(EventLogger b register later prefix path r' = Inl ''spdlog_ex''
        \<longleftrightarrow> later = now \<or> EventLogger b register later prefix path r = Inl ''spdlog_ex'')
    \<and> (CsvLogger b register later prefix path r' = Inl ''spdlog_ex''
        \<longleftrightarrow> later = now \<or> CsvLogger b register later prefix path r = Inl ''spdlog_ex'')
    \<and> GlobalCsvLogger_GetLogger b register now prefix path (None, r') = (Inl ''spdlog_ex'', (None, r'))"
proof -
  let ?n = "\<lambda>t. CreateLogFileName t prefix path"
  have throws: "SpecializedLogger b register t prefix path q = Inl ''spdlog_ex'' \<longleftrightarrow> register (?n t) q = None" for t q
    using assms(2) by (auto simp: SpecializedLogger_def Let_def split: option.splits)
  from assms(2) first have taken: "register (?n now) r = Some r'"
    by (simp add: CsvLogger_def SpecializedLogger_def Let_def split: option.splits)
  have r': "register m r' = None \<longleftrightarrow> m = ?n now \<or> register m r = None" for m
    using taken by (rule law [rule_format])
  have "register (?n now) r' = None" by (simp add: r')
  then have again: "SpecializedLogger b register now prefix path r' = Inl ''spdlog_ex''" by (simp only: throws)
  show ?thesis
    by (simp add: CsvLogger_def EventLogger_def GlobalCsvLogger_GetLogger_def again)
      (simp add: throws r' CreateLogFileName_eq [OF assms(5,4)])
qed

theorem data_loggers_collide_within_a_second_witness:
  "let register = (\<lambda>n names. if n \<in> set names then None else Some (n # names));
       b = \<lparr>enable_logging = True, active_level = 0\<rparr>;
       now = \<lparr>tm_year = 126, tm_mon = 6, tm_mday = 4, tm_hour = 9, tm_min = 0, tm_sec = 59\<rparr>
   in \<exists>lg names. CsvLogger b register now ''run'' ''/tmp'' [] = Inr (lg, names)
     \<and> EventLogger b register now ''run'' ''/tmp'' names = Inl ''spdlog_ex''"
proof -
  let ?r = "\<lambda>n names. if n \<in> set names then None else Some (n # names)" and ?b = "\<lparr>enable_logging = True, active_level = 0\<rparr>"
  let ?now = "\<lparr>tm_year = 126, tm_mon = 6, tm_mday = 4, tm_hour = 9, tm_min = 0, tm_sec = 59\<rparr>"
  have law: "\<forall>n m r r'. ?r n r = Some r' \<longrightarrow> (?r m r' = None \<longleftrightarrow> m = n \<or> ?r m r = None)" by auto
  obtain lg names where f: "CsvLogger ?b ?r ?now ''run'' ''/tmp'' [] = Inr (lg, names)"
    by (simp add: CsvLogger_def SpecializedLogger_def Let_def)
  have "valid_tm ?now" by (simp add: valid_tm_def)
  from data_loggers_collide_within_a_second [OF law _ f this this] f show ?thesis by (auto simp: Let_def)
qed

end
