(* ===== verification/Ctrl_Logger.thy ===== *)
theory Ctrl_Logger
  imports Data_Loggers "HOL-Library.AList"
begin

text \<open>
  \<open>CtrlLogger\<close> (\<open>ctrl_logger.hpp\<close>, \<open>ctrl_logger.cpp\<close>): a data logger with named columns. Names
  are collected, written as a header, and values are then put into a row by name or by column
  number and written row by row.

  \<open>entry_names_\<close>, which the code iterates over, is an association list sorted by key, as
  \<open>std::map\<close> is; \<open>entry_ids_\<close>, which it only looks names up in, is an association list. An
  unchecked access outside \<open>item_data_\<close> is undefined behaviour. \<open>std::to_string(double)\<close> is the
  parameter \<open>to_string\<close>. Calls are taken one after the other: the class has no lock.
\<close>

section \<open>State\<close>

record ctrl_logger = specialized_logger +
  head_added :: bool
  entry_names :: "(u64 \<times> string) list"
  entry_ids :: "(string \<times> u64) list"
  item_counter :: u64
  item_data :: "string list"

datatype ctrl_event = Cerr string | Logged string

datatype ctrl_result = Undefined_Behaviour | Events "ctrl_event list"

section \<open>Operations\<close>

definition CtrlLogger :: "build \<Rightarrow> (string \<Rightarrow> 'r \<Rightarrow> 'r option) \<Rightarrow> tm \<Rightarrow> string \<Rightarrow> string \<Rightarrow> 'r \<Rightarrow> string + ctrl_logger \<times> 'r" where
  "CtrlLogger b register now prefix path r = (case SpecializedLogger b register now prefix path r of
     Inl e \<Rightarrow> Inl e
   | Inr (lg, r) \<Rightarrow>
       Inr (\<lparr>sl_logger = sl_logger lg, logfile_prefix = logfile_prefix lg, logfile_path = logfile_path lg,
             head_added = False, entry_names = [], entry_ids = [], item_counter = 0, item_data = []\<rparr>, r))"

text \<open>The function-local static of \<open>GetLogger\<close>.\<close>

definition CtrlLogger_GetLogger :: "build \<Rightarrow> (string \<Rightarrow> 'r \<Rightarrow> 'r option) \<Rightarrow> tm \<Rightarrow> string \<Rightarrow> string \<Rightarrow>
    ctrl_logger option \<times> 'r \<Rightarrow> (string + ctrl_logger) \<times> (ctrl_logger option \<times> 'r)" where
  "CtrlLogger_GetLogger b register now prefix path st = (case st of
     (Some lg, r) \<Rightarrow> (Inr lg, (Some lg, r))
   | (None, r) \<Rightarrow>
       (case CtrlLogger b register now prefix path r of
          Inl e \<Rightarrow> (Inl e, (None, r))
        | Inr (lg, r) \<Rightarrow> (Inr lg, (Some lg, r))))"

text \<open>\<open>std::map::operator[]\<close> followed by an assignment: keys stay sorted and distinct.\<close>

fun put_sorted :: "'k::linorder \<Rightarrow> 'v \<Rightarrow> ('k \<times> 'v) list \<Rightarrow> ('k \<times> 'v) list" where
  "put_sorted k v [] = [(k, v)]"
| "put_sorted k v ((k', v') # m) =
     (if k < k' then (k, v) # (k', v') # m else if k = k' then (k, v) # m else (k', v') # put_sorted k v m)"

definition AddItemNameToEntryHead :: "string \<Rightarrow> ctrl_logger \<Rightarrow> ctrl_logger" where
  "AddItemNameToEntryHead name s =
     (if map_of (entry_ids s) name = None
      then s\<lparr>entry_names := put_sorted (item_counter s) name (entry_names s),
             entry_ids := AList.update name (item_counter s) (entry_ids s),
             item_counter := item_counter s + 1\<rparr>
      else s)"

definition AddItemDataToEntry_name :: "string \<Rightarrow> string \<Rightarrow> ctrl_logger \<Rightarrow> ctrl_result \<times> ctrl_logger" where
  "AddItemDataToEntry_name item_name data_str s =
     (if \<not> head_added s then (Events [Cerr ''No heading for log entries has been added, data ignored!''], s)
      else case map_of (entry_ids s) item_name of
          None \<Rightarrow> (Events [Cerr ''Failed to find data entry!''], s)
        | Some i \<Rightarrow>
            (case arr_set (item_data s) i data_str of
               None \<Rightarrow> (Undefined_Behaviour, s)
             | Some d \<Rightarrow> (Events [], s\<lparr>item_data := d\<rparr>)))"

definition out_of_range :: "u64 \<Rightarrow> string" where
  "out_of_range item_id = ''CtrlLogger: item_id '' @ to_string_int (int (unat item_id)) @ '' out of range, data ignored!''"

definition AddItemDataToEntry_id :: "u64 \<Rightarrow> string \<Rightarrow> ctrl_logger \<Rightarrow> ctrl_result \<times> ctrl_logger" where
  "AddItemDataToEntry_id item_id data_str s =
     (if \<not> head_added s then (Events [], s)
      else if vec_size (item_data s) \<le> item_id then (Events [Cerr (out_of_range item_id)], s)
      else case arr_set (item_data s) item_id data_str of
          None \<Rightarrow> (Undefined_Behaviour, s)
        | Some d \<Rightarrow> (Events [], s\<lparr>item_data := d\<rparr>))"

definition AddItemDataToEntry_name_double :: "('d \<Rightarrow> string) \<Rightarrow> string \<Rightarrow> 'd \<Rightarrow> ctrl_logger \<Rightarrow> ctrl_result \<times> ctrl_logger" where
  "AddItemDataToEntry_name_double to_string item_name data s = AddItemDataToEntry_name item_name (to_string data) s"

definition AddItemDataToEntry_id_double :: "('d \<Rightarrow> string) \<Rightarrow> u64 \<Rightarrow> 'd \<Rightarrow> ctrl_logger \<Rightarrow> ctrl_result \<times> ctrl_logger" where
  "AddItemDataToEntry_id_double to_string item_id data s = AddItemDataToEntry_id item_id (to_string data) s"

text \<open>\<open>std::string::rfind\<close>: the last position at which \<open>sub\<close> occurs, \<open>None\<close> for \<open>npos\<close>.\<close>

definition rfind :: "string \<Rightarrow> string \<Rightarrow> nat option" where
  "rfind s sub =
     (if length sub \<le> length s
      then find (\<lambda>i. take (length sub) (drop i s) = sub) (rev [0 ..< Suc (length s - length sub)]) else None)"

text \<open>\<open>std::vector::resize\<close>.\<close>

definition resize :: "string list \<Rightarrow> nat \<Rightarrow> string list" where
  "resize xs n = take n xs @ replicate (n - length xs) []"

definition logged :: "build \<Rightarrow> ctrl_logger \<Rightarrow> string \<Rightarrow> ctrl_event list option" where
  "logged b s txt = (if enable_logging b then map_option (\<lambda>_. [Logged txt]) (sl_logger s) else Some [])"

definition head_string :: "(u64 \<times> string) list \<Rightarrow> string" where
  "head_string names =
     (let head_str = concat (map (\<lambda>item. snd item @ '' , '') names)
      in case rfind head_str '' , '' of None \<Rightarrow> head_str | Some found \<Rightarrow> take found head_str)"

definition PassEntryHeaderToLogger :: "build \<Rightarrow> ctrl_logger \<Rightarrow> ctrl_result \<times> ctrl_logger" where
  "PassEntryHeaderToLogger b s =
     (if item_counter s = 0 then (Events [], s)
      else case logged b s (head_string (entry_names s)) of
          None \<Rightarrow> (Undefined_Behaviour, s)
        | Some es \<Rightarrow> (Events es, s\<lparr>item_data := resize (item_data s) (unat (item_counter s)), head_added := True\<rparr>))"

text \<open>The loop over the row: \<open>log_entry\<close> is what has been built so far.\<close>

fun row_loop :: "string \<Rightarrow> string list \<Rightarrow> string" where
  "row_loop log_entry [] = log_entry"
| "row_loop log_entry (it # rest) =
     (let str = (if it = [] then ''0'' else it)
      in row_loop (log_entry @ (if rest \<noteq> [] then str @ '' , '' else str)) rest)"

definition PassEntryDataToLogger :: "build \<Rightarrow> ctrl_logger \<Rightarrow> ctrl_result \<times> ctrl_logger" where
  "PassEntryDataToLogger b s =
     (let log_entry = row_loop [] (item_data s)
      in if log_entry \<noteq> []
         then (case logged b s log_entry of None \<Rightarrow> (Undefined_Behaviour, s) | Some es \<Rightarrow> (Events es, s))
         else (Events [], s))"

datatype 'd ctrl_op =
    Add_Name string
  | Put_By_Name string string
  | Put_By_Id u64 string
  | Put_Double_By_Name string 'd
  | Put_Double_By_Id u64 'd
  | Pass_Header
  | Pass_Data

fun ctrl_do :: "build \<Rightarrow> ('d \<Rightarrow> string) \<Rightarrow> ctrl_logger \<Rightarrow> 'd ctrl_op \<Rightarrow> (ctrl_result \<times> ctrl_logger) option" where
  "ctrl_do b to_string s (Add_Name name) = Some (Events [], AddItemNameToEntryHead name s)"
| "ctrl_do b to_string s (Put_By_Name name d) = Some (AddItemDataToEntry_name name d s)"
| "ctrl_do b to_string s (Put_By_Id i d) = Some (AddItemDataToEntry_id i d s)"
| "ctrl_do b to_string s (Put_Double_By_Name name d) = Some (AddItemDataToEntry_name_double to_string name d s)"
| "ctrl_do b to_string s (Put_Double_By_Id i d) = Some (AddItemDataToEntry_id_double to_string i d s)"
| "ctrl_do b to_string s Pass_Header = Some (PassEntryHeaderToLogger b s)"
| "ctrl_do b to_string s Pass_Data = Some (PassEntryDataToLogger b s)"

section \<open>The abstract table\<close>

text \<open>
  What the class promises: distinct column names in the order they were first added; a row
  with one cell per column of the last header; a name added since then has no cell yet, and
  putting a value under it is undefined.
\<close>

record table =
  columns :: "string list"
  has_header :: bool
  row :: "string list"

definition index_of :: "'a \<Rightarrow> 'a list \<Rightarrow> nat" where
  "index_of x xs = length (takeWhile (\<lambda>y. y \<noteq> x) xs)"

fun table_put :: "table \<Rightarrow> nat \<Rightarrow> string \<Rightarrow> ctrl_result \<times> table" where
  "table_put t i d = (if i < length (row t) then (Events [], t\<lparr>row := (row t)[i := d]\<rparr>) else (Undefined_Behaviour, t))"

definition put_name :: "table \<Rightarrow> string \<Rightarrow> string \<Rightarrow> ctrl_result \<times> table" where
  "put_name t name d =
     (if \<not> has_header t then (Events [Cerr ''No heading for log entries has been added, data ignored!''], t)
      else if name \<notin> set (columns t) then (Events [Cerr ''Failed to find data entry!''], t)
      else table_put t (index_of name (columns t)) d)"

definition put_id :: "table \<Rightarrow> u64 \<Rightarrow> string \<Rightarrow> ctrl_result \<times> table" where
  "put_id t i d =
     (if \<not> has_header t then (Events [], t)
      else if length (row t) \<le> unat i then (Events [Cerr (out_of_range i)], t)
      else table_put t (unat i) d)"

definition line :: "build \<Rightarrow> string \<Rightarrow> ctrl_result" where
  "line b txt = Events (if enable_logging b then [Logged txt] else [])"

fun table_do :: "build \<Rightarrow> ('d \<Rightarrow> string) \<Rightarrow> table \<Rightarrow> 'd ctrl_op \<Rightarrow> ctrl_result \<times> table" where
  "table_do b to_string t (Add_Name name) =
     (Events [], if name \<in> set (columns t) then t else t\<lparr>columns := columns t @ [name]\<rparr>)"
| "table_do b to_string t (Put_By_Name name d) = put_name t name d"
| "table_do b to_string t (Put_By_Id i d) = put_id t i d"
| "table_do b to_string t (Put_Double_By_Name name d) = put_name t name (to_string d)"
| "table_do b to_string t (Put_Double_By_Id i d) = put_id t i (to_string d)"
| "table_do b to_string t Pass_Header =
     (if columns t = [] then (Events [], t)
      else (line b (join '' , '' (columns t)), t\<lparr>row := row t @ replicate (length (columns t) - length (row t)) [], has_header := True\<rparr>))"
| "table_do b to_string t Pass_Data =
     (if row t = [] then Events [] else line b (join '' , '' (map (\<lambda>c. if c = [] then ''0'' else c) (row t))), t)"

definition table_of :: "ctrl_logger \<Rightarrow> table" where
  "table_of s = \<lparr>columns = map snd (entry_names s), has_header = head_added s, row = item_data s\<rparr>"

section \<open>Strings\<close>

lemma rfind_last: "rfind (x @ sub) sub = Some (length x)"
proof -
  have "rev [0 ..< Suc (length x)] = length x # rev [0 ..< length x]" by simp
  then show ?thesis by (simp add: rfind_def)
qed

lemma head_string_join: "names \<noteq> [] \<Longrightarrow> head_string names = join '' , '' (map snd names)"
proof -
  assume ne: "names \<noteq> []"
  have "concat (map (\<lambda>item. snd item @ '' , '') names) = join '' , '' (map snd names) @ '' , ''"
    using ne join_snoc [of "'' , ''" "map snd names"] by (simp add: comp_def)
  then show ?thesis by (simp only: head_string_def Let_def rfind_last option.case append_eq_conv_conj) simp
qed

lemma row_loop_join:
  "row_loop acc cs = acc @ join '' , '' (map (\<lambda>c. if c = [] then ''0'' else c) cs)"
proof (induction acc cs rule: row_loop.induct)
  case (2 acc c cs)
  then show ?case by (cases cs) (simp_all add: Let_def)
qed simp

lemma join_empty_iff: "join sep xs = [] \<longleftrightarrow> xs = [] \<or> xs = [[]] \<or> (sep = [] \<and> (\<forall>x\<in>set xs. x = []))"
  by (induction sep xs rule: join.induct) auto

lemma put_sorted_end:
  "(\<And>k' v'. (k', v') \<in> set m \<Longrightarrow> k' < k) \<Longrightarrow> put_sorted k v m = m @ [(k, v)]"
proof (induction m)
  case (Cons p m)
  obtain k' v' where p: "p = (k', v')" by (cases p)
  then have "k' < k" using Cons.prems by auto
  with Cons p show ?case by auto
qed simp

lemma index_of_nth: "distinct xs \<Longrightarrow> i < length xs \<Longrightarrow> index_of (xs ! i) xs = i"
  unfolding index_of_def
proof (induction xs arbitrary: i)
  case (Cons x xs)
  then show ?case by (cases i) (auto simp: nth_mem)
qed simp

section \<open>Refinement\<close>

definition ctrl_inv :: "build \<Rightarrow> ctrl_logger \<Rightarrow> bool" where
  "ctrl_inv b s \<longleftrightarrow> (\<exists>names. entry_names s = map (\<lambda>i. (of_nat i, names ! i)) [0 ..< length names]
     \<and> item_counter s = of_nat (length names) \<and> distinct names \<and> length names < 2 ^ 64
     \<and> (\<forall>name i. map_of (entry_ids s) name = Some i \<longleftrightarrow> unat i < length names \<and> names ! unat i = name)
     \<and> length (item_data s) \<le> length names)
     \<and> (enable_logging b \<longrightarrow> sl_logger s \<noteq> None)"

lemma ctrl_invE:
  assumes "ctrl_inv b s"
  obtains "entry_names s = map (\<lambda>i. (of_nat i, columns (table_of s) ! i)) [0 ..< length (columns (table_of s))]"
    and "item_counter s = of_nat (length (columns (table_of s)))" and "distinct (columns (table_of s))"
    and "length (columns (table_of s)) < 2 ^ 64"
    and "\<And>name i. map_of (entry_ids s) name = Some i \<longleftrightarrow>
        unat i < length (columns (table_of s)) \<and> columns (table_of s) ! unat i = name"
    and "length (item_data s) \<le> length (columns (table_of s))" and "enable_logging b \<Longrightarrow> sl_logger s \<noteq> None"
proof -
  from assms obtain names where n: "entry_names s = map (\<lambda>i. (of_nat i, names ! i)) [0 ..< length names]"
    "item_counter s = of_nat (length names)" "distinct names" "length names < 2 ^ 64"
    "\<And>name i. map_of (entry_ids s) name = Some i \<longleftrightarrow> unat i < length names \<and> names ! unat i = name"
    "length (item_data s) \<le> length names" "enable_logging b \<Longrightarrow> sl_logger s \<noteq> None"
    unfolding ctrl_inv_def by blast
  have "columns (table_of s) = names" by (simp add: table_of_def n(1) comp_def map_nth)
  with n that show ?thesis by simp
qed

lemma ctrl_id_none:
  assumes "ctrl_inv b s"
  shows "map_of (entry_ids s) name = None \<longleftrightarrow> name \<notin> set (columns (table_of s))"
proof (rule ctrl_invE [OF assms])
  let ?cs = "columns (table_of s)"
  assume small: "length ?cs < 2 ^ 64"
    and ids: "\<And>name i. map_of (entry_ids s) name = Some i \<longleftrightarrow> unat i < length ?cs \<and> ?cs ! unat i = name"
  show ?thesis
  proof
    assume "map_of (entry_ids s) name = None"
    show "name \<notin> set ?cs"
    proof
      assume "name \<in> set ?cs"
      then obtain j where j: "j < length ?cs" "?cs ! j = name" by (auto simp: in_set_conv_nth)
      then have "unat (of_nat j :: u64) = j" using small by (intro unat_of_nat_small) simp
      with ids [of name "of_nat j"] j \<open>map_of (entry_ids s) name = None\<close> show False by simp
    qed
  next
    assume "name \<notin> set ?cs"
    then show "map_of (entry_ids s) name = None"
      using ids [of name] by (cases "map_of (entry_ids s) name") (auto simp: in_set_conv_nth)
  qed
qed

definition simulates :: "build \<Rightarrow> ctrl_result \<times> ctrl_logger \<Rightarrow> ctrl_result \<times> table \<Rightarrow> bool" where
  "simulates b r q \<longleftrightarrow> fst r = fst q \<and> ctrl_inv b (snd r) \<and> table_of (snd r) = snd q"

lemma add_name_simulates:
  assumes inv: "ctrl_inv b s" and room: "length (columns (table_of s)) < 2 ^ 64 - 1"
  shows "simulates b (Events [], AddItemNameToEntryHead name s) (table_do b to_string (table_of s) (Add_Name name))"
proof (cases "name \<in> set (columns (table_of s))")
  case True
  with ctrl_id_none [OF inv] inv show ?thesis by (simp add: simulates_def AddItemNameToEntryHead_def)
next
  case False
  then have none: "map_of (entry_ids s) name = None" by (simp add: ctrl_id_none [OF inv])
  show ?thesis
  proof (rule ctrl_invE [OF inv])
    let ?cs = "columns (table_of s)" and ?t = "AddItemNameToEntryHead name s"
    let ?n = "length ?cs"
    assume names: "entry_names s = map (\<lambda>i. (of_nat i, ?cs ! i)) [0 ..< ?n]" and counter: "item_counter s = of_nat ?n"
      and dist: "distinct ?cs" and small: "?n < 2 ^ 64"
      and ids: "\<And>name i. map_of (entry_ids s) name = Some i \<longleftrightarrow> unat i < ?n \<and> ?cs ! unat i = name"
      and row: "length (item_data s) \<le> ?n" and lg: "enable_logging b \<Longrightarrow> sl_logger s \<noteq> None"
    have u: "unat (of_nat i :: u64) = i" if "i \<le> ?n" for i using that small by (intro unat_of_nat_small) simp
    have "(of_nat i :: u64) < of_nat ?n" if "i < ?n" for i
      using that u [of i] u [of ?n] by (simp only: word_less_nat_alt)
    then have at_end: "put_sorted (item_counter s) name (entry_names s) = entry_names s @ [(of_nat ?n, name)]"
      unfolding counter names by (intro put_sorted_end) auto
    have t: "?t = s\<lparr>entry_names := entry_names s @ [(of_nat ?n, name)], entry_ids := AList.update name (of_nat ?n) (entry_ids s),
        item_counter := of_nat (Suc ?n)\<rparr>"
      using none at_end by (simp add: AddItemNameToEntryHead_def) (simp add: counter add.commute)
    have names': "entry_names ?t = map (\<lambda>i. (of_nat i, (?cs @ [name]) ! i)) [0 ..< length (?cs @ [name])]"
      by (simp add: t names nth_append)
    have ids': "map_of (entry_ids ?t) m = Some i \<longleftrightarrow> unat i < length (?cs @ [name]) \<and> (?cs @ [name]) ! unat i = m" for m i
    proof (cases "m = name")
      case True
      have "i = of_nat ?n \<longleftrightarrow> unat i = ?n" using u [of ?n] by (metis le_refl word_unat_eq_iff)
      moreover have "?cs ! unat i \<noteq> name" if "unat i < ?n" using False that by (auto simp: in_set_conv_nth)
      ultimately show ?thesis using True by (auto simp: t update_conv' nth_append less_Suc_eq)
    next
      case False
      then show ?thesis by (auto simp: t update_conv' ids nth_append less_Suc_eq)
    qed
    have "ctrl_inv b ?t"
      unfolding ctrl_inv_def
      by (intro conjI exI [of _ "?cs @ [name]"] allI)
        (rule names', simp add: t, use dist False in simp, use room in simp, rule ids', use row in \<open>simp add: t\<close>, use lg in \<open>simp add: t\<close>)
    moreover have "table_of ?t = (table_of s)\<lparr>columns := ?cs @ [name]\<rparr>" by (simp add: table_of_def t)
    ultimately show ?thesis using False by (simp add: simulates_def)
  qed
qed

text \<open>Putting a value into the row changes the same cell on both sides.\<close>

lemma ctrl_inv_row: "ctrl_inv b s \<Longrightarrow> length d = length (item_data s) \<Longrightarrow> ctrl_inv b (s\<lparr>item_data := d\<rparr>)"
  by (simp add: ctrl_inv_def)

lemma put_cell_simulates:
  assumes "ctrl_inv b s"
  shows "simulates b (case arr_set (item_data s) i d of None \<Rightarrow> (Undefined_Behaviour, s) | Some r \<Rightarrow> (Events [], s\<lparr>item_data := r\<rparr>))
    (table_put (table_of s) (unat i) d)"
  using assms ctrl_inv_row [OF assms, of "(item_data s)[unat i := d]"]
  by (cases "unat i < length (item_data s)") (simp_all add: arr_set_def simulates_def table_of_def)

lemma put_name_simulates:
  assumes inv: "ctrl_inv b s"
  shows "simulates b (AddItemDataToEntry_name name d s) (put_name (table_of s) name d)"
proof (cases "map_of (entry_ids s) name")
  case None
  with ctrl_id_none [OF inv, of name] inv show ?thesis
    by (auto simp: AddItemDataToEntry_name_def put_name_def simulates_def table_of_def)
next
  case (Some i)
  have "unat i < length (columns (table_of s)) \<and> columns (table_of s) ! unat i = name \<and> distinct (columns (table_of s))"
    by (rule ctrl_invE [OF inv]) (use Some in blast)
  then have "index_of name (columns (table_of s)) = unat i" "name \<in> set (columns (table_of s))"
    using index_of_nth by force+
  with Some put_cell_simulates [OF inv, of i d] inv show ?thesis
    by (simp add: AddItemDataToEntry_name_def put_name_def)
      (simp add: simulates_def table_of_def)
qed

lemma put_id_simulates:
  assumes inv: "ctrl_inv b s"
  shows "simulates b (AddItemDataToEntry_id i d s) (put_id (table_of s) i d)"
proof -
  have "length (item_data s) < 2 ^ 64" by (rule ctrl_invE [OF inv]) simp
  then have "vec_size (item_data s) \<le> i \<longleftrightarrow> length (row (table_of s)) \<le> unat i"
    by (simp add: word_le_nat_alt table_of_def)
  with put_cell_simulates [OF inv, of i d] inv show ?thesis
    by (auto simp: AddItemDataToEntry_id_def put_id_def) (simp_all add: simulates_def table_of_def)
qed

lemma pass_header_simulates:
  assumes inv: "ctrl_inv b s"
  shows "simulates b (PassEntryHeaderToLogger b s) (table_do b to_string (table_of s) Pass_Header)"
proof (rule ctrl_invE [OF inv])
  let ?cs = "columns (table_of s)"
  assume names: "entry_names s = map (\<lambda>i. (of_nat i, ?cs ! i)) [0 ..< length ?cs]" and counter: "item_counter s = of_nat (length ?cs)"
    and small: "length ?cs < 2 ^ 64" and row: "length (item_data s) \<le> length ?cs" and lg: "enable_logging b \<Longrightarrow> sl_logger s \<noteq> None"
  have n: "unat (item_counter s) = length ?cs" unfolding counter by (rule unat_of_nat_small [OF small])
  then have zero: "item_counter s = 0 \<longleftrightarrow> ?cs = []" by (metis length_0_conv unat_eq_zero)
  show ?thesis
  proof (cases "?cs = []")
    case True
    with zero inv show ?thesis by (simp add: PassEntryHeaderToLogger_def simulates_def)
  next
    case False
    then have "entry_names s \<noteq> []" by (simp add: table_of_def)
    then have "head_string (entry_names s) = join '' , '' ?cs" by (simp add: head_string_join table_of_def)
    moreover have "ctrl_inv b (s\<lparr>item_data := item_data s @ replicate (length ?cs - length (item_data s)) [], head_added := True\<rparr>)"
      using inv row unfolding ctrl_inv_def by (auto simp: table_of_def)
    moreover have "resize (item_data s) (length ?cs) = item_data s @ replicate (length ?cs - length (item_data s)) []"
      using row by (simp add: resize_def)
    ultimately show ?thesis using False zero n lg
      by (auto simp: PassEntryHeaderToLogger_def logged_def line_def simulates_def table_of_def)
  qed
qed

lemma pass_data_simulates:
  assumes inv: "ctrl_inv b s"
  shows "simulates b (PassEntryDataToLogger b s) (table_do b to_string (table_of s) Pass_Data)"
proof -
  have "enable_logging b \<Longrightarrow> sl_logger s \<noteq> None" using inv by (simp add: ctrl_inv_def)
  moreover have "row_loop [] (item_data s) = [] \<longleftrightarrow> item_data s = []"
    by (cases "item_data s") (auto simp: row_loop_join join_empty_iff)
  ultimately show ?thesis using inv
    by (auto simp: PassEntryDataToLogger_def Let_def row_loop_join logged_def line_def simulates_def table_of_def)
qed

lemma ctrl_simulation:
  assumes "ctrl_inv b s" and "length (columns (table_of s)) < 2 ^ 64 - 1"
  shows "\<exists>t. ctrl_do b to_string s a = Some (fst (table_do b to_string (table_of s) a), t)
    \<and> ctrl_inv b t \<and> table_of t = snd (table_do b to_string (table_of s) a)"
proof -
  have "\<exists>r. ctrl_do b to_string s a = Some r \<and> simulates b r (table_do b to_string (table_of s) a)"
  proof (cases a)
    case (Add_Name name)
    with add_name_simulates [OF assms, of name to_string] show ?thesis by simp
  next
    case Pass_Header
    with pass_header_simulates [OF assms(1), of to_string] show ?thesis by simp
  next
    case Pass_Data
    with pass_data_simulates [OF assms(1), of to_string] show ?thesis by simp
  qed (simp_all add: put_name_simulates put_id_simulates assms(1) AddItemDataToEntry_name_double_def AddItemDataToEntry_id_double_def)
  then show ?thesis by (auto simp: simulates_def)
qed

interpretation ctrl: bounded_refinement "ctrl_do b to_string" "table_do b to_string" "\<lambda>_. True" "ctrl_inv b" table_of
    "\<lambda>t. length (columns t)" "2 ^ 64 - 1" for b to_string
proof
  show "ctrl_inv b s \<Longrightarrow> True \<Longrightarrow> length (columns (table_of s)) < 2 ^ 64 - 1 \<Longrightarrow>
      \<exists>t. ctrl_do b to_string s a = Some (fst (table_do b to_string (table_of s) a), t)
        \<and> ctrl_inv b t \<and> table_of t = snd (table_do b to_string (table_of s) a)" for s a
    by (rule ctrl_simulation)
  show "length (columns (snd (table_do b to_string q a))) \<le> Suc (length (columns q))" for q a
    by (cases a) (simp_all add: put_name_def put_id_def)
qed

section \<open>Histories of the table\<close>

abbreviation empty_table :: table where
  "empty_table \<equiv> \<lparr>columns = [], has_header = False, row = []\<rparr>"

lemma ctrl_fresh:
  assumes "CtrlLogger b register now prefix path r = Inr (s, r')"
  shows "ctrl_inv b s" and "table_of s = empty_table"
proof -
  have "enable_logging b \<longrightarrow> sl_logger s \<noteq> None" and s: "entry_names s = []" "entry_ids s = []" "item_counter s = 0"
    "item_data s = []" "\<not> head_added s"
    using assms by (auto simp: CtrlLogger_def SpecializedLogger_def Let_def split: sum.splits option.splits if_splits)
  then show "ctrl_inv b s" by (auto simp: ctrl_inv_def)
  show "table_of s = empty_table" using s by (simp add: table_of_def)
qed

lemma ctrl_runs_as_table:
  assumes "CtrlLogger b register now prefix path r = Inr (s, r')" and "length ops < 2 ^ 64"
  shows "\<exists>t. run_ops (ctrl_do b to_string) s ops = Some (fst (run_spec (table_do b to_string) empty_table ops), t)"
proof -
  note f = ctrl_fresh [OF assms(1)]
  have "length (columns (table_of s)) + length ops \<le> 2 ^ 64 - 1" using assms(2) f(2) by simp
  from ctrl.bounded_run [OF f(1) _ this, of to_string] show ?thesis by (auto simp: f(2) list_all_iff)
qed

text \<open>The names added by a sequence of calls, and the table after it.\<close>

fun added_name :: "'d ctrl_op \<Rightarrow> string set" where
  "added_name (Add_Name name) = {name}"
| "added_name _ = {}"

definition added :: "'d ctrl_op list \<Rightarrow> string set" where
  "added ops = \<Union> (added_name ` set ops)"

abbreviation table_after :: "build \<Rightarrow> ('d \<Rightarrow> string) \<Rightarrow> table \<Rightarrow> 'd ctrl_op list \<Rightarrow> table" where
  "table_after b to_string t ops \<equiv> snd (run_spec (table_do b to_string) t ops)"

lemma put_frame [simp]:
  "columns (snd (put_name t name d)) = columns t" "columns (snd (put_id t i d)) = columns t"
  "has_header (snd (put_name t name d)) = has_header t" "has_header (snd (put_id t i d)) = has_header t"
  "length (row (snd (put_name t name d))) = length (row t)" "length (row (snd (put_id t i d))) = length (row t)"
  by (simp_all add: put_name_def put_id_def)

definition table_ok :: "table \<Rightarrow> bool" where
  "table_ok t \<longleftrightarrow> distinct (columns t) \<and> length (row t) \<le> length (columns t) \<and> (has_header t \<longrightarrow> columns t \<noteq> [])"

lemma table_ok_step: "table_ok t \<Longrightarrow> table_ok (snd (table_do b to_string t a))"
  by (cases a) (auto simp: table_ok_def)

lemma table_after_ok: "table_ok t \<Longrightarrow> table_ok (table_after b to_string t ops)"
  by (induction ops arbitrary: t) (simp_all add: run_spec_Cons table_ok_step del: run_spec.simps(2))

lemma columns_step: "set (columns (snd (table_do b to_string t a))) = set (columns t) \<union> added_name a"
  by (cases a) auto

lemma columns_after: "set (columns (table_after b to_string t ops)) = set (columns t) \<union> added ops"
proof (induction ops arbitrary: t)
  case (Cons a ops)
  have "set (columns (table_after b to_string t (a # ops))) = set (columns (snd (table_do b to_string t a))) \<union> added ops"
    using Cons by (simp only: run_spec_Cons)
  then show ?case by (auto simp: columns_step added_def)
qed (simp add: added_def)

text \<open>Without a new header the row keeps its cells, and the columns only get longer.\<close>

lemma no_header_after:
  assumes "Pass_Header \<notin> set ops"
  shows "length (row (table_after b to_string t ops)) = length (row t)
    \<and> has_header (table_after b to_string t ops) = has_header t
    \<and> take (length (columns t)) (columns (table_after b to_string t ops)) = columns t"
  using assms
proof (induction ops arbitrary: t)
  case (Cons a ops)
  define u where "u = snd (table_do b to_string t a)"
  have after: "table_after b to_string t (a # ops) = table_after b to_string u ops"
    unfolding u_def by (rule run_spec_Cons)
  have "a \<noteq> Pass_Header" using Cons.prems by auto
  then have u: "length (row u) = length (row t) \<and> has_header u = has_header t \<and> (\<exists>cs. columns u = columns t @ cs)"
    unfolding u_def by (cases a) auto
  then obtain cs where cs: "columns u = columns t @ cs" by blast
  from Cons have ih: "length (row (table_after b to_string u ops)) = length (row u)
    \<and> has_header (table_after b to_string u ops) = has_header u
    \<and> take (length (columns u)) (columns (table_after b to_string u ops)) = columns u" by simp
  then have "take (length (columns t)) (take (length (columns u)) (columns (table_after b to_string u ops))) = columns t"
    by (simp add: cs)
  then have "take (length (columns t)) (columns (table_after b to_string u ops)) = columns t" by (simp add: cs min_def)
  with u ih show ?case unfolding after by simp
qed simp

lemma index_of_less_iff: "x \<in> set xs \<Longrightarrow> index_of x xs < n \<longleftrightarrow> x \<in> set (take n xs)"
  unfolding index_of_def
proof (induction xs arbitrary: n)
  case (Cons y ys)
  then show ?case by (cases n) auto
qed simp

section \<open>Properties\<close>

text \<open>C24. The control logger is the table it promises to be: for every sequence of fewer than
  \<open>2 ^ 64\<close> calls on a fresh logger, what is logged and what is reported on \<open>cerr\<close>, and which calls
  are undefined, is what the table of named columns does; in particular the header lists the
  distinct names in the order they were first added, a row has the cells of its last header,
  and an empty cell is written as 0.\<close>

theorem ctrl_logger_refines_table:
  assumes "CtrlLogger b register now prefix path r = Inr (s, r')" and "length ops < 2 ^ 64"
  shows "\<exists>t. run_ops (ctrl_do b to_string) s ops = Some (fst (run_spec (table_do b to_string) empty_table ops), t)"
  using assms by (rule ctrl_runs_as_table)

theorem ctrl_logger_refines_table_witness:
  "\<exists>s t. CtrlLogger \<lparr>enable_logging = True, active_level = 0\<rparr> (\<lambda>n names. Some (n # names)) (p_now demo_process) ''ctrl'' ''/tmp'' []
      = Inr (s, [CreateLogFileName (p_now demo_process) ''ctrl'' ''/tmp''])
    \<and> run_ops (ctrl_do \<lparr>enable_logging = True, active_level = 0\<rparr> to_string_int) s
        [Put_By_Name ''x'' ''1'', Add_Name ''x'', Add_Name ''y'', Pass_Header, Put_Double_By_Name ''y'' 7, Put_By_Id 5 ''2'', Pass_Data]
      = Some ([Events [Cerr ''No heading for log entries has been added, data ignored!''], Events [], Events [],
          Events [Logged ''x , y''], Events [], Events [Cerr ''CtrlLogger: item_id 5 out of range, data ignored!''],
          Events [Logged ''0 , 7'']], t)"
proof -
  let ?b = "\<lparr>enable_logging = True, active_level = 0\<rparr>"
  let ?ops = "[Put_By_Name ''x'' ''1'', Add_Name ''x'', Add_Name ''y'', Pass_Header, Put_Double_By_Name ''y'' 7, Put_By_Id 5 ''2'', Pass_Data]"
  obtain s where s: "CtrlLogger ?b (\<lambda>n names. Some (n # names)) (p_now demo_process) ''ctrl'' ''/tmp'' []
      = Inr (s, [CreateLogFileName (p_now demo_process) ''ctrl'' ''/tmp''])"
    by (simp add: CtrlLogger_def SpecializedLogger_def Let_def)
  have "fst (run_spec (table_do ?b to_string_int) empty_table ?ops)
    = [Events [Cerr ''No heading for log entries has been added, data ignored!''], Events [], Events [],
          Events [Logged ''x , y''], Events [], Events [Cerr ''CtrlLogger: item_id 5 out of range, data ignored!''],
          Events [Logged ''0 , 7'']]"
    by code_simp
  with ctrl_logger_refines_table [OF s, of ?ops to_string_int] s show ?thesis by auto
qed

text \<open>C25. Exactly which call goes out of bounds: putting a value under a name is undefined when, and
  only when, the name was first added after the last header of a table that had columns; the
  overload that takes a column number never is.\<close>

theorem ctrl_undefined_exactly_for_late_names:
  assumes "CtrlLogger b register now prefix path r = Inr (s, r')" and "Pass_Header \<notin> set post"
    and "length pre + length post + 2 < 2 ^ 64"
  shows "(\<exists>rs t. run_ops (ctrl_do b to_string) s (pre @ Pass_Header # post @ [Put_By_Name name d]) = Some (rs, t)
      \<and> (last rs = Undefined_Behaviour \<longleftrightarrow> added pre \<noteq> {} \<and> name \<in> added post \<and> name \<notin> added pre))
    \<and> (\<exists>rs t. run_ops (ctrl_do b to_string) s (pre @ Pass_Header # post @ [Put_By_Id i d]) = Some (rs, t)
      \<and> last rs \<noteq> Undefined_Behaviour)"
proof -
  let ?T = "table_after b to_string"
  define t1 where "t1 = ?T empty_table pre"
  define t2 where "t2 = snd (table_do b to_string t1 Pass_Header)"
  define t3 where "t3 = ?T t2 post"
  have ok: "table_ok t1" "table_ok t2" "table_ok t3"
    unfolding t3_def t2_def t1_def by (intro table_after_ok table_ok_step; simp add: table_ok_def)+
  have c1: "set (columns t1) = added pre" by (simp add: t1_def columns_after)
  have c2: "columns t2 = columns t1" by (simp add: t2_def)
  have c3: "set (columns t3) = added pre \<union> added post" by (simp add: t3_def columns_after c2 c1)
  note nh = no_header_after [OF assms(2), of b to_string t2, folded t3_def]
  have last: "\<exists>rs t. run_ops (ctrl_do b to_string) s (pre @ Pass_Header # post @ [a]) = Some (rs, t)
      \<and> last rs = fst (table_do b to_string t3 a)" for a
  proof -
    have "length (pre @ Pass_Header # post @ [a]) < 2 ^ 64" using assms(3) by simp
    from ctrl_runs_as_table [OF assms(1) this, of to_string] obtain t where
      r: "run_ops (ctrl_do b to_string) s (pre @ Pass_Header # post @ [a])
        = Some (fst (run_spec (table_do b to_string) empty_table (pre @ Pass_Header # post @ [a])), t)" by blast
    have "pre @ Pass_Header # post @ [a] = pre @ [Pass_Header] @ post @ [a]" by simp
    then have "last (fst (run_spec (table_do b to_string) empty_table (pre @ Pass_Header # post @ [a])))
        = fst (table_do b to_string t3 a)"
      unfolding t3_def t2_def t1_def
      by (simp only: run_spec_append fst_conv snd_conv) (simp add: run_spec_append split: prod.splits)
    with r show ?thesis by blast
  qed
  have by_id: "\<exists>rs t. run_ops (ctrl_do b to_string) s (pre @ Pass_Header # post @ [Put_By_Id i d]) = Some (rs, t)
      \<and> last rs \<noteq> Undefined_Behaviour"
    using last [of "Put_By_Id i d"] by (auto simp: put_id_def)
  have "fst (put_name t3 name d) = Undefined_Behaviour \<longleftrightarrow> added pre \<noteq> {} \<and> name \<in> added post \<and> name \<notin> added pre"
  proof (cases "columns t1 = []")
    case True
    then have "\<not> has_header t1" using ok(1) by (auto simp: table_ok_def)
    then have "\<not> has_header t3" using nh True by (simp add: t2_def)
    with True c1 show ?thesis by (simp add: put_name_def)
  next
    case False
    then have "has_header t3" "length (row t3) = length (columns t1)"
      using nh ok(1) by (simp_all add: t2_def table_ok_def)
    moreover have "take (length (columns t1)) (columns t3) = columns t1" using nh c2 by simp
    ultimately have "fst (put_name t3 name d) = Undefined_Behaviour
        \<longleftrightarrow> name \<in> set (columns t3) \<and> name \<notin> set (columns t1)"
      using index_of_less_iff [of name "columns t3" "length (columns t1)"] by (auto simp: put_name_def)
    then show ?thesis using False c1 c3 by auto
  qed
  with last [of "Put_By_Name name d"] by_id show ?thesis by auto
qed

theorem ctrl_undefined_exactly_for_late_names_witness:
  "\<exists>s rs t. CtrlLogger \<lparr>enable_logging = True, active_level = 0\<rparr> (\<lambda>n names. Some (n # names)) (p_now demo_process) ''ctrl'' ''/tmp'' []
      = Inr (s, [CreateLogFileName (p_now demo_process) ''ctrl'' ''/tmp''])
    \<and> run_ops (ctrl_do \<lparr>enable_logging = True, active_level = 0\<rparr> to_string_int) s
        [Add_Name ''x'', Pass_Header, Add_Name ''y'', Put_By_Name ''y'' ''1''] = Some (rs, t)
    \<and> last rs = Undefined_Behaviour"
proof -
  let ?b = "\<lparr>enable_logging = True, active_level = 0\<rparr>"
  obtain s where s: "CtrlLogger ?b (\<lambda>n names. Some (n # names)) (p_now demo_process) ''ctrl'' ''/tmp'' []
      = Inr (s, [CreateLogFileName (p_now demo_process) ''ctrl'' ''/tmp''])"
    by (simp add: CtrlLogger_def SpecializedLogger_def Let_def)
  from ctrl_undefined_exactly_for_late_names [OF s, of "[Add_Name ''y'']" "[Add_Name ''x'']" to_string_int "''y''" "''1''" 0]
  obtain rs t where "run_ops (ctrl_do ?b to_string_int) s [Add_Name ''x'', Pass_Header, Add_Name ''y'', Put_By_Name ''y'' ''1'']
      = Some (rs, t)" "last rs = Undefined_Behaviour"
    by (auto simp: added_def)
  with s show ?thesis by blast
qed

end
