(* ===== verification/Types.thy ===== *)
theory Types
  imports Complex_Main Prelude
begin

text \<open>
  The plain types under \<open>types/\<close>: \<open>scalar.hpp\<close>, \<open>time.hpp\<close>, \<open>stamped.hpp\<close>, \<open>vector.hpp\<close>, \<open>geometry.hpp\<close> and
  \<open>quantities.hpp\<close>.

  The number type is a type variable, whose operations are those of a type class without laws,
  so that it may be the floating-point type; Eigen's vector operations work component by
  component, as it documents. The tag of a quantity is a phantom type: as in the code,
  quantities of different tags cannot be mixed.
\<close>

section \<open>scalar.hpp\<close>

type_synonym EnumBaseType = u32
type_synonym RSEnumBaseType = EnumBaseType

section \<open>time.hpp and stamped.hpp\<close>

text \<open>
  A reading of \<open>steady_clock\<close> is a number of ticks of \<open>num / den\<close> seconds; the cast to
  nanoseconds truncates toward zero. A \<open>Timestamp\<close> is a number of nanoseconds.
\<close>

definition time_point_cast :: "int \<Rightarrow> int \<Rightarrow> int \<Rightarrow> int" where
  "time_point_cast num den ticks =
     (let n = ticks * num * 10 ^ 9 in if 0 \<le> n then n div den else - ((- n) div den))"

type_synonym Timestamp = int
type_synonym Duration = int

definition Now :: "int \<Rightarrow> int \<Rightarrow> int \<Rightarrow> Timestamp" where
  "Now num den reading = time_point_cast num den reading"

record 'v Stamped =
  stamp :: Timestamp
  stamped_value :: 'v

definition Stamped :: "Timestamp \<Rightarrow> 'v \<Rightarrow> 'v Stamped" where
  "Stamped t v = \<lparr>stamp = t, stamped_value = v\<rparr>"

definition StampNow :: "int \<Rightarrow> int \<Rightarrow> int \<Rightarrow> 'v \<Rightarrow> 'v Stamped" where
  "StampNow num den reading v = Stamped (Now num den reading) v"

section \<open>vector.hpp\<close>

record 'd vector3_t =
  v3_x :: 'd
  v3_y :: 'd
  v3_z :: 'd

record 'd vector4_t =
  v4_x :: 'd
  v4_y :: 'd
  v4_z :: 'd
  v4_w :: 'd

definition vector3_default :: "'d::zero vector3_t" where
  "vector3_default = \<lparr>v3_x = 0, v3_y = 0, v3_z = 0\<rparr>"

definition vector4_default :: "'d::zero vector4_t" where
  "vector4_default = \<lparr>v4_x = 0, v4_y = 0, v4_z = 0, v4_w = 0\<rparr>"

section \<open>quantities.hpp\<close>

datatype ('tag, 'd) Vec3 = Vec3 (vec_x: 'd) (vec_y: 'd) (vec_z: 'd)

text \<open>Eigen's vector is the one without a tag, here \<open>unit\<close>; the constructor from it and the
  accessor \<open>vec()\<close> are the only ways between the two.\<close>

type_synonym 'd eigen_vec = "(unit, 'd) Vec3"

definition vec3_explicit :: "'d eigen_vec \<Rightarrow> ('tag, 'd) Vec3" where
  "vec3_explicit v = Vec3 (vec_x v) (vec_y v) (vec_z v)"

definition vec3_vec :: "('tag, 'd) Vec3 \<Rightarrow> 'd eigen_vec" where
  "vec3_vec v = Vec3 (vec_x v) (vec_y v) (vec_z v)"

definition vec3_x :: "('tag, 'd) Vec3 \<Rightarrow> 'd" where "vec3_x v = vec_x (vec3_vec v)"
definition vec3_y :: "('tag, 'd) Vec3 \<Rightarrow> 'd" where "vec3_y v = vec_y (vec3_vec v)"
definition vec3_z :: "('tag, 'd) Vec3 \<Rightarrow> 'd" where "vec3_z v = vec_z (vec3_vec v)"

text \<open>Eigen's norm is a parameter.\<close>

definition vec3_norm :: "('d eigen_vec \<Rightarrow> 'd) \<Rightarrow> ('tag, 'd) Vec3 \<Rightarrow> 'd" where
  "vec3_norm eigen_norm v = eigen_norm (vec3_vec v)"

definition vec3_Zero :: "('tag, 'd::zero) Vec3" where
  "vec3_Zero = Vec3 0 0 0"

definition vec3_add :: "('tag, 'd::plus) Vec3 \<Rightarrow> ('tag, 'd) Vec3 \<Rightarrow> ('tag, 'd) Vec3" where
  "vec3_add a b = Vec3 (vec_x a + vec_x b) (vec_y a + vec_y b) (vec_z a + vec_z b)"

definition vec3_sub :: "('tag, 'd::minus) Vec3 \<Rightarrow> ('tag, 'd) Vec3 \<Rightarrow> ('tag, 'd) Vec3" where
  "vec3_sub a b = Vec3 (vec_x a - vec_x b) (vec_y a - vec_y b) (vec_z a - vec_z b)"

definition vec3_neg :: "('tag, 'd::uminus) Vec3 \<Rightarrow> ('tag, 'd) Vec3" where
  "vec3_neg a = Vec3 (- vec_x a) (- vec_y a) (- vec_z a)"

definition vec3_scale :: "('tag, 'd::times) Vec3 \<Rightarrow> 'd \<Rightarrow> ('tag, 'd) Vec3" where
  "vec3_scale a s = Vec3 (vec_x a * s) (vec_y a * s) (vec_z a * s)"

definition vec3_div :: "('tag, 'd::divide) Vec3 \<Rightarrow> 'd \<Rightarrow> ('tag, 'd) Vec3" where
  "vec3_div a s = Vec3 (vec_x a div s) (vec_y a div s) (vec_z a div s)"

text \<open>The compound assignments: the new value of the left-hand side, which is also the result.\<close>

definition vec3_add_assign :: "('tag, 'd::plus) Vec3 \<Rightarrow> ('tag, 'd) Vec3 \<Rightarrow> ('tag, 'd) Vec3" where
  "vec3_add_assign a b = Vec3 (vec_x a + vec_x b) (vec_y a + vec_y b) (vec_z a + vec_z b)"

definition vec3_sub_assign :: "('tag, 'd::minus) Vec3 \<Rightarrow> ('tag, 'd) Vec3 \<Rightarrow> ('tag, 'd) Vec3" where
  "vec3_sub_assign a b = Vec3 (vec_x a - vec_x b) (vec_y a - vec_y b) (vec_z a - vec_z b)"

text \<open>The comparison of two numbers is a parameter: that of floats is not equality.\<close>

definition vec3_eq :: "('d \<Rightarrow> 'd \<Rightarrow> bool) \<Rightarrow> ('tag, 'd) Vec3 \<Rightarrow> ('tag, 'd) Vec3 \<Rightarrow> bool" where
  "vec3_eq eq a b \<longleftrightarrow> eq (vec_x a) (vec_x b) \<and> eq (vec_y a) (vec_y b) \<and> eq (vec_z a) (vec_z b)"

definition vec3_ne :: "('d \<Rightarrow> 'd \<Rightarrow> bool) \<Rightarrow> ('tag, 'd) Vec3 \<Rightarrow> ('tag, 'd) Vec3 \<Rightarrow> bool" where
  "vec3_ne eq a b \<longleftrightarrow> \<not> eq (vec_x a) (vec_x b) \<or> \<not> eq (vec_y a) (vec_y b) \<or> \<not> eq (vec_z a) (vec_z b)"

definition scalar_times :: "'d::times \<Rightarrow> ('tag, 'd) Vec3 \<Rightarrow> ('tag, 'd) Vec3" where
  "scalar_times s v = vec3_scale v s"

text \<open>The tags, empty classes, and the quantities. Mixing tags is a type error in the code and here.\<close>

datatype tag_LinearVelocity = Tag_LinearVelocity
datatype tag_AngularVelocity = Tag_AngularVelocity
datatype tag_LinearAcceleration = Tag_LinearAcceleration
datatype tag_Force = Tag_Force
datatype tag_Torque = Tag_Torque

type_synonym 'd LinearVelocity = "(tag_LinearVelocity, 'd) Vec3"
type_synonym 'd AngularVelocity = "(tag_AngularVelocity, 'd) Vec3"
type_synonym 'd LinearAcceleration = "(tag_LinearAcceleration, 'd) Vec3"
type_synonym 'd Force = "(tag_Force, 'd) Vec3"
type_synonym 'd Torque = "(tag_Torque, 'd) Vec3"

section \<open>geometry.hpp\<close>

text \<open>The raw quantities are aliases of Eigen's types: they can be mixed.\<close>

type_synonym 'd Position3d = "'d eigen_vec"
type_synonym 'd Velocity3d = "'d eigen_vec"
type_synonym 'd Acceleration3d = "'d eigen_vec"
type_synonym 'd JointPosition3d = "'d eigen_vec"
type_synonym 'd JointVelocity3d = "'d eigen_vec"
type_synonym 'd Force3d = "'d eigen_vec"
type_synonym 'd Torque3d = "'d eigen_vec"

record 'd quaternion =
  q_w :: 'd
  q_x :: 'd
  q_y :: 'd
  q_z :: 'd

definition quaternion_identity :: "'d::zero_neq_one quaternion" where
  "quaternion_identity = \<lparr>q_w = 1, q_x = 0, q_y = 0, q_z = 0\<rparr>"

record 'd Twist =
  linear :: "'d Velocity3d"
  angular :: "'d Velocity3d"

record 'd Wrench =
  force :: "'d Force3d"
  torque :: "'d Torque3d"

record 'd Pose =
  position :: "'d Position3d"
  orientation :: "'d quaternion"

record 'd Euler =
  roll :: 'd
  pitch :: 'd
  yaw :: 'd

record 'd Odometry =
  child_frame_id :: string
  odom_pose :: "'d Pose"
  odom_twist :: "'d Twist"
  frame_id :: string
  odom_stamp :: Timestamp

definition Twist_default :: "'d::zero Twist" where
  "Twist_default = \<lparr>linear = vec3_Zero, angular = vec3_Zero\<rparr>"

definition Wrench_default :: "'d::zero Wrench" where
  "Wrench_default = \<lparr>force = vec3_Zero, torque = vec3_Zero\<rparr>"

definition Pose_default :: "'d::zero_neq_one Pose" where
  "Pose_default = \<lparr>position = vec3_Zero, orientation = quaternion_identity\<rparr>"

definition Euler_default :: "'d::zero Euler" where
  "Euler_default = \<lparr>roll = 0, pitch = 0, yaw = 0\<rparr>"

definition Odometry_default :: "'d::zero_neq_one Odometry" where
  "Odometry_default = \<lparr>child_frame_id = [], odom_pose = Pose_default, odom_twist = Twist_default, frame_id = [], odom_stamp = 0\<rparr>"

section \<open>Quantities of one tag are a vector space\<close>

instantiation Vec3 :: (type, ab_group_add) ab_group_add
begin

definition zero_Vec3 :: "('a, 'b) Vec3" where "zero_Vec3 = vec3_Zero"
definition plus_Vec3 :: "('a, 'b) Vec3 \<Rightarrow> ('a, 'b) Vec3 \<Rightarrow> ('a, 'b) Vec3" where "plus_Vec3 = vec3_add"
definition minus_Vec3 :: "('a, 'b) Vec3 \<Rightarrow> ('a, 'b) Vec3 \<Rightarrow> ('a, 'b) Vec3" where "minus_Vec3 = vec3_sub"
definition uminus_Vec3 :: "('a, 'b) Vec3 \<Rightarrow> ('a, 'b) Vec3" where "uminus_Vec3 = vec3_neg"

instance
  by standard
    (simp_all add: zero_Vec3_def plus_Vec3_def minus_Vec3_def uminus_Vec3_def vec3_Zero_def vec3_add_def vec3_sub_def
      vec3_neg_def add.assoc add.commute)

end

lemmas vec3_defs = vec3_Zero_def vec3_add_def vec3_sub_def vec3_neg_def vec3_scale_def vec3_div_def vec3_add_assign_def
  vec3_sub_assign_def vec3_eq_def vec3_ne_def scalar_times_def vec3_explicit_def vec3_vec_def vec3_x_def vec3_y_def vec3_z_def

interpretation quantity: vector_space "scalar_times :: 'd::field \<Rightarrow> ('tag, 'd) Vec3 \<Rightarrow> ('tag, 'd) Vec3"
  by standard (simp_all add: plus_Vec3_def vec3_defs algebra_simps)

section \<open>Properties\<close>

lemma time_point_cast_mono:
  assumes "0 < num" and "0 < den" and "a \<le> b"
  shows "time_point_cast num den a \<le> time_point_cast num den b"
proof -
  let ?n = "\<lambda>t. t * num * 10 ^ 9"
  have "?n a \<le> ?n b" using assms(1,3) by simp
  then show ?thesis
    using assms(2) zdiv_mono1 [of "?n a" "?n b" den] zdiv_mono1 [of "- ?n b" "- ?n a" den]
      pos_imp_zdiv_nonneg_iff [OF assms(2), of "?n b"] pos_imp_zdiv_nonneg_iff [OF assms(2), of "- ?n a"]
    unfolding time_point_cast_def Let_def by (auto split: if_splits)
qed

lemma time_point_cast_error:
  assumes "0 < den"
  shows "\<bar>time_point_cast num den t * den - t * num * 10 ^ 9\<bar> < den"
proof -
  have e: "\<bar>m div den * den - m\<bar> < den" for m
    using assms pos_mod_bound [OF assms, of m] pos_mod_sign [OF assms, of m] by (simp add: minus_mod_eq_div_mult [symmetric])
  show ?thesis
    using e [of "t * num * 10 ^ 9"] e [of "- (t * num * 10 ^ 9)"] unfolding time_point_cast_def Let_def
    by (auto simp: abs_minus_commute)
qed

text \<open>Stamps are in order: for a clock that never steps back, values stamped one after the
  other with \<open>StampNow\<close> carry their own value and non-decreasing stamps, each within one
  nanosecond of the reading, whatever the period of the clock.\<close>

theorem stamps_in_order:
  assumes "0 < num" and "0 < den" and "sorted readings" and "length vs = length readings"
  shows "map stamped_value (map2 (StampNow num den) readings vs) = vs
    \<and> sorted (map stamp (map2 (StampNow num den) readings vs))
    \<and> list_all2 (\<lambda>s r. \<bar>stamp s * den - r * num * 10 ^ 9\<bar> < den) (map2 (StampNow num den) readings vs) readings"
proof -
  define stamped where "stamped = map2 (StampNow num den) readings vs"
  have v: "map stamped_value stamped = vs"
    using assms(4) by (auto simp: stamped_def StampNow_def Stamped_def intro: nth_equalityI)
  have s: "map stamp stamped = map (Now num den) readings"
    using assms(4) by (auto simp: stamped_def StampNow_def Stamped_def intro: nth_equalityI)
  have "sorted (map (Now num den) readings)"
    using assms(3) time_point_cast_mono [OF assms(1,2)] by (auto simp: sorted_iff_nth_mono Now_def)
  moreover have "list_all2 (\<lambda>s r. \<bar>stamp s * den - r * num * 10 ^ 9\<bar> < den) stamped readings"
    using assms(4) time_point_cast_error [OF assms(2)]
    by (auto simp: stamped_def StampNow_def Stamped_def Now_def list_all2_conv_all_nth)
  ultimately show ?thesis using v by (simp add: s flip: stamped_def)
qed

theorem stamps_in_order_witness:
  "sorted (map stamp (map2 (StampNow 1 (3 * 10 ^ 9)) [- 4, 7, 8] [''a'', ''b'', ''c'']))"
  using stamps_in_order [of 1 "3 * 10 ^ 9" "[- 4, 7, 8]" "[''a'', ''b'', ''c'']"] by simp


end
