(* ===== verification/Xlogger_Example.thy ===== *)
theory Xlogger_Example
  imports Xlogger
begin

text \<open>
  The program \<open>examples/xlogger_example.cpp\<close>: format and stream statements, changes of the
  level at run time, and four threads that log concurrently.

  The statements of the main thread are the operations of \<open>Xlogger\<close> in order; those of the
  threads come in any interleaving. A statement is one step: the logger exists when the threads
  start, and then a statement is one call of spdlog. The argument packs are those of the
  program; the literal \<open>4.75\<close> is a parameter.
\<close>

section \<open>The program\<close>

datatype 'd log_arg = Arg_Int int | Arg_Double 'd | Arg_Text string

type_synonym 'd pack = "string \<times> 'd log_arg list"

definition before_level :: "'d \<Rightarrow> 'd pack xlog_op list" where
  "before_level current =
     [Use_Fmt kInfo (''motor spun up: {} RPM at {:.2f} A'', [Arg_Int 3200, Arg_Double current]),
      Use_Fmt kWarn (''temperature {} C approaching limit'', [Arg_Int 71]),
      Use_Fmt kError (''encoder {} dropped {} ticks'', [Arg_Int 2, Arg_Int 14]),
      Use_Stream kDebug ''debug detail: phase=A count=42'']"

definition show_level :: "LogLevel \<Rightarrow> 'd pack xlog_op" where
  "show_level l = Use_Fmt kInfo (''current level = {}'', [Arg_Int (level_code l)])"

definition after_level :: "'d pack xlog_op list" where
  "after_level =
     [Use_Set_Level (level_code kWarn),
      Use_Fmt kInfo (''this INFO is now suppressed (level raised to WARN)'', []),
      Use_Fmt kWarn (''this WARN still shows'', []),
      Use_Set_Level (level_code kInfo),
      Use_Fmt kTrace (''trace sites compile out when XMSIGMA_ACTIVE_LEVEL > 0'', [])]"

definition worker :: "int \<Rightarrow> 'd pack xlog_op list" where
  "worker n = map (\<lambda>i. Use_Fmt kInfo (''worker {} tick {}'', [Arg_Int n, Arg_Int i])) [0, 1, 2]"

fun interleavings :: "'a list list \<Rightarrow> 'a list set" where
  "interleavings [] = {[]}"
| "interleavings (xs # xss) = (\<Union>ys \<in> interleavings xss. shuffles xs ys)"

text \<open>
  The argument \<open>XLOG_GET_LEVEL()\<close> of the fifth statement is evaluated where that statement is
  compiled in. \<open>ticks\<close> is the interleaving of the threads.
\<close>

definition xlogger_example :: "build \<Rightarrow> (spd_level \<Rightarrow> spd_level \<Rightarrow> bool) \<Rightarrow> ('d pack log_args \<Rightarrow> string) \<Rightarrow> 'd \<Rightarrow>
    'd pack xlog_op list \<Rightarrow> process \<Rightarrow> ('d pack xlog_result list \<times> process) option" where
  "xlogger_example b sl fmt current ticks p = (case run_ops (xlog_do b sl fmt) p (before_level current) of
     None \<Rightarrow> None
   | Some (rs1, p) \<Rightarrow>
       (case if enable_logging b \<and> active_level b \<le> 2 then XLOG_GET_LEVEL b p else Some (kOff, p) of
          None \<Rightarrow> None
        | Some (l, p) \<Rightarrow>
            map_option (\<lambda>(rs2, q). (rs1 @ rs2, q)) (run_ops (xlog_do b sl fmt) p (show_level l # after_level @ ticks))))"

section \<open>What it writes\<close>

fun written_lines :: "'a xlog_result \<Rightarrow> (spd_level \<times> string) list" where
  "written_lines (Site _ ls) = ls"
| "written_lines _ = []"

definition shown :: "'a xlog_result list \<Rightarrow> (spd_level \<times> string) list" where
  "shown rs = concat (map written_lines rs)"

lemma set_interleaving: "ws \<in> interleavings xss \<Longrightarrow> set ws = \<Union> (set ` set xss) \<and> length ws = sum_list (map length xss)"
proof (induction xss arbitrary: ws)
  case (Cons xs xss)
  then obtain ys where "ys \<in> interleavings xss" "ws \<in> shuffles xs ys" by auto
  with Cons.IH [of ys] set_shuffles [of ws xs ys] length_shuffles [of ws xs ys] show ?case by auto
qed simp

text \<open>The text of a format statement.\<close>

fun fmt_text :: "('d pack log_args \<Rightarrow> string) \<Rightarrow> 'd pack xlog_op \<Rightarrow> string" where
  "fmt_text fmt (Use_Fmt l args) = fmt (Pack args)"
| "fmt_text fmt _ = []"

lemma info_ops_shown:
  assumes "\<forall>op \<in> set ops. \<exists>args. op = Use_Fmt kInfo args" and "compiled b kInfo"
  shows "shown (fst (run_spec (xlog_spec b fmt) l ops)) = (if l \<le> kInfo then map (\<lambda>op. (spd_info, fmt_text fmt op)) ops else [])"
  using assms
  by (induction ops)
    (auto simp: shown_def line_if_def Let_def ToSpdlogLevel_def split: prod.splits)

lemma shown_append: "shown (rs @ rs') = shown rs @ shown rs'"
  by (simp add: shown_def)

section \<open>Properties\<close>

text \<open>C28. What the example program shows, for every initial level and every interleaving of its four
  threads: the statements before the change of level are shown according to \<open>XLOG_LEVEL\<close>, and
  the level printed is that level; the information message after it never is, the warning
  always; and since "restore" sets \<open>kInfo\<close> and not the initial level, the twelve messages of the
  threads are always shown, and the trace message never, whatever \<open>XLOG_LEVEL\<close> was.\<close>

theorem xlogger_example_output:
  fixes ticks :: "'d pack xlog_op list"
  assumes "\<forall>c l. sl c l \<longleftrightarrow> spd_code c \<le> spd_code l" and "\<forall>s. fmt (Braces s) = s" and "p_instance p = None"
    and "enable_logging b" and "active_level b \<le> 0" and "ticks \<in> interleavings (map worker [0, 1, 2, 3])"
    and "ResolveLogLevelFromEnv (p_env p) default_log_level = cur"
  shows "\<exists>rs q. xlogger_example b sl fmt current ticks p = Some (rs, q) \<and> length ticks = 12 \<and> shown rs =
       line_if (cur \<le> kInfo) kInfo (fmt (Pack (''motor spun up: {} RPM at {:.2f} A'', [Arg_Int 3200, Arg_Double current])))
     @ line_if (cur \<le> kWarn) kWarn (fmt (Pack (''temperature {} C approaching limit'', [Arg_Int 71])))
     @ line_if (cur \<le> kError) kError (fmt (Pack (''encoder {} dropped {} ticks'', [Arg_Int 2, Arg_Int 14])))
     @ line_if (cur \<le> kDebug) kDebug ''debug detail: phase=A count=42''
     @ line_if (cur \<le> kInfo) kInfo (fmt (Pack (''current level = {}'', [Arg_Int (level_code cur)])))
     @ [(spd_warn, fmt (Pack (''this WARN still shows'', [])))]
     @ map (\<lambda>op. (spd_info, fmt_text fmt op)) ticks"
proof -
  note fresh = xlog_fresh [OF assms(3)]
  have abs: "xlog_abs p = cur" using fresh(2) assms(7) by simp
  have c: "compiled b l" if "0 \<le> level_code l" for l using assms(4,5) that by (simp add: compiled_def)
  from xlog_run [OF assms(1,2) fresh(1), of b "before_level current", unfolded abs] obtain q1 where
    q1: "run_ops (xlog_do b sl fmt) p (before_level current) = Some (fst (run_spec (xlog_spec b fmt) cur (before_level current)), q1)"
      "xlog_inv q1" "xlog_abs q1 = snd (run_spec (xlog_spec b fmt) cur (before_level current))" by blast
  have abs1: "xlog_abs q1 = cur" by (simp add: q1(3) before_level_def Let_def)
  from xlog_simulation [OF assms(1,2) q1(2), of b Use_Get_Level, unfolded abs1] assms(4) obtain q2 where
    q2: "XLOG_GET_LEVEL b q1 = Some (cur, q2)" "xlog_inv q2" "xlog_abs q2 = cur" by auto
  let ?ops = "show_level cur # after_level @ ticks"
  from xlog_run [OF assms(1,2) q2(2), of b ?ops, unfolded q2(3)] obtain q3 where
    q3: "run_ops (xlog_do b sl fmt) q2 ?ops = Some (fst (run_spec (xlog_spec b fmt) cur ?ops), q3)" by blast
  have ticks: "\<forall>op \<in> set ticks. \<exists>args. op = Use_Fmt kInfo args" "length ticks = 12"
    using set_interleaving [OF assms(6)] by (auto simp: worker_def)
  have ex: "xlogger_example b sl fmt current ticks p
    = Some (fst (run_spec (xlog_spec b fmt) cur (before_level current)) @ fst (run_spec (xlog_spec b fmt) cur ?ops), q3)"
    using assms(4,5) by (simp add: xlogger_example_def q1(1) q2(1) q3 del: run_ops.simps run_spec.simps)
  have "snd (run_spec (xlog_spec b fmt) cur (show_level cur # after_level)) = kInfo"
    using assms(4) by (simp add: show_level_def after_level_def Let_def del: level_code.simps)
  then have "fst (run_spec (xlog_spec b fmt) cur ?ops) = fst (run_spec (xlog_spec b fmt) cur (show_level cur # after_level))
      @ fst (run_spec (xlog_spec b fmt) kInfo ticks)"
    using run_spec_append [of "xlog_spec b fmt" cur "show_level cur # after_level" ticks] by simp
  then have "shown (fst (run_spec (xlog_spec b fmt) cur ?ops))
    = shown (fst (run_spec (xlog_spec b fmt) cur (show_level cur # after_level))) @ map (\<lambda>op. (spd_info, fmt_text fmt op)) ticks"
    using info_ops_shown [OF ticks(1) c] by (simp add: shown_append)
  moreover have "shown (fst (run_spec (xlog_spec b fmt) cur (show_level cur # after_level)))
    = line_if (cur \<le> kInfo) kInfo (fmt (Pack (''current level = {}'', [Arg_Int (level_code cur)])))
      @ [(spd_warn, fmt (Pack (''this WARN still shows'', [])))]"
    using assms(4) c
    by (simp add: show_level_def after_level_def Let_def shown_def line_if_def less_eq_LogLevel_def ToSpdlogLevel_def split: prod.splits)
  moreover have "shown (fst (run_spec (xlog_spec b fmt) cur (before_level current))) =
       line_if (cur \<le> kInfo) kInfo (fmt (Pack (''motor spun up: {} RPM at {:.2f} A'', [Arg_Int 3200, Arg_Double current])))
     @ line_if (cur \<le> kWarn) kWarn (fmt (Pack (''temperature {} C approaching limit'', [Arg_Int 71])))
     @ line_if (cur \<le> kError) kError (fmt (Pack (''encoder {} dropped {} ticks'', [Arg_Int 2, Arg_Int 14])))
     @ line_if (cur \<le> kDebug) kDebug ''debug detail: phase=A count=42''"
    using c by (simp add: before_level_def Let_def shown_def)
  ultimately show ?thesis using ex ticks(2) by (simp add: shown_append)
qed

lemma append_in_shuffles: "xs @ ys \<in> shuffles xs ys"
proof (induction xs)
  case (Cons x xs)
  then show ?case by (cases ys) (auto intro: Cons_in_shuffles_leftI)
qed simp

lemma concat_interleaving: "concat xss \<in> interleavings xss"
  by (induction xss) (auto intro: append_in_shuffles)

theorem xlogger_example_output_witness:
  "let p = demo_process\<lparr>p_env := (\<lambda>n. if n = ''XLOG_LEVEL'' then Some ''4'' else None)\<rparr>;
       fmt = (\<lambda>args. case args of Pack (t, as) \<Rightarrow> t | Braces t \<Rightarrow> t)
   in \<exists>rs q. xlogger_example \<lparr>enable_logging = True, active_level = 0\<rparr> (\<lambda>c l. spd_code c \<le> spd_code l) fmt (0 :: nat)
        (concat (map worker [0, 1, 2, 3])) p = Some (rs, q)
     \<and> shown rs = (spd_err, ''encoder {} dropped {} ticks'') # (spd_warn, ''this WARN still shows'')
         # replicate 12 (spd_info, ''worker {} tick {}'')"
proof -
  let ?p = "demo_process\<lparr>p_env := (\<lambda>n. if n = ''XLOG_LEVEL'' then Some ''4'' else None)\<rparr>"
    and ?fmt = "\<lambda>args. case args of Pack (t, as :: nat log_arg list) \<Rightarrow> t | Braces t \<Rightarrow> t"
    and ?b = "\<lparr>enable_logging = True, active_level = 0\<rparr>" and ?ticks = "concat (map worker [0, 1, 2, 3])"
  have p: "p_instance ?p = None" by (simp add: demo_process_def)
  have l: "ResolveLogLevelFromEnv (p_env ?p) default_log_level = kError" by code_simp
  have t: "map (\<lambda>op. (spd_info, fmt_text ?fmt op)) ?ticks = replicate 12 (spd_info, ''worker {} tick {}'')"
    by code_simp
  from xlogger_example_output [of "\<lambda>c l. spd_code c \<le> spd_code l" ?fmt ?p ?b ?ticks kError 0, OF _ _ p _ _ concat_interleaving l]
  show ?thesis
    unfolding t by (auto simp: Let_def line_if_def less_eq_LogLevel_def ToSpdlogLevel_def)
qed

end
