(* ===== verification/Ctrl_Logger_Example.thy ===== *)
theory Ctrl_Logger_Example
  imports Complex_Main Ctrl_Logger
begin

text \<open>
  The program \<open>examples/ctrl_logger_example.cpp\<close>: all three data loggers in one process, each
  with a file of its own in the default log folder.

  A program is a value: the calls it has made on the loggers and the lines it has written to
  \<open>cerr\<close>, with the state it leaves, or what stopped it, an exception or an undefined access.
  Numbers of type \<open>double\<close> are a type variable; the conversion from \<open>int\<close> and the two literals
  of the program are parameters, like the texts of the values.
\<close>

section \<open>Programs\<close>

datatype failure = Exception string | Undefined_Access

datatype observed = Logger_Call string log_call | Error_Output string

type_synonym 's outcome = "failure + observed list \<times> 's"

text \<open>One statement after the other, and a loop over the values of its variable.\<close>

definition and_then :: "'s outcome \<Rightarrow> ('s \<Rightarrow> 't outcome) \<Rightarrow> 't outcome" where
  "and_then m f = (case m of
     Inl e \<Rightarrow> Inl e
   | Inr (os, s) \<Rightarrow> (case f s of Inl e \<Rightarrow> Inl e | Inr (os', t) \<Rightarrow> Inr (os @ os', t)))"

fun for_each :: "('i \<Rightarrow> 's \<Rightarrow> 's outcome) \<Rightarrow> 'i list \<Rightarrow> 's \<Rightarrow> 's outcome" where
  "for_each body [] s = Inr ([], s)"
| "for_each body (i # is) s = and_then (body i s) (for_each body is)"

named_theorems outcome_simps

lemma and_then_simps [outcome_simps]:
  "and_then (Inl e) f = Inl e"
  "and_then (Inr (os, s)) f = (case f s of Inl e \<Rightarrow> Inl e | Inr (os', t) \<Rightarrow> Inr (os @ os', t))"
  by (simp_all add: and_then_def)

lemma and_then_assoc: "and_then (and_then m f) g = and_then m (\<lambda>s. and_then (f s) g)"
  by (simp add: and_then_def split: sum.splits prod.splits)

lemma for_each_append: "for_each body (is @ js) s = and_then (for_each body is s) (for_each body js)"
proof (induction "is" arbitrary: s)
  case Nil
  show ?case by (simp add: and_then_def split: sum.splits)
next
  case (Cons i "is")
  then have "for_each body (is @ js) = (\<lambda>s. and_then (for_each body is s) (for_each body js))" by blast
  then show ?case by (simp add: and_then_assoc)
qed

lemma for_each_concat:
  "for_each (\<lambda>i. for_each body (ops i)) is s = for_each body (concat (map ops is)) s"
proof (induction "is" arbitrary: s)
  case (Cons i "is")
  then have "for_each (\<lambda>i. for_each body (ops i)) is = for_each body (concat (map ops is))" by blast
  then show ?case by (simp add: for_each_append)
qed simp

text \<open>A loop whose body always succeeds, in a state that is described by an invariant.\<close>

lemma for_each_inv:
  assumes "\<And>i s. i \<in> set is \<Longrightarrow> P s \<Longrightarrow> \<exists>t. body i s = Inr (out i, t) \<and> P t" and "P s"
  shows "\<exists>t. for_each body is s = Inr (concat (map out is), t) \<and> P t"
  using assms
proof (induction "is" arbitrary: s)
  case (Cons i "is")
  then obtain u where u: "body i s = Inr (out i, u)" "P u" by force
  with Cons obtain t where "for_each body is u = Inr (concat (map out is), t)" "P t" by force
  with u show ?case by (simp add: outcome_simps)
qed simp

section \<open>The statements of the program\<close>

text \<open>What a call on a data logger shows, and one on the control logger.\<close>

definition on_file :: "specialized_logger \<Rightarrow> 's \<Rightarrow> log_call list option \<Rightarrow> 's outcome" where
  "on_file lg s r = (case r of
     None \<Rightarrow> Inl Undefined_Access
   | Some cs \<Rightarrow> Inr (case sl_logger lg of None \<Rightarrow> [] | Some name \<Rightarrow> map (Logger_Call name) cs, s))"

fun ctrl_observed :: "string option \<Rightarrow> ctrl_event \<Rightarrow> observed list" where
  "ctrl_observed name (Cerr txt) = [Error_Output txt]"
| "ctrl_observed None (Logged txt) = []"
| "ctrl_observed (Some name) (Logged txt) = [Logger_Call name (Info txt)]"

definition ctrl_call :: "build \<Rightarrow> ('d \<Rightarrow> string) \<Rightarrow> 'd ctrl_op \<Rightarrow> ctrl_logger \<Rightarrow> ctrl_logger outcome" where
  "ctrl_call b to_string a s = (case ctrl_do b to_string s a of
     None \<Rightarrow> Inl Undefined_Access
   | Some (Undefined_Behaviour, t) \<Rightarrow> Inl Undefined_Access
   | Some (Events es, t) \<Rightarrow> Inr (concat (map (ctrl_observed (sl_logger s)) es), t))"

text \<open>A constructor or \<open>GetLogger\<close> as a statement.\<close>

definition created :: "string + 'a \<times> 'r \<Rightarrow> ('a \<times> 'r) outcome" where
  "created m = (case m of Inl e \<Rightarrow> Inl (Exception e) | Inr s \<Rightarrow> Inr ([], s))"

definition got :: "(string + 'a) \<times> 's \<Rightarrow> ('a \<times> 's) outcome" where
  "got m = (case m of (Inl e, s) \<Rightarrow> Inl (Exception e) | (Inr lg, s) \<Rightarrow> Inr ([], (lg, s)))"

datatype 'd field = Int_Field int | Double_Field 'd | Text_Field string

record 'd doubles =
  of_int_double :: "int \<Rightarrow> 'd"
  lit_0_5 :: 'd
  lit_100_5 :: 'd
  to_string_double :: "'d \<Rightarrow> string"
  field_text :: "'d field \<Rightarrow> string"

definition name_columns :: "'d ctrl_op list" where
  "name_columns = [Add_Name ''x1'', Add_Name ''x2'', Add_Name ''x3'', Add_Name ''x4'', Pass_Header]"

definition ctrl_row :: "'d doubles \<Rightarrow> int \<Rightarrow> 'd ctrl_op list" where
  "ctrl_row d i =
     [Put_Double_By_Name ''x1'' (of_int_double d (i + 1)), Put_Double_By_Name ''x2'' (of_int_double d (i + 2)),
      Put_Double_By_Name ''x3'' (of_int_double d (i + 3)), Put_Double_By_Name ''x4'' (of_int_double d (i + 4)), Pass_Data]"

text \<open>The body of the loop over both CSV loggers: the state is that of the global one and of spdlog.\<close>

definition csv_iteration :: "build \<Rightarrow> (string \<Rightarrow> 'r \<Rightarrow> 'r option) \<Rightarrow> ('d::{plus,times}) doubles \<Rightarrow> (int \<Rightarrow> tm) \<Rightarrow> string \<Rightarrow>
    specialized_logger \<Rightarrow> int \<Rightarrow> specialized_logger option \<times> 'r \<Rightarrow> (specialized_logger option \<times> 'r) outcome" where
  "csv_iteration b register d now log_path csv_logger i st =
     and_then (on_file csv_logger st (LogData b (field_text d) csv_logger
         [Int_Field (i + 1), Double_Field (of_int_double d i + lit_0_5 d), Double_Field (of_int_double d i * lit_100_5 d)]))
       (\<lambda>st. and_then (got (GlobalCsvLogger_GetLogger b register (now i) ''global_csv_log'' log_path st))
         (\<lambda>(lg, st). on_file lg st (LogData b (field_text d) lg [Int_Field 21, Int_Field 34, Int_Field 56])))"

definition ctrl_logger_example :: "build \<Rightarrow> (string \<Rightarrow> 'r \<Rightarrow> 'r option) \<Rightarrow> ('d::{plus,times}) doubles \<Rightarrow> environment \<Rightarrow>
    tm \<Rightarrow> tm \<Rightarrow> (int \<Rightarrow> tm) \<Rightarrow> tm \<Rightarrow> tm \<Rightarrow> 'r \<Rightarrow> 'r outcome" where
  "ctrl_logger_example b register d env now_ctrl now_csv now_global now_event now_end r =
     (let log_path = GetLogFolderPath env in
      and_then (got (CtrlLogger_GetLogger b register now_ctrl ''ctrl_log'' log_path (None, r))) (\<lambda>(ctrl_logger, ctrl_static, r).
      and_then (for_each (ctrl_call b (to_string_double d)) name_columns ctrl_logger) (\<lambda>ctrl_logger.
      and_then (for_each (\<lambda>i. for_each (ctrl_call b (to_string_double d)) (ctrl_row d i)) [0..499] ctrl_logger) (\<lambda>ctrl_logger.
      and_then (created (CsvLogger b register now_csv ''csv_log'' log_path r)) (\<lambda>(csv_logger, r).
      and_then (for_each (csv_iteration b register d now_global log_path csv_logger) [0..499] (None, r)) (\<lambda>(global, r).
      and_then (created (EventLogger b register now_event ''event_log'' log_path r)) (\<lambda>(event_logger, r).
      and_then (for_each (\<lambda>i r. on_file event_logger r (LogEvent b (field_text d) event_logger
          [Text_Field ''event1'', Text_Field ''event2'', Double_Field (of_int_double d i * lit_100_5 d)])) [0..499] r) (\<lambda>r.
      and_then (on_file (specialized_logger.truncate ctrl_logger) r (Flush b (specialized_logger.truncate ctrl_logger))) (\<lambda>r.
      and_then (on_file csv_logger r (Flush b csv_logger)) (\<lambda>r.
      and_then (got (GlobalCsvLogger_GetLogger b register now_end [] [] (global, r))) (\<lambda>(global_logger, global, r).
      and_then (on_file global_logger r (Flush b global_logger)) (\<lambda>r.
      on_file event_logger r (Flush b event_logger)))))))))))))"

section \<open>What the statements do\<close>

text \<open>Calls show only when logging is compiled in.\<close>

definition said :: "build \<Rightarrow> 'a list \<Rightarrow> 'a list" where
  "said b xs = (if enable_logging b then xs else [])"

lemma said_simps [simp]:
  "said b xs @ said b ys = said b (xs @ ys)" "concat (map (\<lambda>i. said b (f i)) is) = said b (concat (map f is))"
  "said b [] = []"
  by (simp_all add: said_def)

lemma ctrl_do_base:
  "ctrl_do b to_string s a = Some (r, t) \<Longrightarrow> specialized_logger.truncate t = specialized_logger.truncate s"
  by (cases a)
    (auto simp: AddItemNameToEntryHead_def AddItemDataToEntry_name_def AddItemDataToEntry_id_def
      AddItemDataToEntry_name_double_def AddItemDataToEntry_id_double_def PassEntryHeaderToLogger_def
      PassEntryDataToLogger_def Let_def specialized_logger.truncate_def split: if_splits option.splits)

lemma same_base: "specialized_logger.truncate t = specialized_logger.truncate s \<Longrightarrow> sl_logger t = sl_logger s"
  by (simp add: specialized_logger.truncate_def)

text \<open>A sequence of calls that are all defined shows what the table says.\<close>

lemma ctrl_calls:
  assumes "ctrl_inv b s" and "length (columns (table_of s)) + length ops \<le> 2 ^ 64 - 1"
    and "run_spec (table_do b to_string) (table_of s) ops = (map Events ess, q)"
  shows "\<exists>t. for_each (ctrl_call b to_string) ops s = Inr (concat (map (ctrl_observed (sl_logger s)) (concat ess)), t)
     \<and> ctrl_inv b t \<and> table_of t = q \<and> specialized_logger.truncate t = specialized_logger.truncate s"
  using assms
proof (induction ops arbitrary: s ess)
  case (Cons a ops)
  from Cons.prems(2) have room: "length (columns (table_of s)) < 2 ^ 64 - 1" by simp
  from ctrl_simulation [OF Cons.prems(1) room, of to_string a] obtain u where
    u: "ctrl_do b to_string s a = Some (fst (table_do b to_string (table_of s) a), u)" "ctrl_inv b u"
      "table_of u = snd (table_do b to_string (table_of s) a)" by blast
  from Cons.prems(3) obtain es rest where e: "ess = es # rest" "fst (table_do b to_string (table_of s) a) = Events es"
    "run_spec (table_do b to_string) (table_of u) ops = (map Events rest, q)"
    by (cases ess) (auto simp: u(3) split: prod.splits)
  have "length (columns (table_of u)) \<le> Suc (length (columns (table_of s)))"
    unfolding u(3) by (rule ctrl.size_step)
  with Cons.prems(2) have "length (columns (table_of u)) + length ops \<le> 2 ^ 64 - 1" by simp
  from Cons.IH [OF u(2) this e(3)] obtain t where
    "for_each (ctrl_call b to_string) ops u = Inr (concat (map (ctrl_observed (sl_logger u)) (concat rest)), t)"
    "ctrl_inv b t" "table_of t = q" "specialized_logger.truncate t = specialized_logger.truncate u" by blast
  moreover have "ctrl_call b to_string a s = Inr (concat (map (ctrl_observed (sl_logger s)) es), u)"
    using u(1) e(2) by (simp add: ctrl_call_def)
  ultimately show ?case using e(1) ctrl_do_base [OF u(1)] same_base [OF ctrl_do_base [OF u(1)]] by (simp add: outcome_simps)
qed simp

text \<open>The four columns, and one row of them.\<close>

abbreviation xs1234 :: "string list" where
  "xs1234 \<equiv> [''x1'', ''x2'', ''x3'', ''x4'']"

definition row_cells :: "'d doubles \<Rightarrow> int \<Rightarrow> string list" where
  "row_cells d i = map (\<lambda>k. to_string_double d (of_int_double d (i + k))) [1, 2, 3, 4]"

lemma name_columns_table:
  "run_spec (table_do b to_string) empty_table name_columns
    = (map Events [[], [], [], [], said b [Logged (join '' , '' xs1234)]],
       \<lparr>columns = xs1234, has_header = True, row = replicate 4 []\<rparr>)"
  by (simp add: name_columns_def line_def said_def numeral_eq_Suc)

lemma four: "length xs = 4 \<longleftrightarrow> (\<exists>p q r s. xs = [p, q, r, s])"
  by (auto simp: numeral_eq_Suc length_Suc_conv)

lemma ctrl_row_table:
  assumes "\<forall>x. to_string_double d x \<noteq> []" and "columns t = xs1234" and "has_header t" and "length (row t) = 4"
  shows "run_spec (table_do b (to_string_double d)) t (ctrl_row d i)
    = (map Events [[], [], [], [], said b [Logged (join '' , '' (row_cells d i))]], t\<lparr>row := row_cells d i\<rparr>)"
proof -
  from assms(4) obtain p q r s where "row t = [p, q, r, s]" unfolding four by blast
  with assms(1-3) show ?thesis
    by (simp add: ctrl_row_def put_name_def index_of_def row_cells_def line_def said_def)
qed

text \<open>Constructors succeed on a name that is free; \<open>name_of\<close> is the file a data logger writes.\<close>

definition name_of :: "environment \<Rightarrow> string \<Rightarrow> tm \<Rightarrow> string" where
  "name_of env prefix now = CreateLogFileName now prefix (GetLogFolderPath env)"

definition file_logger :: "build \<Rightarrow> environment \<Rightarrow> string \<Rightarrow> tm \<Rightarrow> specialized_logger" where
  "file_logger b env prefix now = \<lparr>sl_logger = (if enable_logging b then Some (name_of env prefix now) else None),
     logfile_prefix = prefix, logfile_path = GetLogFolderPath env\<rparr>"

definition free_names :: "(string \<Rightarrow> 'r \<Rightarrow> 'r option) \<Rightarrow> ('r \<Rightarrow> string set) \<Rightarrow> bool" where
  "free_names register taken \<longleftrightarrow> (\<forall>n r. n \<notin> taken r \<longrightarrow> (\<exists>r'. register n r = Some r' \<and> taken r' = insert n (taken r)))"

lemma new_logger:
  assumes "free_names register taken" and "enable_logging b \<longrightarrow> name_of env prefix now \<notin> taken r"
  obtains r' where "SpecializedLogger b register now prefix (GetLogFolderPath env) r = Inr (file_logger b env prefix now, r')"
    and "taken r' = set (said b [name_of env prefix now]) \<union> taken r"
proof (cases "enable_logging b")
  case True
  with assms obtain r' where "register (name_of env prefix now) r = Some r'"
    "taken r' = insert (name_of env prefix now) (taken r)" unfolding free_names_def by blast
  with True that [of r'] show ?thesis by (simp add: SpecializedLogger_def file_logger_def name_of_def said_def)
next
  case False
  with that [of r] show ?thesis by (simp add: SpecializedLogger_def file_logger_def said_def)
qed

lemma on_file_logger:
  "r = Some (said b [c]) \<Longrightarrow>
     on_file (file_logger b env prefix now) s r = Inr (said b [Logger_Call (name_of env prefix now) c], s)"
  by (simp add: on_file_def file_logger_def said_def)

lemma file_logger_calls:
  "vals \<noteq> [] \<Longrightarrow> LogData b to_str (file_logger b env prefix now) vals = Some (said b [Info (join '','' (map to_str vals))])"
  "vals \<noteq> [] \<Longrightarrow> LogEvent b to_str (file_logger b env prefix now) vals = Some (said b [Info (join '','' (map to_str vals))])"
  "Flush b (file_logger b env prefix now) = Some (said b [Flush_Call])"
proof -
  have call: "enable_logging b \<Longrightarrow> on_logger (file_logger b env prefix now) c = Some [c]" for c
    by (simp add: on_logger_def file_logger_def)
  show "vals \<noteq> [] \<Longrightarrow> LogData b to_str (file_logger b env prefix now) vals = Some (said b [Info (join '','' (map to_str vals))])"
    by (cases "enable_logging b", simp only: LogData_row call said_def if_True if_False, simp only: LogData_def said_def if_False)
  show "vals \<noteq> [] \<Longrightarrow> LogEvent b to_str (file_logger b env prefix now) vals = Some (said b [Info (join '','' (map to_str vals))])"
    by (cases "enable_logging b", simp only: LogEvent_row call said_def if_True if_False, simp only: LogEvent_def said_def if_False)
  show "Flush b (file_logger b env prefix now) = Some (said b [Flush_Call])"
    by (cases "enable_logging b") (simp_all add: Flush_def call said_def file_logger_def on_logger_def)
qed

lemmas log_row = file_logger_calls [THEN on_file_logger]

text \<open>One iteration of the CSV loop: the first constructs the global logger, the others find it.\<close>

definition csv_said :: "build \<Rightarrow> ('d::{plus,times}) doubles \<Rightarrow> string \<Rightarrow> string \<Rightarrow> int \<Rightarrow> observed list" where
  "csv_said b d csv global i = said b
     [Logger_Call csv (Info (join '','' (map (field_text d)
        [Int_Field (i + 1), Double_Field (of_int_double d i + lit_0_5 d), Double_Field (of_int_double d i * lit_100_5 d)]))),
      Logger_Call global (Info (join '','' (map (field_text d) [Int_Field 21, Int_Field 34, Int_Field 56])))]"

lemma csv_iteration:
  assumes "GlobalCsvLogger_GetLogger b register (now i) ''global_csv_log'' (GetLogFolderPath env) st
      = (Inr (file_logger b env prefix t), st')"
  shows "csv_iteration b register d now (GetLogFolderPath env) (file_logger b env ''csv_log'' now_csv) i st
    = Inr (csv_said b d (name_of env ''csv_log'' now_csv) (name_of env prefix t) i, st')"
  using assms by (simp add: csv_iteration_def log_row outcome_simps got_def csv_said_def del: list.map)

text \<open>The control logger's part of the program.\<close>

definition ctrl_said :: "build \<Rightarrow> 'd doubles \<Rightarrow> string \<Rightarrow> observed list" where
  "ctrl_said b d file = said b (Logger_Call file (Info (join '' , '' xs1234))
     # map (\<lambda>i. Logger_Call file (Info (join '' , '' (row_cells d i)))) [0..499])"

lemma ctrl_observed_said:
  assumes "sl_logger s = (if enable_logging b then Some file else None)"
  shows "concat (map (ctrl_observed (sl_logger s)) (concat [[], [], [], [], said b [Logged txt]]))
    = said b [Logger_Call file (Info txt)]"
  using assms by (simp add: said_def)

lemma ctrl_phase:
  assumes "\<forall>x. to_string_double d x \<noteq> []" and "ctrl_inv b s" and "table_of s = empty_table"
    and lg: "sl_logger s = (if enable_logging b then Some file else None)"
  shows "\<exists>t. and_then (for_each (ctrl_call b (to_string_double d)) name_columns s)
      (for_each (\<lambda>i. for_each (ctrl_call b (to_string_double d)) (ctrl_row d i)) [0..499]) = Inr (ctrl_said b d file, t)
    \<and> specialized_logger.truncate t = specialized_logger.truncate s"
proof -
  let ?call = "ctrl_call b (to_string_double d)"
  from ctrl_calls [OF assms(2), of name_columns "to_string_double d", unfolded assms(3), OF _ name_columns_table]
  obtain u where u: "for_each ?call name_columns s = Inr (said b [Logger_Call file (Info (join '' , '' xs1234))], u)"
    "ctrl_inv b u" "columns (table_of u) = xs1234" "has_header (table_of u)" "length (row (table_of u)) = 4"
    "specialized_logger.truncate u = specialized_logger.truncate s"
    unfolding ctrl_observed_said [OF lg] by (auto simp: name_columns_def)
  let ?P = "\<lambda>u. ctrl_inv b u \<and> columns (table_of u) = xs1234 \<and> has_header (table_of u) \<and> length (row (table_of u)) = 4
    \<and> specialized_logger.truncate u = specialized_logger.truncate s"
  have "\<exists>v. for_each ?call (ctrl_row d i) u = Inr (said b [Logger_Call file (Info (join '' , '' (row_cells d i)))], v) \<and> ?P v"
    if "?P u" for i u
  proof -
    have f: "sl_logger u = (if enable_logging b then Some file else None)" using that same_base lg by metis
    have "length (columns (table_of u)) + length (ctrl_row d i) \<le> 2 ^ 64 - 1" using that by (simp add: ctrl_row_def)
    from ctrl_calls [where b = b, OF _ this ctrl_row_table [OF assms(1)]] that obtain v where
      "for_each ?call (ctrl_row d i) u = Inr (said b [Logger_Call file (Info (join '' , '' (row_cells d i)))], v)"
      "ctrl_inv b v" "table_of v = (table_of u)\<lparr>row := row_cells d i\<rparr>"
      "specialized_logger.truncate v = specialized_logger.truncate u"
      unfolding ctrl_observed_said [OF f] by blast
    with that show ?thesis by (intro exI [of _ v]) (simp add: row_cells_def)
  qed
  then obtain t where "for_each (\<lambda>i. for_each ?call (ctrl_row d i)) [0..499] u
      = Inr (concat (map (\<lambda>i. said b [Logger_Call file (Info (join '' , '' (row_cells d i)))]) [0..499]), t) \<and> ?P t"
    using for_each_inv [of "[0..499]" ?P "\<lambda>i. for_each ?call (ctrl_row d i)"
        "\<lambda>i. said b [Logger_Call file (Info (join '' , '' (row_cells d i)))]" u] u(2-) by blast
  then show ?thesis
    by (intro exI [of _ t]) (simp add: u(1) outcome_simps ctrl_said_def concat_map_singleton del: upto_rec_numeral)
qed

text \<open>The loop over both CSV loggers.\<close>

lemma csv_phase:
  assumes "free_names register taken" and "enable_logging b \<longrightarrow> name_of env ''global_csv_log'' (now 0) \<notin> taken r"
  obtains r' where "for_each (csv_iteration b register d now (GetLogFolderPath env) (file_logger b env ''csv_log'' now_csv)) [0..499] (None, r)
      = Inr (concat (map (csv_said b d (name_of env ''csv_log'' now_csv) (name_of env ''global_csv_log'' (now 0))) [0..499]),
         (Some (file_logger b env ''global_csv_log'' (now 0)), r'))"
    and "taken r' = set (said b [name_of env ''global_csv_log'' (now 0)]) \<union> taken r"
proof -
  let ?lg = "file_logger b env ''global_csv_log'' (now 0)"
  let ?body = "csv_iteration b register d now (GetLogFolderPath env) (file_logger b env ''csv_log'' now_csv)"
  let ?out = "csv_said b d (name_of env ''csv_log'' now_csv) (name_of env ''global_csv_log'' (now 0))"
  from new_logger [OF assms] obtain r' where r':
    "SpecializedLogger b register (now 0) ''global_csv_log'' (GetLogFolderPath env) r = Inr (?lg, r')"
    "taken r' = set (said b [name_of env ''global_csv_log'' (now 0)]) \<union> taken r" by blast
  have first: "?body 0 (None, r) = Inr (?out 0, (Some ?lg, r'))"
    by (rule csv_iteration) (simp add: GlobalCsvLogger_GetLogger_def CsvLogger_def r'(1))
  have later: "?body i (Some ?lg, r') = Inr (?out i, (Some ?lg, r'))" for i
    by (rule csv_iteration) (simp add: GlobalCsvLogger_GetLogger_def)
  have "[0..499] = 0 # [1..499 :: int]" by (subst upto_rec1) simp_all
  moreover have "\<exists>st. for_each ?body [1..499] (Some ?lg, r') = Inr (concat (map ?out [1..499]), st) \<and> st = (Some ?lg, r')"
    by (rule for_each_inv) (simp_all add: later)
  ultimately have "for_each ?body [0..499] (None, r) = Inr (concat (map ?out [0..499]), (Some ?lg, r'))"
    by (simp add: first outcome_simps del: upto_rec_numeral)
  with r'(2) that show thesis by blast
qed

lemma ctrl_created:
  assumes "free_names register taken" and "enable_logging b \<longrightarrow> name_of env ''ctrl_log'' now \<notin> taken r"
  obtains s r' where "CtrlLogger_GetLogger b register now ''ctrl_log'' (GetLogFolderPath env) (None, r) = (Inr s, (Some s, r'))"
    and "ctrl_inv b s" and "table_of s = empty_table" and "specialized_logger.truncate s = file_logger b env ''ctrl_log'' now"
    and "taken r' = set (said b [name_of env ''ctrl_log'' now]) \<union> taken r"
proof -
  from new_logger [OF assms] obtain r' where r':
    "SpecializedLogger b register now ''ctrl_log'' (GetLogFolderPath env) r = Inr (file_logger b env ''ctrl_log'' now, r')"
    "taken r' = set (said b [name_of env ''ctrl_log'' now]) \<union> taken r" by blast
  then obtain s where s: "CtrlLogger b register now ''ctrl_log'' (GetLogFolderPath env) r = Inr (s, r')"
    "specialized_logger.truncate s = file_logger b env ''ctrl_log'' now"
    by (simp add: CtrlLogger_def specialized_logger.truncate_def file_logger_def)
  then have "CtrlLogger_GetLogger b register now ''ctrl_log'' (GetLogFolderPath env) (None, r) = (Inr s, (Some s, r'))"
    by (simp add: CtrlLogger_GetLogger_def)
  from that [OF this ctrl_fresh [OF s(1)] s(2) r'(2)] show thesis .
qed

section \<open>The program\<close>

lemma different_prefixes:
  "distinct [name_of env ''ctrl_log'' t1, name_of env ''csv_log'' t2, name_of env ''global_csv_log'' t3, name_of env ''event_log'' t4]"
  by (simp add: name_of_def CreateLogFileName_def)

text \<open>C26. The data-logging program works: started with no logger of these names, it finishes without
  an exception, an undefined access or an error message, whenever its four loggers are built,
  even within one second. It opens four different files; the control file gets its header and
  500 rows of four cells, the CSV file 500 rows, the global CSV file one row for each of them
  although it is asked for 501 times, the event file 500 rows, in the order of the program, and
  each file is flushed once at the end. Compiled without logging it makes no call at all.\<close>

theorem ctrl_logger_example_writes_all_rows:
  fixes d :: "('d::{plus,times}) doubles"
  assumes "free_names register taken" and "\<forall>x. to_string_double d x \<noteq> []"
    and "enable_logging b \<longrightarrow> taken r \<inter> {name_of env ''ctrl_log'' t1, name_of env ''csv_log'' t2,
          name_of env ''global_csv_log'' (t3 0), name_of env ''event_log'' t4} = {}"
  defines "n1 \<equiv> name_of env ''ctrl_log'' t1" and "n2 \<equiv> name_of env ''csv_log'' t2"
    and "n3 \<equiv> name_of env ''global_csv_log'' (t3 0)" and "n4 \<equiv> name_of env ''event_log'' t4"
  shows "\<exists>r'. ctrl_logger_example b register d env t1 t2 t3 t4 t5 r = Inr (said b (
      Logger_Call n1 (Info ''x1 , x2 , x3 , x4'')
      # map (\<lambda>i. Logger_Call n1 (Info (join '' , '' (row_cells d i)))) [0..499]
      @ concat (map (\<lambda>i.
          [Logger_Call n2 (Info (join '','' (map (field_text d)
             [Int_Field (i + 1), Double_Field (of_int_double d i + lit_0_5 d), Double_Field (of_int_double d i * lit_100_5 d)]))),
           Logger_Call n3 (Info (join '','' (map (field_text d) [Int_Field 21, Int_Field 34, Int_Field 56])))]) [0..499])
      @ map (\<lambda>i. Logger_Call n4 (Info (join '','' (map (field_text d)
          [Text_Field ''event1'', Text_Field ''event2'', Double_Field (of_int_double d i * lit_100_5 d)])))) [0..499]
      @ map (\<lambda>n. Logger_Call n Flush_Call) [n1, n2, n3, n4]), r')
    \<and> taken r' = set (said b [n1, n2, n3, n4]) \<union> taken r \<and> distinct [n1, n2, n3, n4]"
proof -
  have dist: "distinct [n1, n2, n3, n4]" unfolding n1_def n2_def n3_def n4_def by (rule different_prefixes)
  have free: "enable_logging b \<longrightarrow> n1 \<notin> taken r \<and> n2 \<notin> taken r \<and> n3 \<notin> taken r \<and> n4 \<notin> taken r"
    using assms(3) unfolding n1_def n2_def n3_def n4_def by blast
  let ?p = "GetLogFolderPath env"
  from ctrl_created [OF assms(1), of b env t1 r] free obtain s r1 where
    s: "CtrlLogger_GetLogger b register t1 ''ctrl_log'' ?p (None, r) = (Inr s, (Some s, r1))" "ctrl_inv b s"
      "table_of s = empty_table" "specialized_logger.truncate s = file_logger b env ''ctrl_log'' t1"
      "taken r1 = set (said b [n1]) \<union> taken r" unfolding n1_def by blast
  have lg: "sl_logger s = (if enable_logging b then Some n1 else None)"
    using s(4) by (simp add: specialized_logger.truncate_def file_logger_def n1_def)
  from ctrl_phase [OF assms(2) s(2,3) lg] obtain u where
    u: "and_then (for_each (ctrl_call b (to_string_double d)) name_columns s)
      (for_each (\<lambda>i. for_each (ctrl_call b (to_string_double d)) (ctrl_row d i)) [0..499]) = Inr (ctrl_said b d n1, u)"
    "specialized_logger.truncate u = file_logger b env ''ctrl_log'' t1" unfolding s(4) by blast
  have "enable_logging b \<longrightarrow> n2 \<notin> taken r1" using free dist s(5) by (auto simp: said_def)
  from new_logger [OF assms(1) this [unfolded n2_def]] obtain r2 where
    r2: "SpecializedLogger b register t2 ''csv_log'' ?p r1 = Inr (file_logger b env ''csv_log'' t2, r2)"
      "taken r2 = set (said b [n2]) \<union> taken r1" unfolding n2_def by blast
  have "enable_logging b \<longrightarrow> n3 \<notin> taken r2" using free dist s(5) r2(2) by (auto simp: said_def)
  from csv_phase [where now = t3, OF assms(1) this [unfolded n3_def]] obtain r3 where
    r3: "for_each (csv_iteration b register d t3 ?p (file_logger b env ''csv_log'' t2)) [0..499] (None, r2)
      = Inr (concat (map (csv_said b d n2 n3) [0..499]), (Some (file_logger b env ''global_csv_log'' (t3 0)), r3))"
      "taken r3 = set (said b [n3]) \<union> taken r2" unfolding n2_def n3_def by blast
  have "enable_logging b \<longrightarrow> n4 \<notin> taken r3" using free dist s(5) r2(2) r3(2) by (auto simp: said_def)
  from new_logger [OF assms(1) this [unfolded n4_def]] obtain r4 where
    r4: "SpecializedLogger b register t4 ''event_log'' ?p r3 = Inr (file_logger b env ''event_log'' t4, r4)"
      "taken r4 = set (said b [n4]) \<union> taken r3" unfolding n4_def by blast
  let ?event = "\<lambda>i. [Text_Field ''event1'', Text_Field ''event2'', Double_Field (of_int_double d i * lit_100_5 d)]"
  let ?body = "\<lambda>i r. on_file (file_logger b env ''event_log'' t4) r (LogEvent b (field_text d) (file_logger b env ''event_log'' t4) (?event i))"
  have "\<exists>st. for_each ?body [0..499] r4
      = Inr (concat (map (\<lambda>i. said b [Logger_Call n4 (Info (join '','' (map (field_text d) (?event i))))]) [0..499]), st) \<and> st = r4"
    by (rule for_each_inv) (simp_all add: log_row n4_def del: list.map)
  then have events: "for_each ?body [0..499] r4
      = Inr (said b (map (\<lambda>i. Logger_Call n4 (Info (join '','' (map (field_text d) (?event i))))) [0..499]), r4)"
    by (simp add: concat_map_singleton del: upto_rec_numeral list.map(2))
  from u(1) obtain s1 o1 o2 where c:
    "for_each (ctrl_call b (to_string_double d)) name_columns s = Inr (o1, s1)"
    "for_each (\<lambda>i. for_each (ctrl_call b (to_string_double d)) (ctrl_row d i)) [0..499] s1 = Inr (o2, u)" "o1 @ o2 = ctrl_said b d n1"
    by (auto simp: and_then_def split: sum.splits prod.splits)
  have "ctrl_logger_example b register d env t1 t2 t3 t4 t5 r
    = Inr ((o1 @ o2) @ concat (map (csv_said b d n2 n3) [0..499])
        @ said b (map (\<lambda>i. Logger_Call n4 (Info (join '','' (map (field_text d) (?event i))))) [0..499])
        @ said b (map (\<lambda>n. Logger_Call n Flush_Call) [n1, n2, n3, n4]), r4)"
    unfolding ctrl_logger_example_def Let_def s(1) got_def created_def CsvLogger_def EventLogger_def
    by (simp add: outcome_simps c(1,2) r2(1) r3(1) r4(1) events u(2) log_row(3) GlobalCsvLogger_GetLogger_def
        n1_def n2_def n3_def n4_def del: upto_rec_numeral)
  moreover have "taken r4 = set (said b [n1, n2, n3, n4]) \<union> taken r"
    using s(5) r2(2) r3(2) r4(2) by (auto simp: said_def)
  ultimately show ?thesis using dist
    by (intro exI [of _ r4]) (simp add: c(3) ctrl_said_def csv_said_def [abs_def] del: upto_rec_numeral list.map)
qed

definition demo_doubles :: "rat doubles" where
  "demo_doubles = \<lparr>of_int_double = of_int, lit_0_5 = 1 / 2, lit_100_5 = 201 / 2, to_string_double = (\<lambda>x. to_string_int \<lfloor>x\<rfloor>),
     field_text = (\<lambda>f. case f of Int_Field n \<Rightarrow> to_string_int n | Double_Field x \<Rightarrow> to_string_int \<lfloor>x\<rfloor> | Text_Field t \<Rightarrow> t)\<rparr>"

theorem ctrl_logger_example_writes_all_rows_witness:
  "let register = (\<lambda>n names. if n \<in> set names then None else Some (n # names)); now = p_now demo_process
   in \<exists>calls names. ctrl_logger_example \<lparr>enable_logging = True, active_level = 0\<rparr> register demo_doubles (\<lambda>_. None)
        now now (\<lambda>_. now) now now [] = Inr (calls, names) \<and> length calls = 2005
      \<and> hd calls = Logger_Call ''/tmp/.xmotion/log/ctrl_log.20260101000000.csv'' (Info ''x1 , x2 , x3 , x4'')"
proof -
  let ?register = "\<lambda>n names. if n \<in> set names then None else Some (n # names)" and ?now = "p_now demo_process"
  let ?b = "\<lparr>enable_logging = True, active_level = 0\<rparr>"
  have f: "free_names ?register set" by (simp add: free_names_def)
  have n: "\<forall>x. to_string_double demo_doubles x \<noteq> []" by (simp add: demo_doubles_def to_string_int_def digits_ne)
  have name: "name_of (\<lambda>_. None) ''ctrl_log'' ?now = ''/tmp/.xmotion/log/ctrl_log.20260101000000.csv''" by code_simp
  have len: "length (concat (map (\<lambda>i. [f i, g i]) xs)) = 2 * length xs" for f g :: "int \<Rightarrow> observed" and xs
    by (induction xs) simp_all
  have "enable_logging ?b \<longrightarrow> set [] \<inter> {name_of (\<lambda>_. None) ''ctrl_log'' ?now, name_of (\<lambda>_. None) ''csv_log'' ?now,
      name_of (\<lambda>_. None) ''global_csv_log'' ?now, name_of (\<lambda>_. None) ''event_log'' ?now} = {}" by simp
  from ctrl_logger_example_writes_all_rows [OF f n this, of ?now] show ?thesis
    by (auto simp: said_def name len Let_def simp del: upto_rec_numeral)
qed

end
