(* ===== verification/Rt_Examples.thy ===== *)
theory Rt_Examples
  imports Xlogger_Example Rt_Logger
begin

text \<open>
  The program \<open>examples/rt_logger_example.cpp\<close>: a control loop that logs through the
  single-producer logger, flushes it and reports how many records were dropped. The texts its
  format strings give are a parameter.
\<close>

section \<open>Calls of one level\<close>

text \<open>
  While nobody sets the level, a logger of level \<open>l\<close> treats all calls of one level \<open>k\<close> alike.
\<close>

fun sets_level :: "rt_event \<Rightarrow> bool" where
  "sets_level (Level_Set _) \<longleftrightarrow> True"
| "sets_level _ \<longleftrightarrow> False"

definition uniform_inv :: "LogLevel \<Rightarrow> LogLevel \<Rightarrow> rt_event list \<Rightarrow> rt_logger \<Rightarrow> bool" where
  "uniform_inv l k es s \<longleftrightarrow> list_ex sets_level es \<or> (\<exists>c \<in> set (calls es). fst c \<noteq> k) \<or>
     (set (visible_levels s) = {l} \<and> (\<forall>level out. producer s = P_Filter level out \<longrightarrow> level = k)
      \<and> (if l \<le> k then Filtered \<notin> set (outcomes es)
         else list_all ((=) Filtered) (outcomes es) \<and> (producer s = P_Idle \<or> (\<exists>out. producer s = P_Filter k out))))"

lemma Log_step_fixed_level:
  assumes "Log_step v now s = Some (e, t)" and "set (visible_levels s) = {l}"
  shows "set (visible_levels t) = {l}"
  using Log_step_visible [OF assms(1)] assms(2) by (auto simp: visible_levels_def)

lemma no_level_event:
  "Log_step v now s = Some (e, t) \<Longrightarrow> \<not> sets_level e \<and> call_of e = []"
  "DrainLoop_step v s = Some (e, t) \<Longrightarrow> \<not> sets_level e" "Flush_step v s = Some (e, t) \<Longrightarrow> \<not> sets_level e"
  by (auto simp: Log_step_def with_slot_def format_slot_def DrainLoop_step_def read_slot_def emit_slot_def Flush_step_def Let_def
      split: producer_pc.splits drain_pc.splits flush_pc.splits if_splits option.splits prod.splits)

lemma uniform_inv_log:
  assumes inv: "uniform_inv l k es s" and log: "Log_step v now s = Some (e, t)" and vis: "set (visible_levels s) = {l}"
  shows "uniform_inv l k (es @ [e]) t"
proof (cases "producer s")
  case (P_Filter level out)
  with log have "unat v < length (visible_levels s)" by (auto simp: Log_step_def split: if_splits)
  then have "visible_levels s ! unat v = l" using vis nth_mem by blast
  with log P_Filter have "e = (if level < l then Filtered else Log_Step)"
    "producer t = (if level < l then P_Idle else P_Head level out)"
    by (auto simp: Log_step_def split: if_splits)
  with inv Log_step_fixed_level [OF log vis] P_Filter show ?thesis by (auto simp: uniform_inv_def not_less)
qed (use log inv Log_step_fixed_level [OF log vis] in \<open>auto simp: uniform_inv_def Log_step_def with_slot_def format_slot_def
      split: if_splits option.splits prod.splits\<close>)

lemma uniform_inv_step: "uniform_inv l k es s \<Longrightarrow> rt_step s e t \<Longrightarrow> uniform_inv l k (es @ [e]) t"
proof -
  assume inv: "uniform_inv l k es s" and "rt_step s e t"
  from this(2) show ?thesis
  proof cases
    case (log v now)
    show ?thesis
    proof (cases "set (visible_levels s) = {l}")
      case True
      with log inv uniform_inv_log show ?thesis by blast
    qed (use inv in \<open>auto simp: uniform_inv_def\<close>)
  next
    case (drain v)
    from DrainLoop_step_frame [OF this] no_level_event(2) [OF this] inv visible_levels_cong [of t s] show ?thesis
      by (cases "l \<le> k") (simp_all add: uniform_inv_def)
  next
    case (flush v)
    from Flush_step_frame [OF this] no_level_event(3) [OF this] inv visible_levels_cong [of t s] show ?thesis
      by (cases "l \<le> k") (simp_all add: uniform_inv_def)
  next
    case (level_known n)
    have "set (visible_levels t) = {l}" if "set (visible_levels s) = {l}"
      using visible_known [of n s] that level_known by (auto simp: visible_levels_def)
    with level_known inv show ?thesis by (auto simp: uniform_inv_def)
  qed (use inv in \<open>auto simp: uniform_inv_def visible_levels_def\<close>)
qed

interpretation uniform: trace_invariant rt_step "\<lambda>s. producer s = P_Idle \<and> set (visible_levels s) = {l}" "uniform_inv l k" for l k
proof
  show "producer s = P_Idle \<and> set (visible_levels s) = {l} \<Longrightarrow> uniform_inv l k [] s" for s
    by (simp add: uniform_inv_def)
qed (rule uniform_inv_step)

section \<open>Calls that all fit into the ring\<close>

lemma Log_step_capacity: "Log_step v now s = Some (e, t) \<Longrightarrow> capacity t = capacity s"
  by (cases "producer s")
    (auto simp: Log_step_def with_slot_def format_slot_def split: if_splits option.splits prod.splits)

lemma DrainLoop_step_capacity: "DrainLoop_step v s = Some (e, t) \<Longrightarrow> capacity t = capacity s"
  by (cases "drain s")
    (auto simp: DrainLoop_step_def read_slot_def emit_slot_def Let_def split: if_splits option.splits)

lemma Flush_step_capacity: "Flush_step v s = Some (e, t) \<Longrightarrow> capacity t = capacity s"
  by (cases "flusher s") (auto simp: Flush_step_def split: if_splits)

lemma published_outcomes: "published (outcomes es) = published es \<and> length (published es) \<le> length (outcomes es)"
proof (induction es)
  case (Cons e es)
  then show ?case by (cases e) auto
qed simp

text \<open>A full ring needs as many published records as it has slots.\<close>

lemma not_full:
  assumes inv: "rt_inv es s" and few: "length (published es) < unat (capacity s)"
    and step: "Log_step v now s = Some (e, t)" and pc: "producer s = P_Tail l out h"
  shows "producer t = P_Level l out h"
proof -
  let ?P = "length (published es)"
  from inv obtain C V H where at: "rt_inv_at (published es) C V H s" by (auto simp: rt_inv_def)
  then have counts: "tail s = of_nat C" "producer_view s = of_nat V" "V \<le> C" "C \<le> ?P" "?P \<le> V + unat (capacity s)"
    and ring: "ring_ok s" and h: "h = of_nat ?P"
    using pc by (auto simp: rt_inv_at_def rt_counts_def producer_ok_def)
  have cap: "unat (capacity s) \<le> 2 ^ 63" using capacity_bound [OF ring] by simp
  from step pc have load: "may_load (of_nat V) (of_nat C) v"
    and t: "producer t = (if capacity s \<le> h - v then P_Drop else P_Level l out h)"
    unfolding counts(1,2) [symmetric] by (auto simp: Log_step_def split: if_splits)
  have "C - V < 2 ^ 64" using counts(4,5) cap by simp
  from may_load_nat [OF load counts(3) this] obtain c where c: "v = of_nat c" "V \<le> c" "c \<le> C" .
  have "unat (of_nat ?P - of_nat c :: u64) = ?P - c"
    by (rule unat_distance) (use c counts(4,5) cap in simp_all)
  then have "\<not> capacity s \<le> h - v" using few by (simp add: word_le_nat_alt h c(1))
  with t show ?thesis by simp
qed

definition roomy_inv :: "nat \<Rightarrow> rt_event list \<Rightarrow> rt_logger \<Rightarrow> bool" where
  "roomy_inv n es s \<longleftrightarrow> rt_inv es s \<and> account_inv es s \<and> unat (capacity s) = n
     \<and> (length (calls es) \<le> n \<longrightarrow> Dropped \<notin> set (outcomes es) \<and> producer s \<noteq> P_Drop)"

lemma roomy_inv_step: "roomy_inv n es s \<Longrightarrow> rt_step s e t \<Longrightarrow> roomy_inv n (es @ [e]) t"
proof -
  assume inv: "roomy_inv n es s" and step: "rt_step s e t"
  then have i: "rt_inv es s" "account_inv es s" "unat (capacity s) = n"
    "length (calls es) \<le> n \<longrightarrow> Dropped \<notin> set (outcomes es) \<and> producer s \<noteq> P_Drop" by (simp_all add: roomy_inv_def)
  have "capacity t = capacity s \<and> (length (calls (es @ [e])) \<le> n
      \<longrightarrow> Dropped \<notin> set (outcomes (es @ [e])) \<and> producer t \<noteq> P_Drop)"
    using step
  proof cases
    case (log v now)
    show ?thesis
    proof (cases "\<exists>l out h. producer s = P_Tail l out h")
      case True
      then obtain l out h where pc: "producer s = P_Tail l out h" by blast
      from i(1) have "Undefined \<notin> set es" by (rule rt_invD)
      with i(2) pc obtain cs c where "calls es = cs @ [c]" "list_all2 outcome_matches cs (outcomes es)"
        by (auto simp: account_inv_def)
      then have "length (published es) < length (calls es)"
        using published_outcomes [of es] list_all2_lengthD by fastforce
      then have "length (calls es) \<le> n \<longrightarrow> producer t = P_Level l out h"
        using not_full [OF i(1) _ log pc] i(3) by linarith
      moreover have "e = Log_Step" using log pc by (auto simp: Log_step_def split: if_splits)
      ultimately show ?thesis using i(4) Log_step_capacity [OF log] by auto
    next
      case False
      with log i(4) Log_step_capacity [OF log] show ?thesis
        by (cases "producer s") (auto simp: Log_step_def with_slot_def format_slot_def split: if_splits option.splits prod.splits)
    qed
  next
    case (drain v)
    from DrainLoop_step_frame [OF this] DrainLoop_step_capacity [OF this] i(4) show ?thesis by simp
  next
    case (flush v)
    from Flush_step_frame [OF this] Flush_step_capacity [OF this] i(4) show ?thesis by simp
  qed (use i(4) in \<open>auto simp: SetLevel_def\<close>)
  with rt_inv_step [OF i(1) step] account_inv_step [OF i(2) step] i(3) show ?thesis by (simp add: roomy_inv_def)
qed

interpretation roomy: trace_invariant rt_step "\<lambda>s. rt_start s \<and> unat (capacity s) = n" "roomy_inv n" for n
proof
  show "rt_start s \<and> unat (capacity s) = n \<Longrightarrow> roomy_inv n [] s" for s
    using rt.inv_run [OF run_nil, of s] rt_account.inv_run [OF run_nil, of s] rt_start_fields [of s]
    by (simp add: roomy_inv_def)
qed (rule roomy_inv_step)

lemma all_filtered: "list_all ((=) Filtered) os \<Longrightarrow> published os = []"
  by (induction os) auto

lemma all_published:
  assumes "list_all2 outcome_matches cs os" and "Filtered \<notin> set os" and "Dropped \<notin> set os"
  shows "map snd (published os) = map (\<lambda>(l, out). (l, slot_text kMaxMsgLen out)) cs"
  using assms
proof (induction rule: list_all2_induct)
  case (Cons c cs e os)
  then have "e \<noteq> Filtered" "e \<noteq> Dropped" by auto
  with Cons.hyps(1) obtain time where "e = Published time (fst c) (slot_text kMaxMsgLen (snd c))"
    by (auto simp: outcome_matches_def)
  with Cons show ?case by (simp add: case_prod_beta)
qed simp

section \<open>Log, then flush\<close>

fun flush_call_event :: "rt_event \<Rightarrow> bool" where
  "flush_call_event (Flush_Call _) \<longleftrightarrow> True"
| "flush_call_event _ \<longleftrightarrow> False"

lemma known_after_other: "\<not> list_ex flush_call_event es \<Longrightarrow> foldl known_after v es = v"
proof (induction es arbitrary: v)
  case (Cons e es)
  then show ?case by (cases e) auto
qed simp

lemma no_more_outcomes:
  assumes "rt_start s0" and "run rt_step s0 es1 m" and "producer m = P_Idle" and "run rt_step m es2 s" and "calls es2 = []"
  shows "outcomes es2 = [] \<and> published es2 = []"
proof -
  have run: "run rt_step s0 (es1 @ es2) s" by (rule run_append [OF assms(4,2)])
  have "Undefined \<notin> set (es1 @ es2)" using rt.inv_run [OF run assms(1)] by (auto elim: rt_invD)
  then have "length (calls es1) = length (outcomes es1)"
    using rt_account.inv_run [OF assms(2,1)] assms(3) by (auto simp: account_inv_def dest: list_all2_lengthD)
  moreover have "length (outcomes (es1 @ es2)) \<le> length (calls (es1 @ es2))"
  proof (cases "producer s = P_Idle")
    case True
    with rt_account.inv_run [OF run assms(1)] \<open>Undefined \<notin> set (es1 @ es2)\<close> show ?thesis
      by (auto simp: account_inv_def dest: list_all2_lengthD)
  next
    case False
    with rt_account.inv_run [OF run assms(1)] \<open>Undefined \<notin> set (es1 @ es2)\<close> obtain cs c where
      "calls (es1 @ es2) = cs @ [c]" "list_all2 outcome_matches cs (outcomes (es1 @ es2))"
      unfolding account_inv_def by auto
    then show ?thesis by (auto dest: list_all2_lengthD)
  qed
  ultimately have "outcomes es2 = []" using assms(5) by simp
  with published_outcomes [of es2] show ?thesis by simp
qed

lemma log_then_flush:
  assumes "rt_start s0" and "unat (capacity s0) = n" and "visible_levels s0 = [l]"
    and r1: "run rt_step s0 es1 m" and idle: "producer m = P_Idle"
    and r2: "run rt_step m (Flush_Call (head m) # es2 @ [Flush_Return]) s"
    and calls: "\<forall>c \<in> set (calls es1). fst c = k" "length (calls es1) \<le> n" "calls es2 = []"
    and quiet: "\<not> list_ex sets_level es1" "\<not> list_ex flush_call_event es2"
  shows "dropped s = 0 \<and> (if l \<le> k
    then map snd (delivered (es1 @ Flush_Call (head m) # es2 @ [Flush_Return]))
      = map (\<lambda>(l, out). (ToSpdlogLevel l, slot_text kMaxMsgLen out)) (calls es1)
    else delivered (es1 @ Flush_Call (head m) # es2 @ [Flush_Return]) = [])"
proof -
  let ?es = "es1 @ Flush_Call (head m) # es2 @ [Flush_Return]"
  have run: "run rt_step s0 ?es s" by (rule run_append [OF r2 r1])
  have "calls (Flush_Call (head m) # es2 @ [Flush_Return]) = []" by (simp add: calls(3))
  from no_more_outcomes [OF assms(1) r1 idle r2 this] have rest: "outcomes ?es = outcomes es1" "published ?es = published es1"
    by simp_all
  have roomy: "roomy_inv n es1 m" "roomy_inv n ?es s"
    using assms(1,2) by (intro roomy.inv_run [OF r1] roomy.inv_run [OF run]; simp)+
  then have nodrop: "Dropped \<notin> set (outcomes es1)" using calls(2) by (simp add: roomy_inv_def)
  have inv: "rt_inv es1 m" "rt_inv ?es s" using roomy by (simp_all add: roomy_inv_def)
  then have "Undefined \<notin> set ?es" "Undefined \<notin> set es1" by (auto elim: rt_invD)
  then have match: "list_all2 outcome_matches (calls es1) (outcomes es1)"
    and dropped: "dropped s = of_nat (length (filter (\<lambda>e. e = Dropped) (outcomes es1)))"
    using roomy idle rest(1) by (auto simp: roomy_inv_def account_inv_def split: if_splits)
  have uniform: "if l \<le> k then Filtered \<notin> set (outcomes es1) else list_all ((=) Filtered) (outcomes es1)"
    using uniform.inv_run [OF r1, of l k] rt_start_fields [OF assms(1)] assms(3) quiet(1) calls(1)
    by (auto simp: uniform_inv_def)
  have "length (published es1) \<le> length (calls es1)"
    using published_outcomes [of es1] list_all2_lengthD [OF match] by simp
  also have "\<dots> < 2 ^ 64" using calls(2) assms(2) unat_less_size [of "capacity s0"] by linarith
  finally have small: "length (published es1) < 2 ^ 64" .
  have known: "flush_known (es1 @ Flush_Call (head m) # es2) = head m"
    by (simp add: flush_known_def known_after_other [OF quiet(2)])
  have head: "unat (head m) = length (published es1)" by (rule rt_inv_indices(1) [OF inv(1) small])
  have run': "run rt_step s0 ((es1 @ Flush_Call (head m) # es2) @ [Flush_Return]) s" using run by simp
  have pub: "published (es1 @ Flush_Call (head m) # es2) = published es1" using rest(2) by simp
  with small have small': "length (published (es1 @ Flush_Call (head m) # es2)) < 2 ^ 64" by simp
  from Flush_returned [OF assms(1) run' small'] have
    "length (published es1) \<le> length (delivered ?es)" unfolding known head by simp
  moreover have "delivered ?es = map sink_line (take (length (delivered ?es)) (published ?es))"
    using inv(2) by (rule rt_invD)
  ultimately have del: "delivered ?es = map sink_line (published es1)" using rest(2) by simp
  have "filter (\<lambda>e. e = Dropped) (outcomes es1) = []" by (rule filter_False) (use nodrop in blast)
  then have "dropped s = 0" by (simp add: dropped)
  moreover have "published es1 = []" if "\<not> l \<le> k"
    using uniform that all_filtered [of "outcomes es1"] published_outcomes [of es1] by simp
  moreover have "map snd (map sink_line (published es1)) = map (\<lambda>(l, out). (ToSpdlogLevel l, slot_text kMaxMsgLen out)) (calls es1)"
    if "l \<le> k"
  proof -
    have "map snd (published es1) = map (\<lambda>(l, out). (l, slot_text kMaxMsgLen out)) (calls es1)"
      using all_published [OF match _ nodrop] uniform that published_outcomes [of es1] by simp
    then have "map (\<lambda>(l, t). (ToSpdlogLevel l, t)) (map snd (published es1))
        = map (\<lambda>(l, t). (ToSpdlogLevel l, t)) (map (\<lambda>(l, out). (l, slot_text kMaxMsgLen out)) (calls es1))" by simp
    moreover have "snd (sink_line x) = (\<lambda>(l, t). (ToSpdlogLevel l, t)) (snd x)" for x
      by (simp add: sink_line_def split: prod.splits)
    ultimately show ?thesis by (simp add: case_prod_beta comp_def)
  qed
  ultimately show ?thesis using del by simp
qed

section \<open>The program\<close>

text \<open>The events that the program's own calls make; the others are the drain thread's and inner steps.\<close>

fun from_program :: "rt_event \<Rightarrow> bool" where
  "from_program (Log_Call _ _) \<longleftrightarrow> True"
| "from_program (Flush_Call _) \<longleftrightarrow> True"
| "from_program Flush_Return \<longleftrightarrow> True"
| "from_program (Level_Set _) \<longleftrightarrow> True"
| "from_program Stop \<longleftrightarrow> True"
| "from_program _ \<longleftrightarrow> False"

text \<open>One iteration of the loop: \<open>tau\<close> is \<open>cycle * 0.01\<close>.\<close>

definition loop_calls :: "build \<Rightarrow> ('d pack \<Rightarrow> fmt_outcome) \<Rightarrow> (int \<Rightarrow> 'd) \<Rightarrow> int \<Rightarrow> (LogLevel \<times> fmt_outcome) list" where
  "loop_calls b format_to_n tau cycle = map (\<lambda>(l, args). (l, format_to_n args))
     (XLOG_RT_INFO b (''cycle {} tau={:.3f}'', [Arg_Int cycle, Arg_Double (tau cycle)]))"

text \<open>
  An execution of \<open>main\<close>: the banner; the calls of the loop on a logger for 4096 records, while
  its drain thread runs; \<open>Flush\<close>, called by the thread that has made all calls; the report. The
  events are those of the real-time logger, the results those of the two \<open>XLOG_INFO\<close>.
\<close>

definition rt_logger_example :: "build \<Rightarrow> (spd_level \<Rightarrow> spd_level \<Rightarrow> bool) \<Rightarrow> ('d pack log_args \<Rightarrow> string) \<Rightarrow>
    ('d pack \<Rightarrow> fmt_outcome) \<Rightarrow> (int \<Rightarrow> 'd) \<Rightarrow> string list \<Rightarrow> process \<Rightarrow> rt_event list \<Rightarrow> 'd pack xlog_result list \<Rightarrow> bool" where
  "rt_logger_example b sl fmt format_to_n tau garbage p es rs \<longleftrightarrow> (\<exists>q q' r1 r2 s0 es1 m es2 s.
     xlog_do b sl fmt p (Use_Fmt kInfo (''rt_logger_example: starting a ~10 kHz control-loop demo'', [])) = Some (r1, q)
     \<and> RtLogger (p_env q) 4096 garbage = Some s0
     \<and> run rt_step s0 es1 m \<and> producer m = P_Idle
     \<and> filter from_program es1 = map (\<lambda>(l, out). Log_Call l out) (concat (map (loop_calls b format_to_n tau) [0..1999]))
     \<and> run rt_step m (Flush_Call (head m) # es2 @ [Flush_Return]) s \<and> filter from_program es2 = []
     \<and> xlog_do b sl fmt q (Use_Fmt kInfo (''rt_logger_example: done, {} records dropped (ring-full)'', [Arg_Int (uint (Rt_dropped s))]))
         = Some (r2, q')
     \<and> es = es1 @ Flush_Call (head m) # es2 @ [Flush_Return] \<and> rs = [r1, r2])"

lemma calls_from_program: "filter from_program es = map (\<lambda>(l, out). Log_Call l out) cs \<Longrightarrow>
    calls es = cs \<and> \<not> list_ex sets_level es \<and> \<not> list_ex flush_call_event es"
proof (induction es arbitrary: cs)
  case (Cons e es)
  show ?case
  proof (cases "from_program e")
    case True
    with Cons.prems obtain l out cs' where "cs = (l, out) # cs'" "e = Log_Call l out"
      "filter from_program es = map (\<lambda>(l, out). Log_Call l out) cs'" by (cases cs) auto
    with Cons.IH show ?thesis by auto
  next
    case False
    with Cons show ?thesis by (cases e) auto
  qed
qed simp

lemma ring_size_4096: "ring_size 4096 = Some 4096"
proof -
  from round_up_pow2 [of 0 4096] obtain j where j: "j < 64" "round_up 1 4096 = Some (2 ^ j)" "4096 \<le> (2 :: nat) ^ j"
    "j = 0 \<or> 2 ^ (j - 1) < (4096 :: nat)" by auto
  have "(2 :: nat) ^ 12 \<le> 2 ^ j" using j(3) by simp
  then have "12 \<le> j" by (simp only: power_increasing_iff one_less_numeral_iff semiring_norm)
  moreover from this j(4) have "(2 :: nat) ^ (j - 1) < 2 ^ 12" by simp
  then have "j - 1 < 12" by (simp only: power_strict_increasing_iff one_less_numeral_iff semiring_norm)
  ultimately have "j = 12" by simp
  with j(2) show ?thesis by (simp add: ring_size_def)
qed

lemma XLOG_INFO_env: "xlog_do b sl fmt p (Use_Fmt l args) = Some (r, q) \<Longrightarrow> p_env q = p_env p"
  by (auto simp: observe_site_def fmt_site XLOG_IMPL_def nothing_def GetInstance_def split: option.splits if_splits prod.splits)

lemma loop_calls: "loop_calls b format_to_n tau i = (if compiled b kInfo
    then [(kInfo, format_to_n (''cycle {} tau={:.3f}'', [Arg_Int i, Arg_Double (tau i)]))] else [])"
  by (simp add: loop_calls_def XLOG_RT_INFO_def XLOG_RT_IMPL_def compiled_def)

lemma info_result:
  assumes "\<forall>c l. sl c l \<longleftrightarrow> spd_code c \<le> spd_code l" and "\<forall>s. fmt (Braces s) = s" and "xlog_inv p"
    and "xlog_do b sl fmt p (Use_Fmt kInfo args) = Some (r, q)"
  shows "r = Site (compiled b kInfo) (if compiled b kInfo \<and> xlog_abs p \<le> kInfo then [(spd_info, fmt (Pack args))] else [])
    \<and> xlog_inv q \<and> xlog_abs q = xlog_abs p"
  using xlog_simulation [OF assms(1-3), of b "Use_Fmt kInfo args"] assms(4)
  by (auto simp: Let_def line_if_def ToSpdlogLevel_def)

section \<open>An execution\<close>

lemma log_all:
  assumes "owner s = O_Alive" and "producer s = P_Idle" and "ring_ok s" and "stale_levels s = []" and "tail s = 0"
    and "head s = of_nat j" and "j + length cs \<le> unat (capacity s)" and "\<forall>c \<in> set cs. \<not> fst c < min_level s"
  shows "\<exists>es t. run rt_step s es t \<and> filter from_program es = map (\<lambda>(l, out). Log_Call l out) cs \<and> producer t = P_Idle
    \<and> owner t = O_Alive \<and> running t = running s \<and> flusher t = flusher s"
  using assms
proof (induction cs arbitrary: s j)
  case Nil
  then show ?case by (intro exI [of _ "[]"] exI [of _ s]) (simp add: run_nil)
next
  case (Cons c cs)
  obtain l out where c: "c = (l, out)" by (cases c)
  have "j < 2 ^ 64" using Cons.prems(7) unat_less_size [of "capacity s"] by simp
  then have "unat (of_nat j :: u64) = j" by (rule unat_of_nat_small)
  then have "\<not> capacity s \<le> head s - tail s" using Cons.prems(5-7) by (simp add: word_le_nat_alt)
  from Log_uninterrupted [OF Cons.prems(1,2) _ Cons.prems(3) this Cons.prems(4), of l out 0] Cons.prems(8) c obtain ring' where
    r: "run rt_step s (log_events l out 0) (s\<lparr>producer_view := tail s, ring := ring', producer := P_Idle, head := head s + 1\<rparr>)"
      "ring_ok (s\<lparr>producer_view := tail s, ring := ring', producer := P_Idle, head := head s + 1\<rparr>)" by auto
  from Cons.IH [OF _ _ r(2), of "Suc j"] Cons.prems obtain es t where
    t: "run rt_step (s\<lparr>producer_view := tail s, ring := ring', producer := P_Idle, head := head s + 1\<rparr>) es t"
      "filter from_program es = map (\<lambda>(l, out). Log_Call l out) cs" "producer t = P_Idle" "owner t = O_Alive"
      "running t = running s" "flusher t = flusher s" by (auto simp: add.commute)
  have "filter from_program (log_events l out 0) = [Log_Call l out]" by (simp add: log_events_def numeral_eq_Suc)
  with run_append [OF t(1) r(1)] t(2-) c show ?case by (intro exI [of _ "log_events l out 0 @ es"] exI [of _ t]) simp
qed

lemma drain_not_program: "run drain_alone s es t \<Longrightarrow> filter from_program es = []"
proof (induction rule: run.induct)
  case (run_snoc s es t e u)
  then have "DrainLoop_step (current_load t) t = Some (e, u)" by (simp add: drain_alone_def)
  then have "\<not> from_program e"
    by (auto simp: DrainLoop_step_def read_slot_def emit_slot_def Let_def split: drain_pc.splits if_splits option.splits)
  with run_snoc.IH show ?case by simp
qed simp

lemma rt_logger_example_runs:
  assumes "\<forall>c l. sl c l \<longleftrightarrow> spd_code c \<le> spd_code l" and "\<forall>s. fmt (Braces s) = s" and "p_instance p = None"
    and "compiled b kInfo" and "ResolveLogLevelFromEnv (p_env p) default_log_level \<le> kInfo"
  shows "\<exists>garbage es rs. rt_logger_example b sl fmt format_to_n tau garbage p es rs"
proof -
  let ?calls = "concat (map (loop_calls b format_to_n tau) [0..1999])"
  let ?banner = "Use_Fmt kInfo (''rt_logger_example: starting a ~10 kHz control-loop demo'', [])"
  let ?report = "\<lambda>n. Use_Fmt kInfo (''rt_logger_example: done, {} records dropped (ring-full)'', [Arg_Int n])"
  from xlog_simulation [OF assms(1,2) xlog_fresh(1) [OF assms(3)], of b ?banner] obtain r1 q where
    x1: "xlog_do b sl fmt p ?banner = Some (r1, q)" "xlog_inv q" by blast
  have x2: "\<exists>r2 q'. xlog_do b sl fmt q (?report n) = Some (r2, q')" for n
    using xlog_simulation [OF assms(1,2) x1(2), of b "?report n"] by blast
  let ?garbage = "replicate 4096 (replicate 256 CHR ''.'')"
  obtain s0 where s0: "RtLogger (p_env q) 4096 ?garbage = Some s0" "min_level s0 \<le> kInfo" "unat (capacity s0) = 4096"
    using assms(5) XLOG_INFO_env [OF x1(1)] by (simp add: RtLogger_def ring_size_4096 kMaxMsgLen_def list_all_iff)
  then have start: "rt_start s0" by (auto simp: rt_start_def)
  note f = rt_start_fields [OF start]
  have ring: "ring_ok s0" using rt_inv_start [OF start] by (auto elim: rt_invD simp: rt_inv_at_def)
  have calls: "\<forall>c \<in> set ?calls. fst c = kInfo" "length ?calls = 2000"
  proof -
    have e: "loop_calls b format_to_n tau
        = (\<lambda>i. [(kInfo, format_to_n (''cycle {} tau={:.3f}'', [Arg_Int i, Arg_Double (tau i)]))])"
      using assms(4) by (simp add: fun_eq_iff loop_calls)
    show "\<forall>c \<in> set ?calls. fst c = kInfo" "length ?calls = 2000"
      by (simp_all add: e concat_map_singleton del: upto_rec_numeral)
  qed
  have "\<forall>c \<in> set ?calls. \<not> fst c < min_level s0" using calls(1) s0(2) by (simp add: not_less)
  from log_all [of s0 0 ?calls, OF _ _ ring _ _ _ _ this] f calls(2) s0(3) obtain es1 m1 where
    m1: "run rt_step s0 es1 m1" "filter from_program es1 = map (\<lambda>(l, out). Log_Call l out) ?calls" "producer m1 = P_Idle"
      "owner m1 = O_Alive" "running m1" "flusher m1 = F_Idle" by auto
  have inv: "rt_inv es1 m1" by (rule rt.inv_run [OF m1(1) start])
  from drain_alone_finishes [OF inv disjI1 [OF m1(5)]] obtain fs m where
    m: "run drain_alone m1 fs m" "unread (es1 @ fs) m = 0" by blast
  note fr = drain_alone_frame [OF m(1)]
  have r1: "run rt_step s0 (es1 @ fs) m" by (rule run_append [OF drain_alone_run [OF m(1)] m1(1)])
  let ?s1 = "m\<lparr>flusher := F_Tail, flush_head_view := head m, flush_tail_view := 0\<rparr>"
  let ?s2 = "?s1\<lparr>flush_tail_view := tail m, flusher := F_Head (tail m)\<rparr>"
  let ?s3 = "?s2\<lparr>flush_head_view := head m, flusher := F_Sink (head m)\<rparr>"
  have inv': "rt_inv (es1 @ fs) m" by (rule rt.inv_run [OF r1 start])
  have "length (published (es1 @ fs)) \<le> length (calls (es1 @ fs))"
  proof -
    have "Undefined \<notin> set (es1 @ fs)" using inv' by (rule rt_invD)
    then have "length (outcomes (es1 @ fs)) \<le> length (calls (es1 @ fs))"
      using rt_account.inv_run [OF r1 start] fr m1(3) by (auto simp: account_inv_def dest: list_all2_lengthD)
    with published_outcomes [of "es1 @ fs"] show ?thesis by simp
  qed
  moreover have "calls fs = []" using calls_from_program [of fs "[]"] drain_not_program [OF m(1)] by simp
  ultimately have small: "length (published (es1 @ fs)) < 2 ^ 64" using calls_from_program [OF m1(2)] calls(2) by simp
  note ix = rt_inv_indices [OF inv' small]
  have "unat (tail m) = unat (head m)"
    using ix m(2) by (simp add: unread_def word_le_nat_alt)
  then have th: "tail m = head m" by (simp add: word_unat_eq_iff)
  have "rt_step m (Flush_Call (head m)) ?s1" by (rule flush_call) (simp_all add: fr m1)
  moreover have "rt_step ?s1 Flush_Step ?s2" by (rule flush [of "tail m"]) (simp add: Flush_step_def may_load_def)
  moreover have "rt_step ?s2 Flush_Step ?s3" by (rule flush [of "head m"]) (simp add: Flush_step_def may_load_def th)
  moreover have "rt_step ?s3 Flush_Return (?s3\<lparr>flusher := F_Idle\<rparr>)" by (rule flush [of 0]) (simp add: Flush_step_def)
  ultimately have r2: "run rt_step m (Flush_Call (head m) # [Flush_Step, Flush_Step] @ [Flush_Return]) (?s3\<lparr>flusher := F_Idle\<rparr>)"
    by (auto intro!: run_cons [where step = rt_step] run_nil)
  have p1: "producer m = P_Idle" using fr m1(3) by simp
  have p2: "filter from_program (es1 @ fs) = map (\<lambda>(l, out). Log_Call l out) ?calls"
    using m1(2) drain_not_program [OF m(1)] by simp
  from x2 obtain r2' q' where x3: "xlog_do b sl fmt q (?report (uint (Rt_dropped (?s3\<lparr>flusher := F_Idle\<rparr>)))) = Some (r2', q')" by blast
  show ?thesis
    unfolding rt_logger_example_def
    by (intro exI conjI) (rule x1(1), rule s0(1), rule r1, rule p1, rule p2, rule r2, simp, rule x3, rule refl, rule refl)
qed

section \<open>Properties\<close>

text \<open>C18. The control-loop example loses nothing: in every execution, however the drain thread is
  scheduled and whatever its loads return, when information messages are enabled the sink has
  been handed all 2000 lines, each once and in the order of the cycles, by the time \<open>Flush\<close>
  returns, the report says that 0 records were dropped, and the two messages around the loop are
  written; when they are not, nothing is logged at all.\<close>

theorem rt_logger_example_loses_nothing:
  assumes "\<forall>c l. sl c l \<longleftrightarrow> spd_code c \<le> spd_code l" and "\<forall>s. fmt (Braces s) = s" and "p_instance p = None"
    and "rt_logger_example b sl fmt format_to_n tau garbage p es rs"
    and "ResolveLogLevelFromEnv (p_env p) default_log_level = l"
  shows "if compiled b kInfo \<and> l \<le> kInfo
    then map snd (delivered es) = map (\<lambda>i. (spd_info, slot_text kMaxMsgLen
          (format_to_n (''cycle {} tau={:.3f}'', [Arg_Int i, Arg_Double (tau i)])))) [0..1999]
      \<and> rs = [Site True [(spd_info, fmt (Pack (''rt_logger_example: starting a ~10 kHz control-loop demo'', [])))],
              Site True [(spd_info, fmt (Pack (''rt_logger_example: done, {} records dropped (ring-full)'', [Arg_Int 0])))]]
    else delivered es = [] \<and> rs = replicate 2 (Site (compiled b kInfo) [])"
proof -
  let ?calls = "concat (map (loop_calls b format_to_n tau) [0..1999])"
  let ?call = "\<lambda>i. (kInfo, format_to_n (''cycle {} tau={:.3f}'', [Arg_Int i, Arg_Double (tau i)]))"
  from assms(4) obtain q q' r1 r2 s0 es1 m es2 s where
    x1: "xlog_do b sl fmt p (Use_Fmt kInfo (''rt_logger_example: starting a ~10 kHz control-loop demo'', [])) = Some (r1, q)"
    and new: "RtLogger (p_env q) 4096 garbage = Some s0"
    and r: "run rt_step s0 es1 m" "producer m = P_Idle" "run rt_step m (Flush_Call (head m) # es2 @ [Flush_Return]) s"
    and prog: "filter from_program es1 = map (\<lambda>(l, out). Log_Call l out) ?calls" "filter from_program es2 = []"
    and x2: "xlog_do b sl fmt q (Use_Fmt kInfo (''rt_logger_example: done, {} records dropped (ring-full)'',
        [Arg_Int (uint (Rt_dropped s))])) = Some (r2, q')"
    and es: "es = es1 @ Flush_Call (head m) # es2 @ [Flush_Return]" and rs: "rs = [r1, r2]"
    unfolding rt_logger_example_def by blast
  note fresh = xlog_fresh [OF assms(3)]
  note i1 = info_result [OF assms(1,2) fresh(1) x1]
  have q: "xlog_abs q = l" using i1 fresh(2) assms(5) by simp
  have "xlog_inv q" using i1 by blast
  note i2 = info_result [OF assms(1,2) this x2]
  note c1 = calls_from_program [OF prog(1)] and c2 = calls_from_program [of es2 "[]"]
  have calls: "?calls = (if compiled b kInfo then map ?call [0..1999] else [])"
  proof -
    have "loop_calls b format_to_n tau = (\<lambda>i. if compiled b kInfo then [?call i] else [])" by (simp add: fun_eq_iff loop_calls)
    then show ?thesis by (cases "compiled b kInfo") (simp_all add: concat_map_singleton del: upto_rec_numeral)
  qed
  have start: "rt_start s0" using new by (auto simp: rt_start_def)
  have cap: "unat (capacity s0) = 4096" and vis: "visible_levels s0 = [l]"
    using new assms(5) XLOG_INFO_env [OF x1]
    by (auto simp: RtLogger_def ring_size_4096 visible_levels_def split: if_splits)
  have "\<forall>c \<in> set (calls es1). fst c = kInfo" "length (calls es1) \<le> 4096" "calls es2 = []" "\<not> list_ex sets_level es1"
    "\<not> list_ex flush_call_event es2"
    using c1 c2 prog(2) calls by auto
  from log_then_flush [OF start cap vis r this] have
    d: "dropped s = 0" "if l \<le> kInfo then map snd (delivered es)
      = map (\<lambda>(l, out). (ToSpdlogLevel l, slot_text kMaxMsgLen out)) ?calls else delivered es = []"
    unfolding es using c1 by auto
  show ?thesis
  proof (cases "compiled b kInfo \<and> l \<le> kInfo")
    case True
    have "map (\<lambda>(l, out). (ToSpdlogLevel l, slot_text kMaxMsgLen out)) (map ?call [0..1999])
      = map (\<lambda>i. (spd_info, slot_text kMaxMsgLen (snd (?call i)))) [0..1999]"
      by (simp add: ToSpdlogLevel_def del: upto_rec_numeral)
    with True d calls i1 i2 q rs fresh(2) assms(5) show ?thesis by (simp del: upto_rec_numeral)
  next
    case False
    then have "delivered es = []" using d(2) calls by (auto split: if_splits)
    with False i1 i2 q rs fresh(2) assms(5) show ?thesis by (auto simp: numeral_2_eq_2)
  qed
qed

theorem rt_logger_example_loses_nothing_witness:
  "\<exists>garbage es rs. rt_logger_example \<lparr>enable_logging = True, active_level = 0\<rparr> (\<lambda>c l. spd_code c \<le> spd_code l)
       (\<lambda>args. case args of Pack (t, as) \<Rightarrow> t | Braces t \<Rightarrow> t) (\<lambda>(t, as). Formatted t) (\<lambda>i. nat i) garbage
       (demo_process\<lparr>p_env := (\<lambda>_. None)\<rparr>) es rs
     \<and> map snd (delivered es) = replicate 2000 (spd_info, ''cycle {} tau={:.3f}'')"
proof -
  let ?b = "\<lparr>enable_logging = True, active_level = 0\<rparr>" and ?sl = "\<lambda>c l. spd_code c \<le> spd_code l"
    and ?fmt = "\<lambda>args. case args of Pack (t, as :: nat log_arg list) \<Rightarrow> t | Braces t \<Rightarrow> t"
    and ?n = "\<lambda>(t, as :: nat log_arg list). Formatted t" and ?p = "demo_process\<lparr>p_env := (\<lambda>_. None)\<rparr>"
  have law: "\<forall>c l. ?sl c l \<longleftrightarrow> spd_code c \<le> spd_code l" "\<forall>s. ?fmt (Braces s) = s" "p_instance ?p = None"
    by (simp_all add: demo_process_def)
  have l: "ResolveLogLevelFromEnv (p_env ?p) default_log_level = kInfo" by code_simp
  have c: "compiled ?b kInfo" by (simp add: compiled_def)
  from rt_logger_example_runs [OF law c, of ?n nat] l obtain garbage es rs where
    ex: "rt_logger_example ?b ?sl ?fmt ?n nat garbage ?p es rs" by auto
  have "slot_text kMaxMsgLen (Formatted ''cycle {} tau={:.3f}'') = ''cycle {} tau={:.3f}''" by code_simp
  with rt_logger_example_loses_nothing [OF law ex l] c have
    "map snd (delivered es) = map (\<lambda>i. (spd_info, ''cycle {} tau={:.3f}'')) [0..1999]" by simp
  then have "map snd (delivered es) = replicate 2000 (spd_info, ''cycle {} tau={:.3f}'')"
    by (simp add: map_replicate_const del: upto_rec_numeral)
  with ex show ?thesis by blast
qed

end
