(* ===== verification/Mpsc_Example.thy ===== *)
theory Mpsc_Example
  imports Rt_Examples Mpsc_Progress
begin

text \<open>
  The program \<open>examples/mpsc_rt_logger_example.cpp\<close>: three control loops on threads of their own
  share one multi-producer logger; \<open>main\<close> joins them, flushes the logger and reports how many
  records were dropped. The texts of the format strings are a parameter.
\<close>

section \<open>Calls of one level\<close>

fun m_sets_level :: "mpsc_event \<Rightarrow> bool" where
  "m_sets_level (M_Level_Set _) \<longleftrightarrow> True"
| "m_sets_level _ \<longleftrightarrow> False"

text \<open>While nobody sets the level \<open>l\<close>, calls of level \<open>k\<close> are all filtered or none is.\<close>

definition m_waiting :: "LogLevel \<Rightarrow> mp_pc \<Rightarrow> bool" where
  "m_waiting k pc \<longleftrightarrow> pc = M_Idle \<or> (\<exists>out. pc = M_Filter k out)"

fun m_filters :: "mpsc_event \<Rightarrow> bool" where
  "m_filters (M_Filtered _) \<longleftrightarrow> True"
| "m_filters _ \<longleftrightarrow> False"

definition m_level_inv :: "LogLevel \<Rightarrow> LogLevel \<Rightarrow> mpsc_event list \<Rightarrow> mpsc_logger \<Rightarrow> bool" where
  "m_level_inv l k es s \<longleftrightarrow> list_ex m_sets_level es \<or> (\<exists>p. \<exists>c \<in> set (m_calls p es). fst c \<noteq> k) \<or>
     (set (m_visible_levels s) = {l} \<and> (\<forall>p level out. producers s p = M_Filter level out \<longrightarrow> level = k)
      \<and> (l \<le> k \<longrightarrow> \<not> list_ex m_filters es)
      \<and> (k < l \<longrightarrow> claims es = [] \<and> \<not> list_ex m_is_drop es \<and> (\<forall>p. m_waiting k (producers s p))))"

lemma Mpsc_Log_step_quiet:
  assumes "Mpsc_Log_step p v ok now s = Some (e, t)"
  shows "\<not> m_sets_level e \<and> m_visible_levels t = m_visible_levels s \<and> length (cells t) = length (cells s)
    \<and> cell_mask t = cell_mask s \<and> (\<forall>q. q \<noteq> p \<longrightarrow> producers t q = producers s q)
    \<and> (\<forall>level out. producers t p \<noteq> M_Filter level out)"
  using assms
  by (cases "producers s p")
    (auto simp: Mpsc_Log_step_def with_cell_def format_cell_def set_cell_def m_visible_levels_def arr_set_def set_pc_def
      split: if_splits option.splits prod.splits)

lemma Mpsc_DrainLoop_step_quiet:
  assumes "Mpsc_DrainLoop_step v s = Some (e, t)"
  shows "\<not> m_sets_level e \<and> \<not> m_filters e \<and> m_visible_levels t = m_visible_levels s \<and> length (cells t) = length (cells s)
    \<and> cell_mask t = cell_mask s"
  using assms
  by (cases "m_drain s")
    (auto simp: Mpsc_DrainLoop_step_def read_cell_def emit_cell_def set_cell_def m_visible_levels_def arr_set_def
      split: if_splits option.splits)

lemma Mpsc_Flush_step_quiet:
  assumes "Mpsc_Flush_step v s = Some (e, t)"
  shows "\<not> m_sets_level e \<and> \<not> m_filters e \<and> m_visible_levels t = m_visible_levels s \<and> cells t = cells s \<and> cell_mask t = cell_mask s"
  using assms by (cases "m_flusher s") (auto simp: Mpsc_Flush_step_def m_visible_levels_def split: if_splits)

lemma m_level_inv_log:
  assumes inv: "m_level_inv l k es s" and log: "Mpsc_Log_step p v ok now s = Some (e, t)"
  shows "m_level_inv l k (es @ [e]) t"
proof -
  note q = Mpsc_Log_step_quiet [OF log] and c = Mpsc_Log_step_calls [OF log]
  show ?thesis
  proof (cases "list_ex m_sets_level es \<or> (\<exists>p. \<exists>c \<in> set (m_calls p es). fst c \<noteq> k)")
    case True
    then show ?thesis by (auto simp: m_level_inv_def)
  next
    case False
    with inv have i: "set (m_visible_levels s) = {l}" "\<forall>p level out. producers s p = M_Filter level out \<longrightarrow> level = k"
      "l \<le> k \<longrightarrow> \<not> list_ex m_filters es" "k < l \<longrightarrow> claims es = [] \<and> \<not> list_ex m_is_drop es \<and> (\<forall>p. m_waiting k (producers s p))"
      by (auto simp: m_level_inv_def)
    have e: "(l \<le> k \<longrightarrow> \<not> m_filters e) \<and> (k < l \<longrightarrow> claim_of e = [] \<and> \<not> m_is_drop e \<and> m_waiting k (producers t p))"
    proof (cases "producers s p")
      case (M_Filter level out)
      with log have "unat v < length (m_visible_levels s)" by (auto simp: Mpsc_Log_step_def split: if_splits)
      then have "m_visible_levels s ! unat v = l" using i(1) nth_mem by blast
      moreover have "level = k" using i(2) M_Filter by blast
      ultimately show ?thesis using log M_Filter
        by (auto simp: Mpsc_Log_step_def m_waiting_def set_pc_def split: if_splits)
    qed (use log i(4) in \<open>auto simp: Mpsc_Log_step_def with_cell_def format_cell_def m_waiting_def
        split: if_splits option.splits prod.splits dest!: spec [of _ p]\<close>)
    have "\<forall>q level out. producers t q = M_Filter level out \<longrightarrow> level = k" using q i(2) by metis
    moreover have "k < l \<longrightarrow> (\<forall>q. m_waiting k (producers t q))" using q i(4) e by metis
    ultimately show ?thesis using q i e by (simp add: m_level_inv_def)
  qed
qed

lemma m_level_inv_frame:
  assumes "m_level_inv l k es s" and "\<not> m_sets_level e" "\<not> m_filters e" "claim_of e = []" "\<not> m_is_drop e"
    and "\<And>p. m_call_of p e = []" and "producers t = producers s" "m_visible_levels t = m_visible_levels s"
  shows "m_level_inv l k (es @ [e]) t"
  using assms by (simp add: m_level_inv_def)

lemma m_level_inv_step: "m_level_inv l k es s \<Longrightarrow> mpsc_step s e t \<Longrightarrow> m_level_inv l k (es @ [e]) t"
proof -
  assume inv: "m_level_inv l k es s" and "mpsc_step s e t"
  from this(2) show ?thesis
  proof cases
    case (m_log p v ok now)
    with inv show ?thesis by (blast intro: m_level_inv_log)
  next
    case (m_drain v)
    from Mpsc_DrainLoop_step_frame [OF this] Mpsc_DrainLoop_step_quiet [OF this] show ?thesis
      by (intro m_level_inv_frame [OF inv]) simp_all
  next
    case (m_flush v)
    from Mpsc_Flush_step_frame [OF this] Mpsc_Flush_step_quiet [OF this] show ?thesis
      by (intro m_level_inv_frame [OF inv]) simp_all
  next
    case (m_call q level out)
    show ?thesis
    proof (cases "level = k")
      case True
      with inv m_call show ?thesis
        by (auto simp: m_level_inv_def m_visible_levels_def set_pc_def m_waiting_def)
    next
      case False
      with m_call have "(level, out) \<in> set (m_calls q (es @ [e]))" "fst (level, out) \<noteq> k" by simp_all
      then show ?thesis unfolding m_level_inv_def by blast
    qed
  next
    case (m_set_level level)
    then show ?thesis by (simp add: m_level_inv_def)
  qed (rule m_level_inv_frame [OF inv]; simp add: m_visible_levels_def)+
qed

interpretation m_level: trace_invariant mpsc_step "\<lambda>s. (\<forall>p. producers s p = M_Idle) \<and> m_visible_levels s = [l]" "m_level_inv l k" for l k
proof
  show "(\<forall>p. producers s p = M_Idle) \<and> m_visible_levels s = [l] \<Longrightarrow> m_level_inv l k [] s" for s
    by (simp add: m_level_inv_def m_waiting_def)
qed (rule m_level_inv_step)

section \<open>Calls that all fit into the ring\<close>

text \<open>The claims of the producers below \<open>N\<close>, counted by producer.\<close>

lemma length_by_producer:
  "\<forall>c \<in> set cs. fst c < N \<Longrightarrow> length cs = (\<Sum>p<N. length (filter (\<lambda>c. fst c = p) cs))" for N :: nat
proof (induction cs)
  case (Cons c cs)
  have "(\<Sum>p<N. length (filter (\<lambda>c. fst c = p) (c # cs)))
    = (\<Sum>p<N. (if fst c = p then 1 else 0) + length (filter (\<lambda>c. fst c = p) cs))" by (rule sum.cong) simp_all
  also have "\<dots> = 1 + (\<Sum>p<N. length (filter (\<lambda>c. fst c = p) cs))" using Cons.prems by (simp add: sum.distrib)
  finally show ?case using Cons by simp
qed simp

lemma m_lines_outcomes: "length (m_lines (m_outcomes p es)) \<le> length (m_outcomes p es)"
proof (induction es)
  case (Cons e es)
  then show ?case by (cases e) (auto simp: m_lines_def)
qed simp

lemma claims_by_calls:
  assumes "m_account p es s"
  shows "length (claims_by p es) \<le> length (m_calls p es)"
    and "producers s p \<noteq> M_Idle \<Longrightarrow> owned (producers s p) = None \<Longrightarrow> length (claims_by p es) < length (m_calls p es)"
proof -
  have pend: "length (m_pending pc) \<le> 1" "owned pc = None \<Longrightarrow> m_pending pc = []" for pc
    by (cases pc; simp add: m_pc_simps)+
  note a = assms[unfolded m_account_def]
  have outs: "if producers s p = M_Idle then length (m_outcomes p es) = length (m_calls p es)
    else Suc (length (m_outcomes p es)) = length (m_calls p es)"
    using a by (cases "producers s p = M_Idle") (fastforce dest: list_all2_lengthD)+
  show "length (claims_by p es) \<le> length (m_calls p es)"
    using a outs m_lines_outcomes [of p es] pend(1) [of "producers s p"] pend(2) [of "producers s p"]
    by (auto simp: owned_def split: if_splits)
  show "length (claims_by p es) < length (m_calls p es)" if "producers s p \<noteq> M_Idle" "owned (producers s p) = None"
    using a outs m_lines_outcomes [of p es] pend(2) that by simp
qed

lemma called_by_claims:
  assumes "\<And>p. m_account p es s" and "list_all (called_by N) es"
  shows "length (claims es) = (\<Sum>p<N. length (claims_by p es))"
proof -
  have "fst c < N" if "c \<in> set (claims es)" for c
  proof (rule ccontr)
    assume "\<not> fst c < N"
    then have "m_calls (fst c) es = []" using called_by_none [OF assms(2)] by simp
    then have "claims_by (fst c) es = []" using claims_by_calls(1) [OF assms(1)] by (metis le_zero_eq length_0_conv)
    with that show False by (auto simp: claims_by_def filter_empty_conv)
  qed
  then show ?thesis using length_by_producer [of "claims es" N] by (simp add: claims_by_def)
qed

text \<open>A call that has not claimed a cell yet finds one, when the ring has room for all calls.\<close>

lemma claims_below:
  assumes "\<And>p. m_account p es s" and "list_all (called_by N) es"
    and "producers s p \<noteq> M_Idle" "owned (producers s p) = None"
  shows "length (claims es) < (\<Sum>p<N. length (m_calls p es))"
proof -
  have p: "p < N" using claims_by_calls(2) [OF assms(1,3,4)] called_by_none [OF assms(2), of p] by (cases "p < N") auto
  have "(\<Sum>p<N. length (claims_by p es)) < (\<Sum>p<N. length (m_calls p es))"
    by (rule sum_strict_mono_ex1)
      (use claims_by_calls(1) [OF assms(1)] claims_by_calls(2) [OF assms(1,3,4)] p in auto)
  then show ?thesis using called_by_claims [OF assms(1,2)] by simp
qed

lemma seq_not_dropped:
  assumes inv: "mpsc_inv es s" and small: "length (claims es) < 2 ^ 62" and room: "length (claims es) < length (cells s)"
    and step: "Mpsc_Log_step p v ok now s = Some (e, t)" and pc: "producers s p = M_Seq level out pos"
  shows "e = M_Step p \<and> producers t p \<noteq> M_Drop"
proof -
  note at = mpsc_invD(1) [OF inv small]
  note ok = mpsc_atD(1) [OF at]
  have pos: "unat pos \<le> length (claims es)" using mpsc_atD(5) [OF at, of p] pc by (simp add: mp_ok_def)
  then have "unat (pos AND cell_mask s) = unat pos" using cell_index [OF ok, of pos] room by simp
  then have same: "pos AND cell_mask s = pos" by (simp add: word_unat_eq_iff)
  from step pc have v: "pos \<le> v" "v \<le> sequence (cell_at (cells s) (unat pos))"
    and r: "(e, t) = (case signed_diff v pos of None \<Rightarrow> (M_Undefined, s)
      | Some diff \<Rightarrow> (M_Step p, set_pc p (if diff = 0 then M_Cas level out pos else if diff < 0 then M_Drop
          else M_Load level out) s))"
    by (auto simp: Mpsc_Log_step_def cell_of_pos [OF ok] same split: if_splits)
  have "unat pos < 2 ^ 63" using pos small by (rule le_less_trans [OF _ less_trans]) simp
  moreover have "unat v < 2 ^ 63"
    using seq_bound [OF mpsc_atD(2,3) [OF at] ok small, of "unat pos"] v(2) by (simp add: word_le_nat_alt)
  ultimately obtain d where "signed_diff v pos = Some d" "d < 0 \<longleftrightarrow> unat v < unat pos" using signed_diff_zero by blast
  with r v(1) show ?thesis by (auto simp: word_le_nat_alt)
qed

definition m_roomy_inv :: "nat \<Rightarrow> nat \<Rightarrow> mpsc_event list \<Rightarrow> mpsc_logger \<Rightarrow> bool" where
  "m_roomy_inv N n es s \<longleftrightarrow> mpsc_inv es s \<and> (\<forall>p. m_account p es s) \<and> length (cells s) = n \<and> n < 2 ^ 62
     \<and> (list_all (called_by N) es \<and> (\<Sum>p<N. length (m_calls p es)) \<le> n
        \<longrightarrow> \<not> list_ex m_is_drop es \<and> (\<forall>p. producers s p \<noteq> M_Drop))"

lemma m_roomy_log:
  assumes inv: "m_roomy_inv N n es s" and log: "Mpsc_Log_step p v ok now s = Some (e, t)"
    and few: "list_all (called_by N) es" "(\<Sum>p<N. length (m_calls p es)) \<le> n"
  shows "\<not> m_is_drop e \<and> (\<forall>q. producers t q \<noteq> M_Drop)"
proof -
  from inv have i: "mpsc_inv es s" "\<And>p. m_account p es s" "length (cells s) = n" "n < 2 ^ 62"
    and nodrop: "\<And>q. producers s q \<noteq> M_Drop" using few by (simp_all add: m_roomy_inv_def)
  have "\<not> m_is_drop e \<and> producers t p \<noteq> M_Drop"
  proof (cases "producers s p")
    case (M_Seq level out pos)
    then have "length (claims es) < n" using claims_below [OF i(2) few(1), of p] few(2) by (simp add: owned_def)
    with seq_not_dropped [OF i(1) _ _ log M_Seq] i(3,4) show ?thesis by auto
  qed (use log nodrop in \<open>auto simp: Mpsc_Log_step_def with_cell_def format_cell_def
      split: if_splits option.splits prod.splits\<close>)
  with Mpsc_Log_step_quiet [OF log] nodrop show ?thesis by metis
qed

lemma m_roomy_inv_step: "m_roomy_inv N n es s \<Longrightarrow> mpsc_step s e t \<Longrightarrow> m_roomy_inv N n (es @ [e]) t"
proof -
  assume inv: "m_roomy_inv N n es s" and step: "mpsc_step s e t"
  then have i: "mpsc_inv es s" "\<And>p. m_account p es s" "length (cells s) = n" "n < 2 ^ 62"
    and d: "list_all (called_by N) es \<and> (\<Sum>p<N. length (m_calls p es)) \<le> n
      \<longrightarrow> \<not> list_ex m_is_drop es \<and> (\<forall>p. producers s p \<noteq> M_Drop)" by (simp_all add: m_roomy_inv_def)
  have more: "(\<Sum>p<N. length (m_calls p es)) \<le> (\<Sum>p<N. length (m_calls p (es @ [e])))"
    by (rule sum_mono) simp
  have "length (cells t) = length (cells s) \<and> (list_all (called_by N) (es @ [e]) \<and> (\<Sum>p<N. length (m_calls p (es @ [e]))) \<le> n
      \<longrightarrow> \<not> m_is_drop e \<and> (\<forall>p. producers t p \<noteq> M_Drop))"
    using step
  proof cases
    case (m_log p v ok now)
    with m_roomy_log [OF inv this] Mpsc_Log_step_quiet [OF this] more show ?thesis by simp
  next
    case (m_drain v)
    from Mpsc_DrainLoop_step_frame [OF this] Mpsc_DrainLoop_step_quiet [OF this] d more show ?thesis by simp
  next
    case (m_flush v)
    from Mpsc_Flush_step_frame [OF this] Mpsc_Flush_step_quiet [OF this] d more show ?thesis by simp
  qed (use d more in \<open>auto simp: Mpsc_SetLevel_def\<close>)
  with mpsc_inv_step [OF i(1) step] m_account_step [OF i(2) step] i(3,4) d more show ?thesis
    by (simp add: m_roomy_inv_def)
qed

interpretation m_roomy: trace_invariant mpsc_step "\<lambda>s. mpsc_start s \<and> length (cells s) = n \<and> n < 2 ^ 62" "m_roomy_inv N n" for N n
proof
  show "mpsc_start s \<and> length (cells s) = n \<and> n < 2 ^ 62 \<Longrightarrow> m_roomy_inv N n [] s" for s
    using mpsc.inv_run [OF run_nil, of s] mpsc_account.inv_run [OF run_nil, of s] mpsc_start_fields [of s]
    by (simp add: m_roomy_inv_def)
qed (rule m_roomy_inv_step)

section \<open>The records of each producer, interleaved\<close>

lemma map_in_shuffles: "zs \<in> shuffles xs ys \<Longrightarrow> map f zs \<in> shuffles (map f xs) (map f ys)"
  by (induction xs ys arbitrary: zs rule: shuffles.induct) (auto intro: Cons_in_shuffles_leftI Cons_in_shuffles_rightI)

lemma map_in_interleavings: "zs \<in> interleavings xss \<Longrightarrow> map f zs \<in> interleavings (map (map f) xss)"
  by (induction xss arbitrary: zs) (auto intro: map_in_shuffles)

lemma interleaved_by:
  "distinct ps \<Longrightarrow> \<forall>c \<in> set cs. fst c \<in> set ps \<Longrightarrow> cs \<in> interleavings (map (\<lambda>p. filter (\<lambda>c. fst c = p) cs) ps)"
proof (induction ps arbitrary: cs)
  case (Cons p ps)
  let ?others = "filter (\<lambda>c. fst c \<noteq> p) cs"
  have i: "?others \<in> interleavings (map (\<lambda>q. filter (\<lambda>c. fst c = q) ?others) ps)"
    using Cons.prems by (intro Cons.IH) auto
  have "map (\<lambda>q. filter (\<lambda>c. fst c = q) ?others) ps = map (\<lambda>q. filter (\<lambda>c. fst c = q) cs) ps"
    using Cons.prems(1) by (auto intro: filter_cong)
  from i [unfolded this] partition_in_shuffles [of cs "\<lambda>c. fst c = p"] show ?case by auto
next
  case Nil
  then show ?case by (cases cs) auto
qed

lemma m_all_published:
  assumes "list_all2 m_outcome_matches cs os" and "\<not> list_ex m_filters os" and "\<not> list_ex m_is_drop os"
  shows "m_lines os = map (\<lambda>(l, out). (l, slot_text kMaxMsgLen out)) cs"
  using assms
proof (induction rule: list_all2_induct)
  case (Cons c cs e os)
  then obtain p pos time where "e = M_Published p pos time (fst c) (slot_text kMaxMsgLen (snd c))"
    by (auto simp: m_outcome_matches_def)
  with Cons show ?case by (simp add: case_prod_beta)
qed simp

lemma m_outcomes_free:
  "\<not> list_ex m_filters es \<Longrightarrow> \<not> list_ex m_filters (m_outcomes p es)"
  "\<not> list_ex m_is_drop es \<Longrightarrow> \<not> list_ex m_is_drop (m_outcomes p es)"
proof (induction es)
  case (Cons e es)
  {
    case 1
    with Cons show ?case by (cases e) auto
  next
    case 2
    with Cons show ?case by (cases e) auto
  }
qed simp_all

section \<open>Log from all threads, then flush\<close>

fun m_flush_call_event :: "mpsc_event \<Rightarrow> bool" where
  "m_flush_call_event (M_Flush_Call _) \<longleftrightarrow> True"
| "m_flush_call_event _ \<longleftrightarrow> False"

lemma m_known_after_other: "\<not> list_ex m_flush_call_event es \<Longrightarrow> foldl m_known_after v es = v"
proof (induction es arbitrary: v)
  case (Cons e es)
  then show ?case by (cases e) auto
qed simp

lemma called_by_calls: "(\<And>p. N \<le> p \<Longrightarrow> m_calls p es = []) \<Longrightarrow> list_all (called_by N) es"
proof (induction es)
  case (Cons e es)
  then have "N \<le> p \<Longrightarrow> m_call_of p e = []" "N \<le> p \<Longrightarrow> m_calls p es = []" for p by simp_all
  note c = this
  show ?case
  proof (cases e)
    case (M_Call q l out)
    with c(1) [of q] Cons.IH c(2) show ?thesis by (cases "N \<le> q") auto
  qed (use Cons.IH c(2) in auto)
qed simp

text \<open>When no producer is in a call and none calls any more, nothing more is claimed.\<close>

lemma no_more_claims:
  assumes "mpsc_start s0" and r1: "run mpsc_step s0 es1 m" and idle: "\<And>p. producers m p = M_Idle"
    and r2: "run mpsc_step m es2 s" and none: "\<And>p. m_calls p es2 = []"
  shows "claims es2 = []"
proof -
  have run: "run mpsc_step s0 (es1 @ es2) s" by (rule run_append [OF r2 r1])
  have "claims_by p es2 = []" for p
  proof -
    have a1: "list_all2 m_outcome_matches (m_calls p es1) (m_outcomes p es1)" "claims_by p es1 = m_lines (m_outcomes p es1)"
      using mpsc_account.inv_run [OF r1 assms(1), of p] idle [of p] by (simp_all add: m_account_def m_pc_simps)
    note a2 = mpsc_account.inv_run [OF run assms(1), of p, unfolded m_account_def]
    have "m_pending (producers s p) = [] \<and> m_outcomes p es2 = []"
    proof (cases "producers s p = M_Idle")
      case True
      with a2 list_all2_lengthD [OF a1(1)] none [of p] show ?thesis
        by (auto simp: m_pc_simps dest!: list_all2_lengthD)
    next
      case False
      with a2 obtain cs c where "m_calls p es1 = cs @ [c]" "list_all2 m_outcome_matches cs (m_outcomes p es1 @ m_outcomes p es2)"
        using none [of p] by auto
      with list_all2_lengthD [OF a1(1)] show ?thesis by (auto dest!: list_all2_lengthD)
    qed
    with a1(2) a2 show ?thesis by simp
  qed
  then have "c \<notin> set (claims es2)" for c by (force simp: claims_by_def filter_empty_conv)
  then show ?thesis by (cases "claims es2") auto
qed

lemma m_log_then_flush:
  assumes "mpsc_start s0" and "length (cells s0) = n" "n < 2 ^ 62" and "m_visible_levels s0 = [l]"
    and r1: "run mpsc_step s0 es1 m" and idle: "\<And>p. producers m p = M_Idle"
    and r2: "run mpsc_step m (M_Flush_Call (enqueue_pos m) # es2 @ [M_Flush_Return]) s"
    and calls: "list_all (called_by N) es1" "\<forall>p. \<forall>c \<in> set (m_calls p es1). fst c = k" "(\<Sum>p<N. length (m_calls p es1)) \<le> n"
    and quiet: "\<not> list_ex m_sets_level es1" "\<not> list_ex m_flush_call_event es2" "\<And>p. m_calls p es2 = []"
  shows "m_dropped s = 0 \<and> (if l \<le> k
    then map snd (m_delivered (es1 @ M_Flush_Call (enqueue_pos m) # es2 @ [M_Flush_Return]))
      \<in> interleavings (map (\<lambda>p. map (\<lambda>(l, out). (ToSpdlogLevel l, slot_text kMaxMsgLen out)) (m_calls p es1)) [0 ..< N])
    else m_delivered (es1 @ M_Flush_Call (enqueue_pos m) # es2 @ [M_Flush_Return]) = [])"
proof -
  let ?rest = "M_Flush_Call (enqueue_pos m) # es2 @ [M_Flush_Return]" and ?P = "length (claims es1)"
  let ?es = "es1 @ ?rest"
  have run: "run mpsc_step s0 ?es s" by (rule run_append [OF r2 r1])
  have none: "m_calls p ?rest = []" for p using quiet(3) by simp
  have cl: "claims ?rest = []" by (rule no_more_claims [OF assms(1) r1 idle r2 none])
  have roomy: "m_roomy_inv N n es1 m" "m_roomy_inv N n ?es s"
    using assms(1-3) by (intro m_roomy.inv_run [OF r1] m_roomy.inv_run [OF run]; simp)+
  have "list_all (called_by N) ?rest" by (rule called_by_calls) (rule none)
  then have nodrop: "\<not> list_ex m_is_drop es1" "\<not> list_ex m_is_drop ?es"
    using roomy calls(1,3) none by (simp_all add: m_roomy_inv_def)
  have acc: "list_all2 m_outcome_matches (m_calls p es1) (m_outcomes p es1)" "claims_by p es1 = m_lines (m_outcomes p es1)" for p
    using mpsc_account.inv_run [OF r1 assms(1), of p] idle [of p] by (simp_all add: m_account_def m_pc_simps)
  have "m_dropped s = of_nat (length (filter m_is_drop ?es))"
    using mpsc_account.inv_run [OF run assms(1), of 0] by (simp add: m_account_def)
  moreover have "filter m_is_drop ?es = []" using nodrop(2) by (auto simp: filter_empty_conv list_ex_iff)
  ultimately have dropped: "m_dropped s = 0" by simp
  have level: "(l \<le> k \<longrightarrow> \<not> list_ex m_filters es1) \<and> (k < l \<longrightarrow> claims es1 = [])"
    using m_level.inv_run [OF r1, of l k] mpsc_start_fields [OF assms(1)] assms(4) quiet(1) calls(2)
    by (auto simp: m_level_inv_def)
  have ac: "m_account p es1 m" for p using roomy(1) by (simp add: m_roomy_inv_def)
  from called_by_claims [OF ac calls(1)] have "?P = (\<Sum>p<N. length (claims_by p es1))" .
  also have "\<dots> \<le> (\<Sum>p<N. length (m_calls p es1))"
    by (intro sum_mono claims_by_calls(1) [OF ac])
  finally have small: "?P < 2 ^ 62" using calls(3) assms(3) by simp
  have inv: "mpsc_inv es1 m" "mpsc_inv ?es s" using roomy by (simp_all add: m_roomy_inv_def)
  have "enqueue_pos m = of_nat ?P" by (rule mpsc_atD(4) [OF mpsc_invD(1) [OF inv(1) small]])
  then have enq: "unat (enqueue_pos m) = ?P" using small by (simp only:) (intro unat_of_nat_small, simp)
  have known: "m_flush_known (es1 @ M_Flush_Call (enqueue_pos m) # es2) = enqueue_pos m"
    by (simp add: m_flush_known_def m_known_after_other [OF quiet(2)])
  have run': "run mpsc_step s0 ((es1 @ M_Flush_Call (enqueue_pos m) # es2) @ [M_Flush_Return]) s" using run by simp
  have "length (claims (es1 @ M_Flush_Call (enqueue_pos m) # es2)) < 2 ^ 62" using small cl by simp
  from m_Flush_returned [OF assms(1) run' this] have "?P \<le> length (m_delivered ?es)" unfolding known enq by simp
  moreover have "claims ?es = claims es1" "length (claims ?es) < 2 ^ 62" using cl small by simp_all
  ultimately have del: "map snd (m_delivered ?es) = map claim_line (claims es1)"
    using delivered_claims [OF inv(2)] by simp
  show ?thesis
  proof (cases "l \<le> k")
    case True
    have "c \<in> set (claims es1) \<Longrightarrow> fst c < N" for c
    proof (rule ccontr)
      assume "c \<in> set (claims es1)" "\<not> fst c < N"
      then have "claims_by (fst c) es1 = []" using acc [of "fst c"] called_by_none [OF calls(1), of "fst c"] by simp
      with \<open>c \<in> set (claims es1)\<close> show False by (auto simp: claims_by_def filter_empty_conv)
    qed
    then have "claims es1 \<in> interleavings (map (\<lambda>p. filter (\<lambda>c. fst c = p) (claims es1)) [0 ..< N])"
      by (intro interleaved_by) simp_all
    from map_in_interleavings [OF this, of claim_line] have
      "map snd (m_delivered ?es) \<in> interleavings (map (\<lambda>p. map claim_line (filter (\<lambda>c. fst c = p) (claims es1))) [0 ..< N])"
      unfolding del by (simp add: comp_def)
    moreover have "map claim_line (filter (\<lambda>c. fst c = p) (claims es1))
      = map (\<lambda>(l, out). (ToSpdlogLevel l, slot_text kMaxMsgLen out)) (m_calls p es1)" for p
    proof -
      have "claim_line c = (\<lambda>(l, t). (ToSpdlogLevel l, t)) (snd c)" for c by (simp add: claim_line_def split: prod.splits)
      then have "map claim_line (filter (\<lambda>c. fst c = p) (claims es1)) = map (\<lambda>(l, t). (ToSpdlogLevel l, t)) (claims_by p es1)"
        by (simp add: claims_by_def)
      also have "claims_by p es1 = map (\<lambda>(l, out). (l, slot_text kMaxMsgLen out)) (m_calls p es1)"
        unfolding acc(2) by (rule m_all_published [OF acc(1)]) (use level True nodrop(1) m_outcomes_free in auto)
      finally show ?thesis by (simp add: case_prod_beta comp_def)
    qed
    ultimately show ?thesis using True dropped by simp
  next
    case False
    with level del dropped show ?thesis by simp
  qed
qed

section \<open>The program\<close>

text \<open>The events of the calls \<open>main\<close> makes itself on the shared logger.\<close>

fun m_main_event :: "mpsc_event \<Rightarrow> bool" where
  "m_main_event (M_Flush_Call _) \<longleftrightarrow> True"
| "m_main_event M_Flush_Return \<longleftrightarrow> True"
| "m_main_event (M_Level_Set _) \<longleftrightarrow> True"
| "m_main_event M_Stop \<longleftrightarrow> True"
| "m_main_event _ \<longleftrightarrow> False"

text \<open>One iteration of the loop of a thread: \<open>u\<close> is \<open>cycle * 0.001\<close>.\<close>

definition m_loop_calls :: "build \<Rightarrow> ('d pack \<Rightarrow> fmt_outcome) \<Rightarrow> (int \<Rightarrow> 'd) \<Rightarrow> int \<Rightarrow> int \<Rightarrow> (LogLevel \<times> fmt_outcome) list" where
  "m_loop_calls b format_to_n u loop_id cycle = map (\<lambda>(l, args). (l, format_to_n args))
     (XLOG_RT_INFO b (''loop={} cycle={} u={:.3f}'', [Arg_Int loop_id, Arg_Int cycle, Arg_Double (u cycle)]))"

text \<open>What the thread with number \<open>p\<close> logs; the example starts three.\<close>

definition m_thread :: "build \<Rightarrow> ('d pack \<Rightarrow> fmt_outcome) \<Rightarrow> (int \<Rightarrow> 'd) \<Rightarrow> nat \<Rightarrow> (LogLevel \<times> fmt_outcome) list" where
  "m_thread b format_to_n u p = (if p < 3 then concat (map (m_loop_calls b format_to_n u (int p)) [0..999]) else [])"

text \<open>
  An execution of \<open>main\<close>: the banner; the three threads log, in any interleaving, until all
  have been joined; \<open>Flush\<close>, by a caller that knows of all claims since it has joined the threads;
  the report.
\<close>

definition mpsc_rt_logger_example :: "build \<Rightarrow> (spd_level \<Rightarrow> spd_level \<Rightarrow> bool) \<Rightarrow> ('d pack log_args \<Rightarrow> string) \<Rightarrow>
    ('d pack \<Rightarrow> fmt_outcome) \<Rightarrow> (int \<Rightarrow> 'd) \<Rightarrow> string list \<Rightarrow> process \<Rightarrow> mpsc_event list \<Rightarrow> 'd pack xlog_result list \<Rightarrow> bool" where
  "mpsc_rt_logger_example b sl fmt format_to_n u garbage p es rs \<longleftrightarrow> (\<exists>q q' r1 r2 s0 es1 m es2 s.
     xlog_do b sl fmt p (Use_Fmt kInfo (''mpsc_rt_logger_example: 3 control loops sharing one RT logger'', [])) = Some (r1, q)
     \<and> MpscRtLogger (p_env q) 4096 garbage = Some s0
     \<and> run mpsc_step s0 es1 m \<and> (\<forall>p. producers m p = M_Idle)
     \<and> (\<forall>p. m_calls p es1 = m_thread b format_to_n u p) \<and> \<not> list_ex m_main_event es1
     \<and> run mpsc_step m (M_Flush_Call (enqueue_pos m) # es2 @ [M_Flush_Return]) s
     \<and> (\<forall>p. m_calls p es2 = []) \<and> \<not> list_ex m_main_event es2
     \<and> xlog_do b sl fmt q (Use_Fmt kInfo (''mpsc_rt_logger_example: done, {} records dropped (ring-full)'',
         [Arg_Int (uint (Mpsc_dropped s))])) = Some (r2, q')
     \<and> es = es1 @ M_Flush_Call (enqueue_pos m) # es2 @ [M_Flush_Return] \<and> rs = [r1, r2])"

lemma m_loop_calls: "m_loop_calls b format_to_n u n i = (if compiled b kInfo
    then [(kInfo, format_to_n (''loop={} cycle={} u={:.3f}'', [Arg_Int n, Arg_Int i, Arg_Double (u i)]))] else [])"
  by (simp add: m_loop_calls_def XLOG_RT_INFO_def XLOG_RT_IMPL_def compiled_def)

lemma m_thread: "m_thread b format_to_n u p = (if compiled b kInfo \<and> p < 3
    then map (\<lambda>i. (kInfo, format_to_n (''loop={} cycle={} u={:.3f}'', [Arg_Int (int p), Arg_Int i, Arg_Double (u i)]))) [0..999]
    else [])"
proof -
  have "m_loop_calls b format_to_n u n = (\<lambda>i. if compiled b kInfo
      then [(kInfo, format_to_n (''loop={} cycle={} u={:.3f}'', [Arg_Int n, Arg_Int i, Arg_Double (u i)]))] else [])" for n
    by (simp add: fun_eq_iff m_loop_calls)
  then show ?thesis
    by (cases "compiled b kInfo") (simp_all add: m_thread_def concat_map_singleton del: upto_rec_numeral)
qed

lemma m_main_event_cases: "\<not> list_ex m_main_event es \<Longrightarrow> \<not> list_ex m_sets_level es \<and> \<not> list_ex m_flush_call_event es"
proof (induction es)
  case (Cons e es)
  then show ?case by (cases e) auto
qed simp

section \<open>An execution\<close>

lemma m_log_alone_quiet:
  "run (m_log_alone p) s es t \<Longrightarrow> m_flusher t = m_flusher s \<and> \<not> list_ex m_main_event es"
proof (induction rule: run.induct)
  case (run_snoc s es t e u)
  then obtain now where l: "Mpsc_Log_step p (m_log_load p t) (m_cas_ok p t) now t = Some (e, u)" by (auto simp: m_log_alone_def)
  then have "\<not> m_main_event e"
    by (cases "producers t p")
      (auto simp: Mpsc_Log_step_def with_cell_def format_cell_def split: if_splits option.splits prod.splits)
  with run_snoc.IH Mpsc_Log_step_frame [OF l] show ?case by simp
qed simp

lemma claims_length: "length (claims es) \<le> length es"
proof (induction es)
  case (Cons e es)
  then show ?case by (cases e) auto
qed simp

text \<open>A thread makes its calls one after the other while the others are idle.\<close>

lemma m_log_all:
  assumes "mpsc_start s0" and "run mpsc_step s0 es s" and "length es + 10 * length cs < 2 ^ 62"
    and "\<forall>q. producers s q = M_Idle" and "m_owner s = O_Alive"
  shows "\<exists>fs t. run mpsc_step s0 (es @ fs) t \<and> (\<forall>q. producers t q = M_Idle) \<and> m_owner t = O_Alive
    \<and> m_running t = m_running s \<and> m_flusher t = m_flusher s \<and> (\<forall>q. m_calls q fs = (if q = p then cs else []))
    \<and> \<not> list_ex m_main_event fs \<and> length fs \<le> 10 * length cs"
  using assms
proof (induction cs arbitrary: es s)
  case Nil
  then show ?case by (intro exI [of _ "[]"] exI [of _ s]) simp
next
  case (Cons c cs)
  obtain l out where c: "c = (l, out)" by (cases c)
  let ?s = "set_pc p (M_Filter l out) s"
  have "mpsc_step s (M_Call p l out) ?s" by (rule m_call) (use Cons.prems in simp_all)
  then have r1: "run mpsc_step s0 (es @ [M_Call p l out]) ?s" by (rule run_snoc [OF Cons.prems(2)])
  have own: "owned (producers ?s p) = None" "solo_steps_left (enqueue_pos ?s) (producers ?s p) = 9"
    by (simp_all add: owned_def solo_steps_left_def)
  have "length (claims (es @ [M_Call p l out])) + (if owned (producers ?s p) = None then 1 else 0) < 2 ^ 62"
    using claims_length [of es] Cons.prems(3) own by simp
  from m_log_alone_finishes [OF mpsc.inv_run [OF r1 assms(1)] this] own obtain fs t where
    f: "run (m_log_alone p) ?s fs t" "producers t p = M_Idle" "length fs \<le> 9" by auto
  note fr = m_log_alone_frame [OF f(1)] m_log_alone_quiet [OF f(1)]
  have r2: "run mpsc_step s0 (es @ M_Call p l out # fs) t"
    using run_append [OF m_log_alone_run [OF f(1)] r1] by simp
  have idle: "\<forall>q. producers t q = M_Idle" using fr Cons.prems(4) f(2) by (metis fun_upd_other set_pc_simps(12))
  have "length (es @ M_Call p l out # fs) + 10 * length cs < 2 ^ 62" using Cons.prems(3) f(3) by simp
  from Cons.IH [OF assms(1) r2 this idle] fr Cons.prems(5) obtain gs u where
    g: "run mpsc_step s0 ((es @ M_Call p l out # fs) @ gs) u" "\<forall>q. producers u q = M_Idle" "m_owner u = O_Alive"
      "m_running u = m_running t" "m_flusher u = m_flusher t" "\<forall>q. m_calls q gs = (if q = p then cs else [])"
      "\<not> list_ex m_main_event gs" "length gs \<le> 10 * length cs" by auto
  with fr f(3) c show ?case
    by (intro exI [of _ "M_Call p l out # fs @ gs"] exI [of _ u]) simp
qed

lemma drain_not_main: "run m_drain_alone s es t \<Longrightarrow> \<not> list_ex m_main_event es"
proof (induction rule: run.induct)
  case (run_snoc s es t e u)
  then obtain v where "Mpsc_DrainLoop_step v t = Some (e, u)" by (auto simp: m_drain_alone_def)
  then have "\<not> m_main_event e"
    by (cases "m_drain t")
      (auto simp: Mpsc_DrainLoop_step_def read_cell_def emit_cell_def split: if_splits option.splits)
  with run_snoc.IH show ?case by simp
qed simp

text \<open>\<open>Flush\<close> of a drained logger returns at once.\<close>

lemma drained_flush:
  assumes "mpsc_inv es m" and "length (claims es) < 2 ^ 62" and "m_unread es m = 0"
    and "m_owner m = O_Alive" and "m_flusher m = F_Idle"
  shows "\<exists>t. run mpsc_step m (M_Flush_Call (enqueue_pos m) # replicate 2 M_Flush_Step @ [M_Flush_Return]) t \<and> m_dropped t = m_dropped m"
proof -
  note at = mpsc_invD(1) [OF assms(1,2)]
  note l = lines_okD [OF mpsc_atD(3) [OF at]]
  have F: "m_freed (m_drain m) (length (m_delivered es)) = length (claims es)"
    using assms(3) l(6) by (simp add: m_unread_def)
  have "line_at es (length (claims es)) = None" using l(1) [of "length (claims es)"] by (cases "line_at es (length (claims es))") auto
  then have dq: "dequeue_pos m = enqueue_pos m"
    using mpsc_atD(4,6) [OF at] unfolding F by (auto simp: md_ok_def split: md_pc.splits)
  let ?s1 = "m\<lparr>m_flusher := F_Tail, m_known := enqueue_pos m\<rparr>"
  let ?s2 = "?s1\<lparr>m_flusher := F_Head (enqueue_pos m)\<rparr>"
  let ?s3 = "?s2\<lparr>m_flusher := F_Sink (enqueue_pos m)\<rparr>"
  have "mpsc_step m (M_Flush_Call (enqueue_pos m)) ?s1" by (rule m_flush_call) (use assms in simp_all)
  moreover have "mpsc_step ?s1 M_Flush_Step ?s2" by (rule m_flush [of "enqueue_pos m"]) (simp add: Mpsc_Flush_step_def dq)
  moreover have "mpsc_step ?s2 M_Flush_Step ?s3" by (rule m_flush [of "enqueue_pos m"]) (simp add: Mpsc_Flush_step_def)
  moreover have "mpsc_step ?s3 M_Flush_Return (?s3\<lparr>m_flusher := F_Idle\<rparr>)" by (rule m_flush [of 0]) (simp add: Mpsc_Flush_step_def)
  ultimately have "run mpsc_step m (M_Flush_Call (enqueue_pos m) # [M_Flush_Step, M_Flush_Step] @ [M_Flush_Return]) (?s3\<lparr>m_flusher := F_Idle\<rparr>)"
    by (auto intro!: run_cons [where step = mpsc_step] run_nil)
  then show ?thesis by (intro exI [of _ "?s3\<lparr>m_flusher := F_Idle\<rparr>"]) (simp add: numeral_2_eq_2)
qed

lemma mpsc_start_4096:
  assumes "MpscRtLogger env 4096 garbage = Some s0"
  shows "mpsc_start s0 \<and> length (cells s0) = 4096 \<and> m_visible_levels s0 = [ResolveLogLevelFromEnv env default_log_level]"
proof -
  have "(2 :: u64) \<le> 4096 \<and> (4096 :: u64) \<le> 2 ^ 61" by (simp add: word_le_nat_alt)
  with assms have "mpsc_start s0" unfolding mpsc_start_def by blast
  with assms show ?thesis
    by (auto simp: MpscRtLogger_def ring_size_4096 m_visible_levels_def split: if_splits)
qed

lemma mpsc_rt_logger_example_runs:
  assumes "\<forall>c l. sl c l \<longleftrightarrow> spd_code c \<le> spd_code l" and "\<forall>s. fmt (Braces s) = s" and "p_instance p = None"
  shows "\<exists>garbage es rs. mpsc_rt_logger_example b sl fmt format_to_n u garbage p es rs"
proof -
  let ?banner = "Use_Fmt kInfo (''mpsc_rt_logger_example: 3 control loops sharing one RT logger'', [])"
  let ?report = "\<lambda>n. Use_Fmt kInfo (''mpsc_rt_logger_example: done, {} records dropped (ring-full)'', [Arg_Int n])"
  let ?calls = "m_thread b format_to_n u"
  from xlog_simulation [OF assms(1,2) xlog_fresh(1) [OF assms(3)], of b ?banner] obtain r1 q where
    x1: "xlog_do b sl fmt p ?banner = Some (r1, q)" "xlog_inv q" by blast
  have x2: "\<exists>r2 q'. xlog_do b sl fmt q (?report n) = Some (r2, q')" for n
    using xlog_simulation [OF assms(1,2) x1(2), of b "?report n"] by blast
  let ?garbage = "replicate 4096 (replicate 256 CHR ''.'')"
  obtain s0 where s0: "MpscRtLogger (p_env q) 4096 ?garbage = Some s0"
    by (simp add: MpscRtLogger_def ring_size_4096 kMaxMsgLen_def list_all_iff)
  then have start: "mpsc_start s0" using mpsc_start_4096 by blast
  note f = mpsc_start_fields [OF start]
  have len: "length (?calls n) \<le> 1000" for n by (simp add: m_thread del: upto_rec_numeral)
  have "length [] + 10 * length (?calls 0) < 2 ^ 62" using len [of 0] by simp
  from m_log_all [OF start run_nil this, of 0] f obtain f0 t0 where
    a: "run mpsc_step s0 f0 t0" "\<forall>q. producers t0 q = M_Idle" "m_owner t0 = O_Alive" "m_running t0" "m_flusher t0 = F_Idle"
      "\<forall>q. m_calls q f0 = (if q = 0 then ?calls 0 else [])" "\<not> list_ex m_main_event f0" "length f0 \<le> 10 * length (?calls 0)" by auto
  have "length f0 + 10 * length (?calls 1) < 2 ^ 62" using a(8) len [of 0] len [of 1] by simp
  from m_log_all [OF start a(1) this a(2,3), of 1] a(4,5) obtain f1 t1 where
    c: "run mpsc_step s0 (f0 @ f1) t1" "\<forall>q. producers t1 q = M_Idle" "m_owner t1 = O_Alive" "m_running t1" "m_flusher t1 = F_Idle"
      "\<forall>q. m_calls q f1 = (if q = 1 then ?calls 1 else [])" "\<not> list_ex m_main_event f1" "length f1 \<le> 10 * length (?calls 1)" by auto
  have "length (f0 @ f1) + 10 * length (?calls 2) < 2 ^ 62" using a(8) c(8) len [of 0] len [of 1] len [of 2] by simp
  from m_log_all [OF start c(1) this c(2,3), of 2] c(4,5) obtain f2 t2 where
    d: "run mpsc_step s0 ((f0 @ f1) @ f2) t2" "\<forall>q. producers t2 q = M_Idle" "m_owner t2 = O_Alive" "m_running t2" "m_flusher t2 = F_Idle"
      "\<forall>q. m_calls q f2 = (if q = 2 then ?calls 2 else [])" "\<not> list_ex m_main_event f2" "length f2 \<le> 10 * length (?calls 2)" by auto
  let ?es1 = "(f0 @ f1) @ f2"
  have "length (claims ?es1) < 2 ^ 62"
    using claims_length [of ?es1] a(8) c(8) d(8) len [of 0] len [of 1] len [of 2] by simp
  moreover have "\<forall>p. owned (producers t2 p) = None" using d(2) by (simp add: owned_def)
  ultimately obtain gs m where g: "run m_drain_alone t2 gs m" "m_unread (?es1 @ gs) m = 0"
    using m_drain_alone_finishes [OF mpsc_live.inv_run [OF d(1) start]] d(4) by blast
  note fr = m_drain_alone_frame [OF g(1)] and nm = drain_not_main [OF g(1)]
  have r1: "run mpsc_step s0 (?es1 @ gs) m" by (rule run_append [OF m_drain_alone_run [OF g(1)] d(1)])
  have "length (claims (?es1 @ gs)) < 2 ^ 62" using \<open>length (claims ?es1) < 2 ^ 62\<close> fr by simp
  from drained_flush [OF mpsc.inv_run [OF r1 start] this g(2)] fr d(3,5) obtain s where
    r2: "run mpsc_step m (M_Flush_Call (enqueue_pos m) # replicate 2 M_Flush_Step @ [M_Flush_Return]) s" by auto
  have calls: "\<forall>p. m_calls p (?es1 @ gs) = ?calls p"
  proof
    fix n show "m_calls n (?es1 @ gs) = ?calls n"
    proof (cases "n < 3")
      case True
      then have "n = 0 \<or> n = 1 \<or> n = 2" by auto
      then show ?thesis using a(6) c(6) d(6) fr by auto
    qed (use a(6) c(6) d(6) fr in \<open>simp add: m_thread_def\<close>)
  qed
  have idle: "\<forall>p. producers m p = M_Idle" using fr d(2) by simp
  have "\<not> list_ex m_main_event (?es1 @ gs)" using a(7) c(7) d(7) nm by simp
  moreover have "\<forall>p. m_calls p (replicate 2 M_Flush_Step) = []" "\<not> list_ex m_main_event (replicate 2 M_Flush_Step)"
    by (simp_all add: numeral_2_eq_2)
  moreover obtain r2' q' where "xlog_do b sl fmt q (?report (uint (Mpsc_dropped s))) = Some (r2', q')" using x2 by blast
  ultimately show ?thesis
    unfolding mpsc_rt_logger_example_def using x1(1) s0 r1 idle calls r2 by blast
qed

section \<open>Properties\<close>

text \<open>C17. The example with three control loops on one logger loses nothing: in every execution,
  whatever the interleaving of the threads with each other and with the drain thread and
  whatever their loads return, when information messages are enabled the sink has been handed
  all 3000 lines by the time \<open>Flush\<close> returns, an interleaving of the three loops' lines in which
  each loop's are in order and none is lost or repeated; the report says that 0 records were
  dropped, and the two messages are written; when they are not, nothing is logged at all.\<close>

theorem mpsc_rt_logger_example_loses_nothing:
  assumes "\<forall>c l. sl c l \<longleftrightarrow> spd_code c \<le> spd_code l" and "\<forall>s. fmt (Braces s) = s" and "p_instance p = None"
    and "mpsc_rt_logger_example b sl fmt format_to_n u garbage p es rs"
    and "ResolveLogLevelFromEnv (p_env p) default_log_level = l"
  shows "if compiled b kInfo \<and> l \<le> kInfo
    then map snd (m_delivered es) \<in> interleavings (map (\<lambda>n. map (\<lambda>i. (spd_info, slot_text kMaxMsgLen
          (format_to_n (''loop={} cycle={} u={:.3f}'', [Arg_Int n, Arg_Int i, Arg_Double (u i)])))) [0..999]) [0, 1, 2])
      \<and> rs = [Site True [(spd_info, fmt (Pack (''mpsc_rt_logger_example: 3 control loops sharing one RT logger'', [])))],
              Site True [(spd_info, fmt (Pack (''mpsc_rt_logger_example: done, {} records dropped (ring-full)'', [Arg_Int 0])))]]
    else m_delivered es = [] \<and> rs = replicate 2 (Site (compiled b kInfo) [])"
proof -
  let ?calls = "m_thread b format_to_n u"
  let ?line = "\<lambda>n i. (spd_info, slot_text kMaxMsgLen
    (format_to_n (''loop={} cycle={} u={:.3f}'', [Arg_Int n, Arg_Int i, Arg_Double (u i)])))"
  from assms(4) obtain q q' r1 r2 s0 es1 m es2 s where
    x1: "xlog_do b sl fmt p (Use_Fmt kInfo (''mpsc_rt_logger_example: 3 control loops sharing one RT logger'', [])) = Some (r1, q)"
    and new: "MpscRtLogger (p_env q) 4096 garbage = Some s0"
    and r: "run mpsc_step s0 es1 m" "\<And>p. producers m p = M_Idle" "run mpsc_step m (M_Flush_Call (enqueue_pos m) # es2 @ [M_Flush_Return]) s"
    and c1: "\<And>p. m_calls p es1 = ?calls p" "\<not> list_ex m_main_event es1"
    and c2: "\<And>p. m_calls p es2 = []" "\<not> list_ex m_main_event es2"
    and x2: "xlog_do b sl fmt q (Use_Fmt kInfo (''mpsc_rt_logger_example: done, {} records dropped (ring-full)'',
        [Arg_Int (uint (Mpsc_dropped s))])) = Some (r2, q')"
    and es: "es = es1 @ M_Flush_Call (enqueue_pos m) # es2 @ [M_Flush_Return]" and rs: "rs = [r1, r2]"
    unfolding mpsc_rt_logger_example_def by blast
  note fresh = xlog_fresh [OF assms(3)]
  note i1 = info_result [OF assms(1,2) fresh(1) x1]
  have q: "xlog_abs q = l" using i1 fresh(2) assms(5) by simp
  have "xlog_inv q" using i1 by blast
  note i2 = info_result [OF assms(1,2) this x2]
  have start: "mpsc_start s0" "length (cells s0) = 4096" "m_visible_levels s0 = [l]"
    using mpsc_start_4096 [OF new] assms(5) XLOG_INFO_env [OF x1] by simp_all
  have level: "\<forall>p. \<forall>c \<in> set (m_calls p es1). fst c = kInfo" by (auto simp: c1 m_thread simp del: upto_rec_numeral)
  have three: "list_all (called_by 3) es1" by (rule called_by_calls) (simp add: c1 m_thread_def)
  have "length (?calls p) \<le> 1000" for p by (simp add: m_thread del: upto_rec_numeral)
  then have "(\<Sum>p<3. length (m_calls p es1)) \<le> (\<Sum>p<(3::nat). 1000)" unfolding c1 by (intro sum_mono) simp
  then have few: "(\<Sum>p<3. length (m_calls p es1)) \<le> 4096" by simp
  have "m_dropped s = 0 \<and> (if l \<le> kInfo
    then map snd (m_delivered es) \<in> interleavings (map (\<lambda>p. map (\<lambda>(l, out). (ToSpdlogLevel l, slot_text kMaxMsgLen out)) (?calls p)) [0 ..< 3])
    else m_delivered es = [])"
    unfolding es by (rule m_log_then_flush [OF start(1,2) _ start(3) r three level few, unfolded c1])
      (simp_all add: c2(1) m_main_event_cases [OF c1(2)] m_main_event_cases [OF c2(2)])
  then have d: "m_dropped s = 0"
    "l \<le> kInfo \<Longrightarrow> map snd (m_delivered es) \<in> interleavings (map (\<lambda>p. map (\<lambda>(l, out). (ToSpdlogLevel l, slot_text kMaxMsgLen out)) (?calls p)) [0 ..< 3])"
    "\<not> l \<le> kInfo \<Longrightarrow> m_delivered es = []"
    by auto
  show ?thesis
  proof (cases "compiled b kInfo \<and> l \<le> kInfo")
    case True
    then have "map (\<lambda>p. map (\<lambda>(l, out). (ToSpdlogLevel l, slot_text kMaxMsgLen out)) (?calls p)) [0 ..< 3]
      = map (\<lambda>n. map (?line n) [0..999]) [0, 1, 2]"
      by (simp add: m_thread ToSpdlogLevel_def upt_rec comp_def del: upto_rec_numeral)
    with True d i1 i2 q rs fresh(2) assms(5) show ?thesis by (simp del: upto_rec_numeral interleavings.simps)
  next
    case False
    have "m_delivered es = []"
    proof (cases "l \<le> kInfo")
      case True
      with False have "?calls p = []" for p by (simp add: m_thread)
      with d(2) [OF True] show ?thesis by (simp add: upt_rec)
    qed (rule d(3))
    with False i1 i2 q rs fresh(2) assms(5) show ?thesis by (auto simp: numeral_2_eq_2)
  qed
qed

theorem mpsc_rt_logger_example_loses_nothing_witness:
  "\<exists>garbage es rs. mpsc_rt_logger_example \<lparr>enable_logging = True, active_level = 0\<rparr> (\<lambda>c l. spd_code c \<le> spd_code l)
       (\<lambda>args. case args of Pack (t, as) \<Rightarrow> t | Braces t \<Rightarrow> t) (\<lambda>(t, as). Formatted t) (\<lambda>i. nat i) garbage
       (demo_process\<lparr>p_env := (\<lambda>_. None)\<rparr>) es rs
     \<and> length (m_delivered es) = 3000"
proof -
  let ?b = "\<lparr>enable_logging = True, active_level = 0\<rparr>" and ?sl = "\<lambda>c l. spd_code c \<le> spd_code l"
    and ?fmt = "\<lambda>args. case args of Pack (t, as :: nat log_arg list) \<Rightarrow> t | Braces t \<Rightarrow> t"
    and ?n = "\<lambda>(t, as :: nat log_arg list). Formatted t" and ?p = "demo_process\<lparr>p_env := (\<lambda>_. None)\<rparr>"
  have law: "\<forall>c l. ?sl c l \<longleftrightarrow> spd_code c \<le> spd_code l" "\<forall>s. ?fmt (Braces s) = s" "p_instance ?p = None"
    by (simp_all add: demo_process_def)
  have l: "ResolveLogLevelFromEnv (p_env ?p) default_log_level = kInfo" by code_simp
  have c: "compiled ?b kInfo" by (simp add: compiled_def)
  from mpsc_rt_logger_example_runs [OF law, of ?b ?n nat] obtain garbage es rs where
    ex: "mpsc_rt_logger_example ?b ?sl ?fmt ?n nat garbage ?p es rs" by auto
  let ?lines = "map (\<lambda>n. map (\<lambda>i. (spd_info, slot_text kMaxMsgLen (?n (''loop={} cycle={} u={:.3f}'',
      [Arg_Int n, Arg_Int i, Arg_Double (nat i)])))) [0..999]) [0 :: int, 1, 2]"
  have "map snd (m_delivered es) \<in> interleavings ?lines"
    using mpsc_rt_logger_example_loses_nothing [OF law ex l] c by (simp del: upto_rec_numeral interleavings.simps)
  then have "length (m_delivered es) = sum_list (map length ?lines)" using set_interleaving by fastforce
  also have "\<dots> = 3000" by (simp del: upto_rec_numeral)
  finally show ?thesis using ex by blast
qed

end
