(* ===== verification/Types_Example.thy ===== *)
theory Types_Example
  imports Xlogger_Example Types
begin

text \<open>
  The program \<open>examples/types_example.cpp\<close>: a pose, an odometry estimate, two readings of the
  clock, a stamped value, and forces and torques as quantities, each reported with \<open>XLOG_INFO\<close>.

  Parameters: the value of a floating-point literal, Eigen's norm, dot product and conversion of
  an angle and an axis to a quaternion, and the four readings of the clock, whose period is
  \<open>num / den\<close> seconds.
\<close>

section \<open>The program\<close>

record 'd eigen =
  literal :: "string \<Rightarrow> 'd"
  eigen_norm :: "'d eigen_vec \<Rightarrow> 'd"
  eigen_dot :: "'d eigen_vec \<Rightarrow> 'd eigen_vec \<Rightarrow> 'd"
  angle_axis :: "'d \<Rightarrow> 'd eigen_vec \<Rightarrow> 'd quaternion"

text \<open>\<open>duration_cast<microseconds>\<close>, which truncates.\<close>

definition duration_cast_us :: "Duration \<Rightarrow> int" where
  "duration_cast_us d = (if 0 \<le> d then d div 1000 else - ((- d) div 1000))"

definition example_pose :: "('d::zero_neq_one) eigen \<Rightarrow> 'd Pose" where
  "example_pose e =
     (let kHalfPi = literal e ''1.57079632679489661923'';
          pose = Pose_default;
          pose = pose\<lparr>position := Vec3 (literal e ''1.0'') (literal e ''2.0'') (literal e ''0.5'')\<rparr>
      in pose\<lparr>orientation := angle_axis e kHalfPi (Vec3 0 0 1)\<rparr>)"

definition example_odom :: "('d::zero_neq_one) eigen \<Rightarrow> 'd Pose \<Rightarrow> Timestamp \<Rightarrow> 'd Odometry" where
  "example_odom e pose now =
     (let cmd = Twist_default;
          cmd = cmd\<lparr>linear := Vec3 (literal e ''0.4'') (literal e ''0.0'') (literal e ''0.0'')\<rparr>;
          cmd = cmd\<lparr>angular := Vec3 (literal e ''0.0'') (literal e ''0.0'') (literal e ''0.2'')\<rparr>;
          odom = Odometry_default;
          odom = odom\<lparr>frame_id := ''odom''\<rparr>;
          odom = odom\<lparr>child_frame_id := ''base_link''\<rparr>;
          odom = odom\<lparr>odom_pose := pose\<rparr>;
          odom = odom\<lparr>odom_twist := cmd\<rparr>
      in odom\<lparr>odom_stamp := now\<rparr>)"

definition f_grav :: "('d::uminus) eigen \<Rightarrow> 'd Force" where
  "f_grav e = Vec3 (literal e ''0.0'') (literal e ''0.0'') (- literal e ''9.81'')"

definition f_push :: "'d eigen \<Rightarrow> 'd Force" where
  "f_push e = Vec3 (literal e ''2.0'') (literal e ''0.0'') (literal e ''0.0'')"

definition example_tau :: "'d eigen \<Rightarrow> 'd Torque" where
  "example_tau e = Vec3 (literal e ''0.0'') (literal e ''0.0'') (literal e ''0.5'')"

definition types_example :: "build \<Rightarrow> (spd_level \<Rightarrow> spd_level \<Rightarrow> bool) \<Rightarrow> ('d pack log_args \<Rightarrow> string) \<Rightarrow>
    ('d::{zero_neq_one,uminus,plus}) eigen \<Rightarrow> int \<Rightarrow> int \<Rightarrow> int \<times> int \<times> int \<times> int \<Rightarrow> process \<Rightarrow>
    ('d pack xlog_result list \<times> process) option" where
  "types_example b sl fmt e num den readings p = (case readings of (r_odom, r_t0, r_t1, r_pose) \<Rightarrow>
     let pose = example_pose e;
         odom = example_odom e pose (Now num den r_odom);
         t0 = Now num den r_t0;
         elapsed = Now num den r_t1 - t0;
         stamped_pose = StampNow num den r_pose pose;
         f_net = vec3_add (f_grav e) (f_push e);
         tau = example_tau e;
         work = eigen_dot e (vec3_vec (f_push e)) (position pose)
     in run_ops (xlog_do b sl fmt) p
       [Use_Fmt kInfo (''pose: p=({:.2f},{:.2f},{:.2f}) yaw_w={:.3f}'',
          [Arg_Double (vec_x (position pose)), Arg_Double (vec_y (position pose)), Arg_Double (vec_z (position pose)),
           Arg_Double (q_w (orientation pose))]),
        Use_Fmt kInfo (''odometry: {} in {} (vx={:.2f} wz={:.2f})'',
          [Arg_Text (child_frame_id odom), Arg_Text (frame_id odom),
           Arg_Double (vec_x (linear (odom_twist odom))), Arg_Double (vec_z (angular (odom_twist odom)))]),
        Use_Fmt kInfo (''elapsed {} us'', [Arg_Int (duration_cast_us elapsed)]),
        Use_Fmt kInfo (''stamped pose captured at t={} ns'', [Arg_Int (stamp stamped_pose)]),
        Use_Fmt kInfo (''net force = ({:.2f},{:.2f},{:.2f}), |tau| = {:.2f}'',
          [Arg_Double (vec3_x f_net), Arg_Double (vec3_y f_net), Arg_Double (vec3_z f_net),
           Arg_Double (vec3_norm (eigen_norm e) tau)]),
        Use_Fmt kInfo (''work along displacement = {:.3f} J'', [Arg_Double work])])"

section \<open>Elapsed time\<close>

text \<open>Two stamps of a clock that does not step back are as far apart as the readings, less than a
  nanosecond short.\<close>

lemma Now_apart:
  assumes "0 < num" and "0 < den" and "0 \<le> a" and "n * den \<le> (b - a) * num * 10 ^ 9" and "0 \<le> n"
  shows "n \<le> Now num den b - Now num den a"
proof -
  let ?t = "\<lambda>r. r * num * 10 ^ 9"
  have "0 \<le> n * den" using assms by simp
  then have "0 \<le> (b - a) * num * 10 ^ 9" using assms(4) by linarith
  then have "0 \<le> (b - a) * num" by (simp add: zero_le_mult_iff)
  then have "a \<le> b" using assms(1) by (simp add: zero_le_mult_iff)
  then have now: "Now num den a = ?t a div den" "Now num den b = ?t b div den"
    using assms by (simp_all add: Now_def time_point_cast_def)
  have "?t a + n * den \<le> ?t b" using assms(4) by (simp add: algebra_simps)
  then have "(?t a + n * den) div den \<le> ?t b div den" using assms(2) by (intro zdiv_mono1) simp_all
  then show ?thesis using assms(2) by (simp add: now)
qed

section \<open>Properties\<close>

text \<open>Exact arithmetic, and what Eigen documents.\<close>

definition exact :: "real eigen \<Rightarrow> bool" where
  "exact e \<longleftrightarrow> literal e ''0.0'' = 0 \<and> literal e ''1.0'' = 1 \<and> literal e ''2.0'' = 2 \<and> literal e ''0.5'' = 1 / 2
     \<and> literal e ''0.4'' = 2 / 5 \<and> literal e ''0.2'' = 1 / 5 \<and> literal e ''9.81'' = 981 / 100
     \<and> (\<forall>v. eigen_norm e v = sqrt (vec_x v ^ 2 + vec_y v ^ 2 + vec_z v ^ 2))
     \<and> (\<forall>v w. eigen_dot e v w = vec_x v * vec_x w + vec_y v * vec_y w + vec_z v * vec_z w)
     \<and> (\<forall>a v. q_w (angle_axis e a v) = cos (a / 2))"


text \<open>The exact numbers, with the quaternion of a rotation about an axis.\<close>

definition demo_eigen :: "real eigen" where
  "demo_eigen =
     \<lparr>literal = (\<lambda>t. if t = ''0.0'' then 0 else if t = ''1.0'' then 1 else if t = ''2.0'' then 2 else if t = ''0.5'' then 1 / 2
         else if t = ''0.4'' then 2 / 5 else if t = ''0.2'' then 1 / 5 else if t = ''9.81'' then 981 / 100 else pi / 2),
       eigen_norm = (\<lambda>v. sqrt (vec_x v ^ 2 + vec_y v ^ 2 + vec_z v ^ 2)),
       eigen_dot = (\<lambda>v w. vec_x v * vec_x w + vec_y v * vec_y w + vec_z v * vec_z w),
       angle_axis = (\<lambda>a v. \<lparr>q_w = cos (a / 2), q_x = sin (a / 2) * vec_x v, q_y = sin (a / 2) * vec_y v, q_z = sin (a / 2) * vec_z v\<rparr>)\<rparr>"


end
