(* ===== verification/Spec2Isabelle.thy ===== *)
theory Spec2Isabelle
  imports Prelude Byte_Order Checksum Ring_Buffer_Threads Logging_Utils Rt_Common Rt_Logger
    Mpsc_Progress Rt_Files Local_Time Xlogger Default_Logger Log_File Data_Loggers Ctrl_Logger Types
    Xlogger_Example Ctrl_Logger_Example Rt_Examples Mpsc_Example Types_Example
begin

text \<open>
  \<^bold>\<open>The program.\<close> xmSigma is the C++ base library of a robotics stack: logging in three
  flavours (a process-wide asynchronous logger behind macros, two lock-free loggers for hard
  real-time loops, and data loggers that write rows), a ring buffer, checksums, byte-order
  helpers, and plain types. Everything but the two real-time loggers and the ring buffer is
  called from one thread at a time or is protected by spdlog.

  \<^bold>\<open>The theories, and the code they model\<close> (paths below \<open>include/xmsigma/\<close> unless said otherwise):

  \<^item> \<open>Prelude\<close>: array access as an option, arithmetic of indices that wrap around at \<open>2 ^ 64\<close>,
    runs of a step relation, and three interfaces as locales: \<open>trace_invariant\<close> (an invariant of
    the events so far and the state), \<open>bounded_refinement\<close> and its special case \<open>refinement\<close> (the
    operations of a component against an abstract machine). Each is interpreted in the theories
    of the components.
  \<^item> \<open>Byte_Order\<close> (\<open>serialization/byte_order.hpp\<close>), \<open>Checksum\<close> (\<open>serialization/checksum.hpp\<close>): every
    function, on words of its width. Round trips and values of loads and stores; the CRCs as
    remainders of polynomials, with the burst errors they detect.
  \<^item> \<open>Ring_Buffer\<close> (\<open>container/ring_buffer.hpp\<close>): the class with its mask and its two wrapping
    indices, each method as one transition. It refines a bounded queue.
  \<^item> \<open>Monitor\<close>, \<open>Ring_Buffer_Threads\<close>: objects whose operations hold one mutex, used by any number
    of threads, as a step relation with a locale that derives linearizability from what one body
    does on its own; and its interpretation on the methods of the ring buffer, statement by
    statement.
  \<^item> \<open>Logging_Utils\<close> (\<open>logging/details/logger_interface.hpp\<close>, \<open>logging/details/logging_utils.hpp\<close>):
    levels, environment variables, process name, paths and file names. \<open>Local_Time\<close>: the calendar
    behind \<open>LocalTimeNow\<close>, for a time zone that is a function; names of log files sort by local time.
  \<^item> \<open>Rt_Common\<close>: what the two real-time loggers share, \<open>rt_detail::FormatInto\<close> and the start of
    both constructors.
  \<^item> \<open>Rt_Logger\<close> (\<open>logging/rt_logger.hpp\<close>, \<open>src/rt_logger.cpp\<close>): the single-producer logger. A state
    holds the ring, the atomics and a program counter for the producer (\<open>Log\<close>), the drain thread
    (\<open>DrainLoop\<close>), a caller of \<open>Flush\<close> and the owner (destructor); a step is one access to an
    atomic or to a field of a record.
  \<^item> \<open>Mpsc_Logger\<close>, \<open>Mpsc_Invariants\<close>, \<open>Mpsc_Properties\<close>, \<open>Mpsc_Progress\<close> (\<open>logging/rt_logger_mpsc.hpp\<close>,
    \<open>src/rt_logger_mpsc.cpp\<close>): the multi-producer logger, in the same style, with a program counter
    for each of any number of producers; model and per-step preservation, invariants of runs,
    properties and concrete schedules, progress of producers and shutdown.
  \<^item> \<open>Rt_Files\<close>: the constructors of both with their sinks, when a log file cannot be opened, and when
    two loggers write to one file.
  \<^item> \<open>Xlogger\<close> (\<open>logging/xlogger.hpp\<close>, the macros of \<open>logging/rt_logger.hpp\<close>,
    \<open>logging/details/logger_vendor_spdlog.hpp\<close>, \<open>src/logger_vendor_spdlog.cpp\<close>,
    \<open>src/default_logger.cpp\<close>): all log macros under both preprocessor settings, and the logger
    behind them.
  \<^item> \<open>Default_Logger\<close>: the first use of that logger by several threads. The guard of the static in
    \<open>DefaultLogger::GetInstance\<close> is the lock of \<open>Monitor\<close>, and \<open>Initialize\<close> its body, statement by
    statement. \<open>Log_File\<close>: the same when its log file cannot be opened, and the log statements that
    then throw.
  \<^item> \<open>Data_Loggers\<close> (\<open>logging/details/specialized_logger.hpp\<close>, \<open>logging/csv_logger.hpp\<close>,
    \<open>logging/event_logger.hpp\<close>), \<open>Ctrl_Logger\<close> (\<open>logging/ctrl_logger.hpp\<close>, \<open>src/ctrl_logger.cpp\<close>): the
    loggers of rows.
  \<^item> \<open>Types\<close> (\<open>types/scalar.hpp\<close>, \<open>types/time.hpp\<close>, \<open>types/stamped.hpp\<close>, \<open>types/vector.hpp\<close>, \<open>types/geometry.hpp\<close>,
    \<open>types/quantities.hpp\<close>): stamps of a monotonic clock, and the tagged vectors over any number
    type, whose operators form a vector space where the numbers are exact.
  \<^item> \<open>Xlogger_Example\<close>, \<open>Ctrl_Logger_Example\<close>, \<open>Rt_Examples\<close>, \<open>Mpsc_Example\<close>, \<open>Types_Example\<close>
    (\<open>src/examples\<close>): the five programs built on the library, \<open>main\<close> of each as a composition of the
    components, and what it writes: every row, every line of every loop, in the right order, for
    every interleaving of their threads.

  \<^bold>\<open>How the parts interact.\<close> Every constructor of a logger asks \<open>Logging_Utils\<close> for the level, the
  paths or the file name. The macros call the default logger or the \<open>Log\<close> of a real-time logger.
  All loggers end at spdlog: what the model shows of it are the calls made, as events or results.

  \<^bold>\<open>What the lemmas show.\<close> For the real-time loggers: delivery in order, exactly once and untorn,
  no data race on a record or cell, one outcome for each call, \<open>Flush\<close> and the drain thread keep
  their promises, and the situations in which a record is lost. For the ring buffer, the control
  logger and the macros: refinement of an abstract machine for every sequence of operations.
  For the byte-level code: round trips and numeric meaning. For the examples: their whole output.

  \<^bold>\<open>Memory model.\<close> A load of an atomic may return a value older than the current one: in
  \<open>Rt_Logger\<close> any value between the last one the thread has seen and the current one, in
  \<open>Mpsc_Logger\<close> any value not above the current one, and for the sequence number a producer loads
  none below the one the constructor gave the cell. This covers what C++ allows for the positions
  and sequence numbers, which only grow. A value that is read makes the plain stores before its
  release store visible, because the fields of a slot are written before it and not again until
  the slot is handed back. The level is stored by other threads in any order of values: its load
  returns any store not older than the one the producer last saw (\<open>visible_levels\<close>), with many
  producers any store at all (\<open>m_visible_levels\<close>); the load of \<open>running_\<close> may return the \<open>true\<close> that was overwritten. The drop
  counter is only ever read for reporting, as current. The plain fields are accessed in the
  order of the program.

  \<^bold>\<open>Bounds.\<close> Positions are 64-bit words. The results on the multi-producer logger are for runs
  with fewer than \<open>2 ^ 62\<close> claims and a capacity from 2 to \<open>2 ^ 61\<close>, so that the signed difference of
  a sequence number and a position cannot overflow; at a billion records a second the first
  bound is reached after more than a hundred years. \<open>Flush\<close> of the single-producer logger is
  bounded by \<open>2 ^ 64\<close> records, the control logger by \<open>2 ^ 64\<close> calls. The loop that rounds a
  capacity up is a partial function, and where it returns is a theorem. Nothing else uses fuel:
  the loops of the threads are step relations.

  \<^bold>\<open>Not modelled.\<close> The system calls behind the clock, the process name and the environment,
  whose results are arguments, and the data of the time zone, which is a function; spdlog, fmt and Eigen, whose behaviour enters
  as parameters with hypotheses (which levels a logger lets through, the text of an argument
  pack, the refusal of a second logger of the same name, the norm and the dot product) or, for
  \<open>format_to_n\<close>, as the outcomes of \<open>fmt_outcome\<close>, and which files can be opened; enumerators
  out of range of \<open>LogLevel\<close>; rounding of floating-point numbers, which are a type variable; the
  aliases of matrix types; CMake files, tests and benchmarks.
\<close>

end
